(* ===== verification/Prelude.thy ===== *)
theory Prelude
  imports Main "HOL-Library.Word" "HOL-Library.Sublist"
begin

text \<open>
  Shared vocabulary of the development: the machine types of the Rust code, its saturating and
  wrapping integer operations, the constants of \<^verbatim>\<open>lib.rs\<close>, the fixed-size username buffers,
  little-endian byte strings, UTF-8 validation, and the ``first matching slot'' search that the
  fixed-size caches are built from.

  Rust's \<^verbatim>\<open>i64\<close> values (in particular PostgreSQL's \<^verbatim>\<open>TimestampTz\<close>) are integers, \<^verbatim>\<open>u32\<close>,
  \<^verbatim>\<open>u64\<close> and \<^verbatim>\<open>usize\<close> values natural numbers; where an operation of the source can leave the
  width of its type, the wrap-around or the saturation is written out. A Rust \<^verbatim>\<open>str\<close> is the list
  of its UTF-8 bytes. A fixed-size array is a list together with a length invariant.
\<close>

named_theorems state_defs \<open>raw discriminants and their normalisation\<close>
named_theorems inv_intros \<open>operations keep the invariant of their component\<close>
named_theorems view_simps \<open>effect of an operation on the abstract view of its component\<close>

section \<open>Machine types\<close>

type_synonym byte = "8 word"
type_synonym rust_str = "byte list"
type_synonym timestamp = int
type_synonym username = "byte list"

definition I64_MAX :: int where "I64_MAX = 2 ^ 63 - 1"
definition I64_MIN :: int where "I64_MIN = - (2 ^ 63)"
definition U64_MAX :: nat where "U64_MAX = 2 ^ 64 - 1"
definition U32_MAX :: nat where "U32_MAX = 2 ^ 32 - 1"
definition I32_MAX :: int where "I32_MAX = 2 ^ 31 - 1"

definition is_i64 :: "int \<Rightarrow> bool" where
  "is_i64 x \<longleftrightarrow> I64_MIN \<le> x \<and> x \<le> I64_MAX"

lemmas width_defs = I64_MAX_def I64_MIN_def U64_MAX_def U32_MAX_def I32_MAX_def

text \<open>Two's complement wrap-around of a 64-bit result, and the saturating operations.\<close>

definition wrap_i64 :: "int \<Rightarrow> int" where
  "wrap_i64 x = (x + 2 ^ 63) mod 2 ^ 64 - 2 ^ 63"

definition saturating_i64 :: "int \<Rightarrow> int" where
  "saturating_i64 x = max I64_MIN (min I64_MAX x)"

definition saturating_inc_u64 :: "nat \<Rightarrow> nat" where
  "saturating_inc_u64 n = min (n + 1) U64_MAX"

definition saturating_inc_u32 :: "nat \<Rightarrow> nat" where
  "saturating_inc_u32 n = min (n + 1) U32_MAX"

lemma wrap_i64_id: "is_i64 x \<Longrightarrow> wrap_i64 x = x"
  by (simp add: wrap_i64_def is_i64_def width_defs)

lemma wrap_i64_range: "is_i64 (wrap_i64 x)"
proof -
  have "0 \<le> (x + 2 ^ 63) mod 2 ^ 64" and "(x + 2 ^ 63) mod 2 ^ 64 < (2::int) ^ 64"
    by simp_all
  then show ?thesis by (simp add: wrap_i64_def is_i64_def width_defs)
qed

lemma saturating_i64_range: "is_i64 (saturating_i64 x)"
  by (auto simp: saturating_i64_def is_i64_def width_defs)

lemma saturating_i64_id: "is_i64 x \<Longrightarrow> saturating_i64 x = x"
  by (auto simp: saturating_i64_def is_i64_def)

lemma saturating_inc_u64_le [simp]: "saturating_inc_u64 n \<le> U64_MAX"
  by (simp add: saturating_inc_u64_def)

lemma saturating_inc_u64_less: "n < U64_MAX \<Longrightarrow> saturating_inc_u64 n = n + 1"
  by (simp add: saturating_inc_u64_def)

lemma saturating_inc_u64_ge: "n \<le> U64_MAX \<Longrightarrow> n \<le> saturating_inc_u64 n"
  by (simp add: saturating_inc_u64_def)

section \<open>Constants of the extension\<close>

definition LOCK_CACHE_SIZE :: nat where "LOCK_CACHE_SIZE = 2048"
definition EXPIRY_CACHE_SIZE :: nat where "EXPIRY_CACHE_SIZE = 2048"
definition BYPASS_CACHE_SIZE :: nat where "BYPASS_CACHE_SIZE = 1024"
definition LOCK_USERNAME_BYTES :: nat where "LOCK_USERNAME_BYTES = 64"
definition MICROS_PER_SEC :: int where "MICROS_PER_SEC = 1000000"
definition AUTH_EVENT_RING_SIZE :: nat where "AUTH_EVENT_RING_SIZE = 1024"

lemma LOCK_USERNAME_BYTES_pos [simp]: "0 < LOCK_USERNAME_BYTES"
  by (simp add: LOCK_USERNAME_BYTES_def)

section \<open>First matching slot\<close>

text \<open>
  \<^verbatim>\<open>entries.iter_mut().find(p)\<close> followed by an update of the entry found: \<open>None\<close> when no entry
  matches, the array with exactly the first matching entry changed otherwise.
\<close>

fun update_first :: "('a \<Rightarrow> bool) \<Rightarrow> ('a \<Rightarrow> 'a) \<Rightarrow> 'a list \<Rightarrow> 'a list option" where
  "update_first p f [] = None"
| "update_first p f (x # xs) =
     (if p x then Some (f x # xs) else map_option ((#) x) (update_first p f xs))"

lemma update_first_None_iff: "update_first p f xs = None \<longleftrightarrow> (\<forall>x \<in> set xs. \<not> p x)"
  by (induction xs) auto

lemma update_first_None_find: "update_first p f xs = None \<longleftrightarrow> List.find p xs = None"
  by (auto simp: update_first_None_iff find_None_iff)

lemma update_first_find_Some: "List.find p xs = Some e \<Longrightarrow> \<exists>ys. update_first p f xs = Some ys"
  by (induction xs) auto

lemma update_first_Some_find: "update_first p f xs = Some ys \<Longrightarrow> \<exists>e. List.find p xs = Some e"
  by (induction xs arbitrary: ys) auto

lemma update_first_length: "update_first p f xs = Some ys \<Longrightarrow> length ys = length xs"
  by (induction xs arbitrary: ys) (auto split: if_splits)

lemma update_first_split:
  assumes "update_first p f xs = Some ys"
  obtains as x bs where "xs = as @ x # bs" "ys = as @ f x # bs" "p x" "\<forall>a \<in> set as. \<not> p a"
  using assms
proof (induction xs arbitrary: ys thesis)
  case Nil
  then show ?case by simp
next
  case (Cons z zs)
  show ?case
  proof (cases "p z")
    case True
    with Cons.prems(2) have "ys = f z # zs" by simp
    with True show ?thesis by (intro Cons.prems(1) [of "[]" z zs]) auto
  next
    case False
    with Cons.prems(2) obtain ys' where ys: "update_first p f zs = Some ys'" "ys = z # ys'"
      by auto
    from ys(1) obtain as x bs where
      "zs = as @ x # bs" "ys' = as @ f x # bs" "p x" "\<forall>a \<in> set as. \<not> p a"
      by (rule Cons.IH [rotated])
    with False ys(2) show ?thesis by (intro Cons.prems(1) [of "z # as" x bs]) auto
  qed
qed

lemma update_first_replicate:
  "update_first p f (replicate n x) =
     (if n = 0 \<or> \<not> p x then None else Some (f x # replicate (n - 1) x))"
  by (induction n) auto

text \<open>The first match of a list split around a position, where nothing before it matches.\<close>

lemma find_append_Cons:
  "(\<forall>a \<in> set as. \<not> p a) \<Longrightarrow> List.find p (as @ x # bs) = (if p x then Some x else List.find p bs)"
  by (induction as) auto

lemma find_SomeD: "List.find p xs = Some x \<Longrightarrow> x \<in> set xs \<and> p x"
  by (induction xs) (auto split: if_splits)

lemma find_append:
  "List.find p (as @ bs) = (case List.find p as of None \<Rightarrow> List.find p bs | Some a \<Rightarrow> Some a)"
  by (induction as) auto

section \<open>Username buffers\<close>

text \<open>
  \<^verbatim>\<open>encode_username\<close>: at most \<^verbatim>\<open>LOCK_USERNAME_BYTES - 1\<close> bytes of the name, NUL padded to the
  fixed size. A buffer whose first byte is NUL is a free slot.
\<close>

definition encode_username :: "username \<Rightarrow> byte list" where
  "encode_username u =
     (let len = min (length u) (LOCK_USERNAME_BYTES - 1)
      in take len u @ replicate (LOCK_USERNAME_BYTES - len) 0)"

definition EMPTY_USERNAME :: "byte list" where
  "EMPTY_USERNAME = replicate LOCK_USERNAME_BYTES 0"

definition slot_used :: "byte list \<Rightarrow> bool" where
  "slot_used buf \<longleftrightarrow> buf ! 0 \<noteq> 0"

text \<open>A role name the buffers represent exactly: PostgreSQL names have 1 to 63 bytes and no NUL.\<close>

definition representable :: "username \<Rightarrow> bool" where
  "representable u \<longleftrightarrow> u \<noteq> [] \<and> length u < LOCK_USERNAME_BYTES \<and> 0 \<notin> set u"

lemma encode_username_length [simp]: "length (encode_username u) = LOCK_USERNAME_BYTES"
  by (simp add: encode_username_def Let_def LOCK_USERNAME_BYTES_def)

lemma EMPTY_USERNAME_length [simp]: "length EMPTY_USERNAME = LOCK_USERNAME_BYTES"
  by (simp add: EMPTY_USERNAME_def)

lemma EMPTY_USERNAME_free [simp]: "\<not> slot_used EMPTY_USERNAME"
  by (simp add: slot_used_def EMPTY_USERNAME_def)

lemma encode_representable:
  "representable u \<Longrightarrow> encode_username u = u @ replicate (LOCK_USERNAME_BYTES - length u) 0"
  by (auto simp: encode_username_def Let_def representable_def min_def LOCK_USERNAME_BYTES_def)

lemma encode_used: "representable u \<Longrightarrow> slot_used (encode_username u)"
proof -
  assume u: "representable u"
  then have "u \<noteq> []" and "0 \<notin> set u" unfolding representable_def by blast+
  then obtain b bs where "u = b # bs" and "b \<noteq> 0" by (cases u) auto
  then show ?thesis unfolding encode_representable [OF u] slot_used_def by simp
qed

lemma takeWhile_encode:
  "representable u \<Longrightarrow> takeWhile (\<lambda>b. b \<noteq> 0) (encode_username u) = u"
proof -
  assume u: "representable u"
  then have "b \<noteq> 0" if "b \<in> set u" for b using that unfolding representable_def by blast
  then have "takeWhile (\<lambda>b. b \<noteq> 0) (u @ replicate n 0) = u" for n
    by (simp add: takeWhile_append2)
  then show ?thesis unfolding encode_representable [OF u] .
qed

text \<open>Distinct representable names never share a slot.\<close>

lemma encode_username_inj:
  assumes "representable u" and "representable v" and "encode_username u = encode_username v"
  shows "u = v"
  using takeWhile_encode [OF assms(1)] takeWhile_encode [OF assms(2)] unfolding assms(3) by (rule trans [OF sym])

section \<open>UTF-8 validation\<close>

text \<open>
  \<^verbatim>\<open>std::str::from_utf8\<close> accepts exactly the well-formed UTF-8 sequences: no overlong forms, no
  surrogates, nothing above U+10FFFF.
\<close>

definition utf8_cont :: "byte \<Rightarrow> bool" where
  "utf8_cont b \<longleftrightarrow> 0x80 \<le> b \<and> b \<le> 0xBF"

fun utf8_valid :: "byte list \<Rightarrow> bool" where
  "utf8_valid [] = True"
| "utf8_valid (a # r) =
     (if a \<le> 0x7F then utf8_valid r
      else case r of
        [] \<Rightarrow> False
      | b # r1 \<Rightarrow>
          if 0xC2 \<le> a \<and> a \<le> 0xDF then utf8_cont b \<and> utf8_valid r1
          else case r1 of
            [] \<Rightarrow> False
          | c # r2 \<Rightarrow>
              if 0xE0 \<le> a \<and> a \<le> 0xEF
              then utf8_cont b \<and> utf8_cont c \<and> (a = 0xE0 \<longrightarrow> 0xA0 \<le> b) \<and> (a = 0xED \<longrightarrow> b \<le> 0x9F)
                   \<and> utf8_valid r2
              else case r2 of
                [] \<Rightarrow> False
              | d # r3 \<Rightarrow>
                  if 0xF0 \<le> a \<and> a \<le> 0xF4
                  then utf8_cont b \<and> utf8_cont c \<and> utf8_cont d \<and> (a = 0xF0 \<longrightarrow> 0x90 \<le> b)
                       \<and> (a = 0xF4 \<longrightarrow> b \<le> 0x8F) \<and> utf8_valid r3
                  else False)"

declare utf8_valid.simps(2) [simp del]

lemma utf8_valid_ascii: "\<forall>b \<in> set bs. b \<le> 0x7F \<Longrightarrow> utf8_valid bs"
  by (induction bs) (auto simp: utf8_valid.simps(2))

section \<open>Little-endian integers\<close>

text \<open>\<^verbatim>\<open>to_le_bytes\<close> and \<^verbatim>\<open>from_le_bytes\<close>, on an unsigned value of \<open>n\<close> bytes and on an \<^verbatim>\<open>i64\<close>.\<close>

fun le_bytes :: "nat \<Rightarrow> nat \<Rightarrow> byte list" where
  "le_bytes 0 x = []"
| "le_bytes (Suc n) x = word_of_nat (x mod 256) # le_bytes n (x div 256)"

fun from_le :: "byte list \<Rightarrow> nat" where
  "from_le [] = 0"
| "from_le (b # bs) = unat b + 256 * from_le bs"

definition i64_to_le_bytes :: "int \<Rightarrow> byte list" where
  "i64_to_le_bytes x = le_bytes 8 (nat (x mod 2 ^ 64))"

definition i64_from_le_bytes :: "byte list \<Rightarrow> int" where
  "i64_from_le_bytes bs = wrap_i64 (int (from_le bs))"

lemma length_le_bytes [simp]: "length (le_bytes n x) = n"
  by (induction n arbitrary: x) auto

lemma length_i64_to_le_bytes [simp]: "length (i64_to_le_bytes x) = 8"
  by (simp add: i64_to_le_bytes_def)

lemma unat_word_of_nat_byte: "unat (word_of_nat (x mod 256) :: byte) = x mod 256"
  by (simp add: unat_of_nat)

lemma from_le_le_bytes: "from_le (le_bytes n x) = x mod 256 ^ n"
proof (induction n arbitrary: x)
  case 0
  then show ?case by simp
next
  case (Suc n)
  have "from_le (le_bytes (Suc n) x) = x mod 256 + 256 * (x div 256 mod 256 ^ n)"
    using Suc.IH by (simp add: unat_word_of_nat_byte)
  also have "\<dots> = x mod 256 ^ Suc n"
    by (simp add: mod_mult2_eq)
  finally show ?case .
qed

lemma from_le_less: "from_le bs < 256 ^ length bs"
proof (induction bs)
  case Nil
  then show ?case by simp
next
  case (Cons b bs)
  have "unat b < 256" using unsigned_less [of b] by simp
  with Cons.IH show ?case by simp
qed

lemma le_bytes_from_le: "le_bytes (length bs) (from_le bs) = bs"
proof (induction bs)
  case Nil
  then show ?case by simp
next
  case (Cons b bs)
  have "unat b < 256" using unsigned_less [of b] by simp
  then have "(unat b + 256 * from_le bs) mod 256 = unat b"
    and "(unat b + 256 * from_le bs) div 256 = from_le bs" by simp_all
  with Cons.IH show ?case by simp
qed

lemma i64_le_bytes_roundtrip: "is_i64 x \<Longrightarrow> i64_from_le_bytes (i64_to_le_bytes x) = x"
proof -
  assume x: "is_i64 x"
  have "nat (x mod 2 ^ 64) < 256 ^ 8"
    by (simp add: nat_less_iff)
  then have "from_le (i64_to_le_bytes x) = nat (x mod 2 ^ 64)"
    by (simp add: i64_to_le_bytes_def from_le_le_bytes del: power_numeral)
  then have "i64_from_le_bytes (i64_to_le_bytes x) = wrap_i64 (x mod 2 ^ 64)"
    by (simp add: i64_from_le_bytes_def)
  also have "\<dots> = wrap_i64 x"
    by (simp add: wrap_i64_def mod_add_left_eq)
  finally show ?thesis using x by (simp add: wrap_i64_id)
qed

lemma i64_bytes_le_roundtrip:
  "length bs = 8 \<Longrightarrow> i64_to_le_bytes (i64_from_le_bytes bs) = bs"
proof -
  assume len: "length bs = 8"
  have less: "from_le bs < 2 ^ 64" using from_le_less [of bs] len by simp
  have "wrap_i64 (int (from_le bs)) mod 2 ^ 64 = int (from_le bs) mod 2 ^ 64"
    unfolding wrap_i64_def by (simp add: mod_diff_left_eq)
  with less have "nat (wrap_i64 (int (from_le bs)) mod 2 ^ 64) = from_le bs"
    by simp
  with len show ?thesis
    using le_bytes_from_le [of bs] by (simp add: i64_to_le_bytes_def i64_from_le_bytes_def)
qed

end
