(* ===== verification/Slot_Table.thy ===== *)
theory Slot_Table
  imports Prelude
begin

text \<open>
  The fixed-size tables the three shared caches are made of: slots keyed by an encoded username, free
  when the first byte of the key is NUL. The contract \<open>slot_table\<close> asks for a key function and an
  empty slot; from it follow the laws of lookup after update, insertion, removal and bulk loading that
  the caches share.
\<close>

section \<open>Bulk loading\<close>

text \<open>
  The loading loop of the hydrations: skipped entries take no slot, and loading stops when the table
  is full. Returns the table and the number of slots written.
\<close>

fun fill_slots :: "nat \<Rightarrow> ('p \<Rightarrow> bool) \<Rightarrow> ('p \<Rightarrow> 'e) \<Rightarrow> 'p list \<Rightarrow> nat \<Rightarrow> 'e list \<Rightarrow> 'e list \<times> nat" where
  "fill_slots n skip mk [] slot es = (es, slot)"
| "fill_slots n skip mk (p # ps) slot es =
     (if n \<le> slot then (es, slot)
      else if skip p then fill_slots n skip mk ps slot es
      else fill_slots n skip mk ps (slot + 1) (es[slot := mk p]))"

lemma fill_slots_append:
  "length done = slot \<Longrightarrow> slot + m = n \<Longrightarrow>
    fill_slots n skip mk ps slot (done @ replicate m e) =
      (let xs = take m (map mk (filter (\<lambda>p. \<not> skip p) ps))
       in (done @ xs @ replicate (m - length xs) e, slot + length xs))"
proof (induction ps arbitrary: slot "done" m)
  case (Cons p ps)
  show ?case
  proof (cases "skip p \<or> m = 0")
    case True
    then show ?thesis
    proof (cases "m = 0")
      case False
      with True have "skip p" by simp
      then show ?thesis using Cons.IH [OF Cons.prems] Cons.prems False by (simp add: Let_def)
    qed (use Cons.prems in simp)
  next
    case False
    then obtain k where k: "m = Suc k" by (cases m) auto
    have "(done @ replicate m e)[slot := mk p] = (done @ [mk p]) @ replicate k e"
      using Cons.prems(1) k by (simp add: list_update_append)
    then show ?thesis
      using False Cons.IH [of "done @ [mk p]" "slot + 1" k] Cons.prems k
      by (simp add: Let_def del: append_assoc)
  qed
qed (simp add: Let_def)

lemma fill_slots_empty:
  "fill_slots n skip mk ps 0 (replicate n e) =
     (let xs = take n (map mk (filter (\<lambda>p. \<not> skip p) ps))
      in (xs @ replicate (n - length xs) e, length xs))"
  using fill_slots_append [of "[]" 0 n n skip mk ps e] by simp

section \<open>Tables keyed by username\<close>

locale slot_table =
  fixes key :: "'e \<Rightarrow> byte list" and empty :: 'e
  assumes empty_free: "\<not> slot_used (key empty)"
begin

definition slot_for :: "byte list \<Rightarrow> 'e \<Rightarrow> bool" where
  "slot_for u e \<longleftrightarrow> slot_used (key e) \<and> key e = u"

definition table_ok :: "'e list \<Rightarrow> bool" where
  "table_ok es \<longleftrightarrow> distinct (map key (filter (\<lambda>e. slot_used (key e)) es))"

lemma table_ok_replicate [simp]: "table_ok (replicate n empty)"
  by (simp add: table_ok_def empty_free)

lemma table_ok_split:
  "table_ok (as @ x # bs) \<longleftrightarrow> table_ok (as @ bs)
     \<and> (slot_used (key x) \<longrightarrow> (\<forall>e \<in> set (as @ bs). \<not> slot_for (key x) e))"
proof -
  have d: "distinct (xs @ a # ys) \<longleftrightarrow> distinct (xs @ ys) \<and> a \<notin> set (xs @ ys)" for xs ys and a :: "byte list"
    by auto
  have "key x \<notin> set (map key (filter (\<lambda>e. slot_used (key e)) (as @ bs))) \<longleftrightarrow>
      (\<forall>e \<in> set (as @ bs). \<not> (slot_used (key e) \<and> key e = key x))"
    unfolding set_map set_filter by (auto simp: image_iff)
  then show ?thesis
    unfolding table_ok_def slot_for_def filter_append map_append by (auto simp: d)
qed

lemma find_iff:
  assumes "table_ok es"
  shows "List.find (slot_for u) es = Some e \<longleftrightarrow> e \<in> set es \<and> slot_for u e"
proof
  assume "List.find (slot_for u) es = Some e"
  then show "e \<in> set es \<and> slot_for u e" by (auto simp: find_Some_iff)
next
  assume e: "e \<in> set es \<and> slot_for u e"
  then obtain as bs where es: "es = as @ e # bs" by (meson split_list)
  have "\<forall>a \<in> set as. \<not> slot_for u a"
    using assms e unfolding es table_ok_split by (auto simp: slot_for_def)
  then show "List.find (slot_for u) es = Some e" using e es by (simp add: find_append_Cons)
qed

lemma find_None_iff_slot: "List.find (slot_for u) es = None \<longleftrightarrow> (\<forall>e \<in> set es. \<not> slot_for u e)"
  by (auto simp: find_None_iff)

text \<open>Refreshing the slot of a user.\<close>

lemma refresh:
  assumes "table_ok es" and "update_first (slot_for u) f es = Some es'"
    and "\<And>e. key (f e) = key e"
  shows "table_ok es'"
    and "List.find (slot_for v) es' =
      (if v = u then map_option f (List.find (slot_for u) es) else List.find (slot_for v) es)"
proof -
  from assms(2) obtain as x bs where
    s: "es = as @ x # bs" "es' = as @ f x # bs" "slot_for u x" "\<forall>a \<in> set as. \<not> slot_for u a"
    by (rule update_first_split)
  show "table_ok es'" using assms(1,3) s unfolding s table_ok_split by simp
  have "slot_for v (f x) \<longleftrightarrow> v = u" "slot_for v x \<longleftrightarrow> v = u" using s(3) assms(3) by (auto simp: slot_for_def)
  then show "List.find (slot_for v) es' =
      (if v = u then map_option f (List.find (slot_for u) es) else List.find (slot_for v) es)"
    using s find_None_iff_slot [of u as]
    by (cases "v = u") (simp_all add: find_append split: option.split)
qed

text \<open>Writing a new entry into a slot that holds nobody, or somebody no longer of interest.\<close>

text \<open>A search with a further condition finds the slot of the key, if that slot meets it.\<close>

lemma find_and:
  assumes "table_ok es"
  shows "List.find (\<lambda>e. slot_for u e \<and> q e) es =
    Option.bind (List.find (slot_for u) es) (\<lambda>e. if q e then Some e else None)"
proof (cases "List.find (slot_for u) es")
  case None
  then have "List.find (\<lambda>e. slot_for u e \<and> q e) es = None" unfolding find_None_iff by blast
  with None show ?thesis by simp
next
  case (Some e)
  have iff: "y \<in> set es \<and> slot_for u y \<longleftrightarrow> y = e" for y using find_iff [OF assms, of u y] Some by auto
  show ?thesis
  proof (cases "List.find (\<lambda>e. slot_for u e \<and> q e) es")
    case None
    then have "\<not> q e" using iff [of e] unfolding find_None_iff by blast
    with None Some show ?thesis by simp
  next
    case (Some y)
    then have "y \<in> set es" "slot_for u y" "q y" by (auto simp: find_Some_iff)
    with iff [of y] have "y = e" "q e" by blast+
    with Some \<open>List.find (slot_for u) es = Some e\<close> show ?thesis by simp
  qed
qed

lemma insert_slot:
  assumes "table_ok es" and "update_first p (\<lambda>_. e) es = Some es'"
    and "slot_used (key e)" and "\<forall>x \<in> set es. \<not> slot_for (key e) x"
  shows "table_ok es'"
    and "List.find (slot_for (key e)) es' = Some e"
    and "v \<noteq> key e \<Longrightarrow> List.find (slot_for v) es' = List.find (slot_for v) es
      \<or> (List.find (slot_for v) es' = None \<and> (\<exists>x \<in> set es. slot_for v x \<and> p x))"
proof -
  from assms(2) obtain as x bs where
    s: "es = as @ x # bs" "es' = as @ e # bs" "p x" "\<forall>a \<in> set as. \<not> p a"
    by (rule update_first_split)
  show ok: "table_ok es'" using assms(1,3,4) unfolding s table_ok_split by auto
  have "slot_for (key e) e" using assms(3) by (simp add: slot_for_def)
  then show "List.find (slot_for (key e)) es' = Some e" using find_iff [OF ok] s by simp
  assume v: "v \<noteq> key e"
  then have ne: "\<not> slot_for v e" by (simp add: slot_for_def)
  show "List.find (slot_for v) es' = List.find (slot_for v) es
      \<or> (List.find (slot_for v) es' = None \<and> (\<exists>x \<in> set es. slot_for v x \<and> p x))"
  proof (cases "slot_for v x")
    case True
    have "List.find (slot_for v) es' = None"
      using assms(1) True ne unfolding s find_None_iff_slot table_ok_split by (auto simp: slot_for_def)
    then show ?thesis using True s by auto
  next
    case False
    then show ?thesis using ne unfolding s by (simp add: find_append split: option.split)
  qed
qed

text \<open>Emptying the slot of a user.\<close>

lemma remove_slot:
  assumes "table_ok es" and "update_first (slot_for u) (\<lambda>_. empty) es = Some es'"
  shows "table_ok es'"
    and "List.find (slot_for v) es' = (if v = u then None else List.find (slot_for v) es)"
proof -
  from assms(2) obtain as x bs where
    s: "es = as @ x # bs" "es' = as @ empty # bs" "slot_for u x" "\<forall>a \<in> set as. \<not> slot_for u a"
    by (rule update_first_split)
  show "table_ok es'" using assms(1) empty_free unfolding s table_ok_split by simp
  have "\<not> slot_for w empty" for w using empty_free by (simp add: slot_for_def)
  moreover have "\<forall>b \<in> set bs. \<not> slot_for u b"
    using assms(1) s(3) unfolding s table_ok_split by (auto simp: slot_for_def)
  moreover have "slot_for v x \<longleftrightarrow> v = u" using s(3) by (auto simp: slot_for_def)
  ultimately show "List.find (slot_for v) es' = (if v = u then None else List.find (slot_for v) es)"
    using s(4) unfolding s by (auto simp: find_append find_None_iff_slot [symmetric] split: option.split)
qed

text \<open>A table loaded from prepared entries with distinct keys.\<close>

lemma loaded_table:
  assumes "distinct (map key xs)" and "\<forall>x \<in> set xs. slot_used (key x)"
  shows "table_ok (xs @ replicate n empty)"
    and "List.find (slot_for u) (xs @ replicate n empty) = List.find (\<lambda>e. key e = u) xs"
proof -
  have f: "filter (\<lambda>e. slot_used (key e)) xs = xs" using assms(2) by simp
  show "table_ok (xs @ replicate n empty)"
    using assms(1) by (simp add: table_ok_def f empty_free)
  have "List.find (slot_for u) (replicate n empty) = None"
    by (auto simp: find_None_iff slot_for_def empty_free)
  moreover have "List.find (slot_for u) xs = List.find (\<lambda>e. key e = u) xs"
    using assms(2) by (induction xs) (auto simp: slot_for_def)
  ultimately show "List.find (slot_for u) (xs @ replicate n empty) = List.find (\<lambda>e. key e = u) xs"
    by (simp add: find_append split: option.split)
qed

end

end
