(* ===== verification/Lock_Cache.thy ===== *)
theory Lock_Cache
  imports Slot_Table
begin

text \<open>
  The shared lock cache of \<^verbatim>\<open>lock_cache.rs\<close>: which users are locked and until when. The cache pointer
  and its lock are \<open>None\<close> while shared memory is not initialised; the clock is an argument.
\<close>

section \<open>Data\<close>

record LockEntry =
  lk_username :: "byte list"
  lk_expires_at :: timestamp

definition LockEntry_new :: LockEntry where
  "LockEntry_new = \<lparr>lk_username = EMPTY_USERNAME, lk_expires_at = 0\<rparr>"

record LockCache =
  lc_entries :: "LockEntry list"
  lc_hydration_active_total :: int
  lc_hydration_loaded :: int
  lc_hydration_overflow :: int
  lc_state :: int

datatype CacheState = NotReady | Ready | Overflow | WorkerFailed

fun cache_state_raw :: "CacheState \<Rightarrow> int" where
  "cache_state_raw NotReady = 0"
| "cache_state_raw Ready = 1"
| "cache_state_raw Overflow = 2"
| "cache_state_raw WorkerFailed = 3"

definition cache_state_from_raw :: "int \<Rightarrow> CacheState" where
  "cache_state_from_raw raw =
     (if raw = 1 then Ready else if raw = 2 then Overflow else if raw = 3 then WorkerFailed
      else NotReady)"

datatype CacheOpStatus = Applied | OpOverflowed

datatype CacheDecision = SetLock timestamp | ClearLock

section \<open>Operations\<close>

definition lock_state :: "LockCache option \<Rightarrow> CacheState" where
  "lock_state c = (case c of None \<Rightarrow> NotReady | Some cache \<Rightarrow> cache_state_from_raw (lc_state cache))"

definition lock_set_state :: "CacheState \<Rightarrow> LockCache option \<Rightarrow> LockCache option" where
  "lock_set_state new_state c = map_option (\<lambda>cache. cache\<lparr>lc_state := cache_state_raw new_state\<rparr>) c"

definition decision_for :: "timestamp option \<Rightarrow> timestamp \<Rightarrow> CacheDecision" where
  "decision_for lockout_until now =
     (case lockout_until of
        Some expires_at \<Rightarrow> if now < expires_at then SetLock expires_at else ClearLock
      | None \<Rightarrow> ClearLock)"

definition lock_cache_new :: LockCache where
  "lock_cache_new = \<lparr>lc_entries = replicate LOCK_CACHE_SIZE LockEntry_new,
     lc_hydration_active_total = 0, lc_hydration_loaded = 0, lc_hydration_overflow = 0,
     lc_state = cache_state_raw NotReady\<rparr>"

text \<open>\<^verbatim>\<open>init\<close>: \<open>existing\<close> is the content of an already allocated segment.\<close>

definition lock_init :: "LockCache option \<Rightarrow> LockCache option \<Rightarrow> LockCache option" where
  "lock_init existing c =
     (case c of
        Some cache \<Rightarrow> Some cache
      | None \<Rightarrow> Some (case existing of None \<Rightarrow> lock_cache_new | Some cache \<Rightarrow> cache))"

definition lock_set :: "timestamp \<Rightarrow> byte list \<Rightarrow> timestamp \<Rightarrow> LockCache option
    \<Rightarrow> LockCache option \<times> CacheOpStatus" where
  "lock_set now username_bytes expires_at c =
     (case c of
        None \<Rightarrow> (c, OpOverflowed)
      | Some cache \<Rightarrow>
          if expires_at \<le> now then (c, Applied)
          else if \<not> slot_used username_bytes then (c, Applied)
          else case update_first (\<lambda>e. slot_used (lk_username e) \<and> lk_username e = username_bytes)
                 (\<lambda>e. e\<lparr>lk_expires_at := expires_at\<rparr>) (lc_entries cache) of
            Some es \<Rightarrow> (Some (cache\<lparr>lc_entries := es\<rparr>), Applied)
          | None \<Rightarrow>
              (case update_first (\<lambda>e. \<not> slot_used (lk_username e) \<or> lk_expires_at e \<le> now)
                 (\<lambda>_. \<lparr>lk_username = username_bytes, lk_expires_at = expires_at\<rparr>) (lc_entries cache) of
                 Some es \<Rightarrow> (Some (cache\<lparr>lc_entries := es\<rparr>), Applied)
               | None \<Rightarrow> (Some (cache\<lparr>lc_state := cache_state_raw Overflow\<rparr>), OpOverflowed)))"

definition lock_clear :: "byte list \<Rightarrow> LockCache option \<Rightarrow> LockCache option \<times> CacheOpStatus" where
  "lock_clear username_bytes c =
     (case c of
        None \<Rightarrow> (c, Applied)
      | Some cache \<Rightarrow>
          (case update_first (\<lambda>e. slot_used (lk_username e) \<and> lk_username e = username_bytes)
                  (\<lambda>_. LockEntry_new) (lc_entries cache) of
             None \<Rightarrow> (c, Applied)
           | Some es \<Rightarrow> (Some (cache\<lparr>lc_entries := es\<rparr>), Applied)))"

text \<open>The subtraction is on \<^verbatim>\<open>i64\<close> and wraps; Rust's division truncates.\<close>

definition remaining_seconds_ceil :: "timestamp \<Rightarrow> timestamp \<Rightarrow> int option" where
  "remaining_seconds_ceil expires_at now =
     (if expires_at \<le> now then None
      else
        let delta = wrap_i64 (expires_at - now);
            whole = sgn delta * (\<bar>delta\<bar> div MICROS_PER_SEC);
            rest = delta - whole * MICROS_PER_SEC;
            secs = (if rest \<noteq> 0 then saturating_i64 (whole + 1) else whole)
        in Some (max secs 1))"

definition remaining_seconds :: "timestamp \<Rightarrow> username \<Rightarrow> LockCache option \<Rightarrow> int option" where
  "remaining_seconds now username c =
     (case c of
        None \<Rightarrow> None
      | Some cache \<Rightarrow>
          let encoded = encode_username username;
              found = List.find (\<lambda>e. slot_used (lk_username e) \<and> lk_username e = encoded
                                     \<and> now < lk_expires_at e) (lc_entries cache)
          in Option.bind (map_option lk_expires_at found) (\<lambda>ts. remaining_seconds_ceil ts now))"

text \<open>A prepared entry of a hydration, and the replacement of the whole cache by prepared entries.\<close>

type_synonym PreparedLockEntry = "byte list \<times> timestamp"

definition apply_hydrated_entries ::
  "timestamp \<Rightarrow> PreparedLockEntry list \<Rightarrow> int \<Rightarrow> int \<Rightarrow> CacheState \<Rightarrow> LockCache \<Rightarrow> LockCache \<times> int" where
  "apply_hydrated_entries now prepared active_total overflow new_state cache =
     (let cleared = map (\<lambda>_. LockEntry_new) (lc_entries cache);
          (es, loaded) = fill_slots LOCK_CACHE_SIZE
            (\<lambda>(u, x). \<not> slot_used u \<or> decision_for (Some x) now = ClearLock)
            (\<lambda>(u, x). \<lparr>lk_username = u, lk_expires_at = x\<rparr>) prepared 0 cleared
      in (cache\<lparr>lc_entries := es, lc_hydration_active_total := active_total,
                lc_hydration_loaded := int loaded, lc_hydration_overflow := overflow,
                lc_state := cache_state_raw new_state\<rparr>, int loaded))"

section \<open>Invariant and view\<close>

definition lock_inv :: "LockCache \<Rightarrow> bool" where
  "lock_inv cache \<longleftrightarrow> length (lc_entries cache) = LOCK_CACHE_SIZE
     \<and> distinct (map lk_username (filter (\<lambda>e. slot_used (lk_username e)) (lc_entries cache)))"

text \<open>The lockout in force for a user at a moment.\<close>

definition lock_view :: "timestamp \<Rightarrow> LockCache \<Rightarrow> byte list \<Rightarrow> timestamp option" where
  "lock_view now cache u =
     (case List.find (\<lambda>e. slot_used (lk_username e) \<and> lk_username e = u) (lc_entries cache) of
        None \<Rightarrow> None
      | Some e \<Rightarrow> if now < lk_expires_at e then Some (lk_expires_at e) else None)"

interpretation lock_table: slot_table lk_username LockEntry_new
  by unfold_locales (simp add: LockEntry_new_def)

lemma lock_slot_for: "lock_table.slot_for u = (\<lambda>e. slot_used (lk_username e) \<and> lk_username e = u)"
  by (simp add: fun_eq_iff lock_table.slot_for_def)

lemma lock_inv_ok: "lock_inv cache \<longleftrightarrow>
    length (lc_entries cache) = LOCK_CACHE_SIZE \<and> lock_table.table_ok (lc_entries cache)"
  by (simp add: lock_inv_def lock_table.table_ok_def)

lemma lock_view_find: "lock_view now cache u =
    Option.bind (List.find (lock_table.slot_for u) (lc_entries cache))
      (\<lambda>e. if now < lk_expires_at e then Some (lk_expires_at e) else None)"
  by (simp add: lock_view_def lock_slot_for split: option.split)

lemma lock_cache_new_inv [inv_intros]: "lock_inv lock_cache_new"
  unfolding lock_inv_ok by (simp add: lock_cache_new_def)

lemma lock_cache_new_view: "lock_view now lock_cache_new u = None"
proof -
  have "List.find (lock_table.slot_for u) (replicate n LockEntry_new) = None" for n
    by (auto simp: find_None_iff lock_slot_for LockEntry_new_def)
  then show ?thesis by (simp add: lock_view_find lock_cache_new_def)
qed

lemma cache_state_roundtrip [simp]: "cache_state_from_raw (cache_state_raw s) = s"
  by (cases s) (simp_all add: cache_state_from_raw_def)

lemma cache_state_from_raw_values [simp]:
  "cache_state_from_raw 0 = NotReady" "cache_state_from_raw 1 = Ready"
  "cache_state_from_raw 2 = Overflow" "cache_state_from_raw 3 = WorkerFailed"
  by (simp_all add: cache_state_from_raw_def)

lemma lock_inv_state [simp]: "lock_inv (cache\<lparr>lc_state := x\<rparr>) = lock_inv cache"
  by (simp add: lock_inv_def)

lemma lock_view_state [simp]: "lock_view now (cache\<lparr>lc_state := x\<rparr>) = lock_view now cache"
  by (simp add: fun_eq_iff lock_view_def)

section \<open>Lookup after every operation\<close>

text \<open>A new entry in a free or expired slot changes the view of no other user.\<close>

lemma lock_insert_view:
  assumes "lock_inv cache" and "slot_used u"
    and none: "\<forall>e \<in> set (lc_entries cache). \<not> lock_table.slot_for u e"
    and es: "update_first (\<lambda>e. \<not> slot_used (lk_username e) \<or> lk_expires_at e \<le> now)
      (\<lambda>_. \<lparr>lk_username = u, lk_expires_at = x\<rparr>) (lc_entries cache) = Some es"
  shows "lock_inv (cache\<lparr>lc_entries := es\<rparr>)"
    and "now \<le> t \<Longrightarrow> lock_view t (cache\<lparr>lc_entries := es\<rparr>) = (lock_view t cache)(u := if t < x then Some x else None)"
proof -
  let ?p = "\<lambda>e. \<not> slot_used (lk_username e) \<or> lk_expires_at e \<le> now"
  have ok: "lock_table.table_ok (lc_entries cache)" and len: "length es = LOCK_CACHE_SIZE"
    using assms(1) update_first_length [OF es] by (simp_all add: lock_inv_ok)
  note i = lock_table.insert_slot [OF ok es, simplified, OF assms(2) none]
  show "lock_inv (cache\<lparr>lc_entries := es\<rparr>)" using i(1) len by (simp add: lock_inv_ok)
  have other: "lock_view t (cache\<lparr>lc_entries := es\<rparr>) v = lock_view t cache v" if vu: "v \<noteq> u" and nt: "now \<le> t" for v
  proof (cases "List.find (lock_table.slot_for v) es = List.find (lock_table.slot_for v) (lc_entries cache)")
    case False
    then obtain y where y: "List.find (lock_table.slot_for v) es = None" "y \<in> set (lc_entries cache)"
      "lock_table.slot_for v y" "?p y" using i(3) [OF vu] by fastforce
    then have "List.find (lock_table.slot_for v) (lc_entries cache) = Some y" "\<not> t < lk_expires_at y"
      using lock_table.find_iff [OF ok] nt by (auto simp: lock_table.slot_for_def)
    then show ?thesis using y(1) by (simp add: lock_view_find)
  qed (simp add: lock_view_find)
  show "now \<le> t \<Longrightarrow> lock_view t (cache\<lparr>lc_entries := es\<rparr>) = (lock_view t cache)(u := if t < x then Some x else None)"
    using other i(2) by (auto simp: fun_eq_iff lock_view_find)
qed

lemma lock_set_applied:
  assumes "lock_inv cache" and "now < x" and "slot_used u"
    and "lock_set now u x (Some cache) = (c, Applied)"
  shows "\<exists>cache'. c = Some cache' \<and> lock_inv cache' \<and> lc_state cache' = lc_state cache
    \<and> (\<forall>t \<ge> now. lock_view t cache' = (lock_view t cache)(u := if t < x then Some x else None))"
proof (cases "update_first (lock_table.slot_for u) (\<lambda>e. e\<lparr>lk_expires_at := x\<rparr>) (lc_entries cache)")
  case (Some es)
  have ok: "lock_table.table_ok (lc_entries cache)" and len: "length es = LOCK_CACHE_SIZE"
    using assms(1) update_first_length [OF Some] by (simp_all add: lock_inv_ok)
  note r = lock_table.refresh [OF ok Some]
  have c: "c = Some (cache\<lparr>lc_entries := es\<rparr>)"
    using assms(2-4) Some by (simp add: lock_set_def lock_slot_for)
  obtain e where e: "List.find (lock_table.slot_for u) (lc_entries cache) = Some e"
    using update_first_Some_find [OF Some] by blast
  show ?thesis
    using c r len e by (auto simp: lock_inv_ok lock_view_find fun_eq_iff)
next
  case None
  then have none: "\<forall>e \<in> set (lc_entries cache). \<not> lock_table.slot_for u e"
    by (simp add: update_first_None_iff)
  obtain es where es: "update_first (\<lambda>e. \<not> slot_used (lk_username e) \<or> lk_expires_at e \<le> now)
      (\<lambda>_. \<lparr>lk_username = u, lk_expires_at = x\<rparr>) (lc_entries cache) = Some es"
    and c: "c = Some (cache\<lparr>lc_entries := es\<rparr>)"
    using assms(2-4) None by (auto simp: lock_set_def lock_slot_for split: option.splits)
  show ?thesis using c lock_insert_view [OF assms(1,3) none es] by auto
qed

lemma lock_set_overflowed:
  assumes "lock_set now u x (Some cache) = (c, OpOverflowed)"
  shows "c = Some (cache\<lparr>lc_state := cache_state_raw Overflow\<rparr>)"
    and "\<forall>e \<in> set (lc_entries cache). slot_used (lk_username e) \<and> now < lk_expires_at e
      \<and> lk_username e \<noteq> u"
  using assms
  by (auto simp: lock_set_def update_first_None_iff split: if_splits option.splits)

lemma lock_clear_view:
  assumes "lock_inv cache" and "lock_clear u (Some cache) = (c, st)"
  shows "\<exists>cache'. c = Some cache' \<and> lock_inv cache' \<and> lc_state cache' = lc_state cache
    \<and> (\<forall>t. lock_view t cache' = (lock_view t cache)(u := None)) \<and> st = Applied"
proof (cases "update_first (lock_table.slot_for u) (\<lambda>_. LockEntry_new) (lc_entries cache)")
  case None
  then have "List.find (lock_table.slot_for u) (lc_entries cache) = None"
    by (auto simp: update_first_None_iff find_None_iff)
  then have "lock_view t cache u = None" for t by (simp add: lock_view_find)
  moreover have "c = Some cache" "st = Applied"
    using assms(2) None by (simp_all add: lock_clear_def lock_slot_for)
  ultimately show ?thesis using assms(1) by (auto simp: fun_eq_iff)
next
  case (Some es)
  have ok: "lock_table.table_ok (lc_entries cache)" and len: "length es = LOCK_CACHE_SIZE"
    using assms(1) update_first_length [OF Some] by (simp_all add: lock_inv_ok)
  have "c = Some (cache\<lparr>lc_entries := es\<rparr>)" "st = Applied"
    using assms(2) Some by (simp_all add: lock_clear_def lock_slot_for)
  then show ?thesis
    using lock_table.remove_slot [OF ok Some] len by (auto simp: lock_inv_ok lock_view_find fun_eq_iff)
qed

lemma remaining_seconds_view:
  assumes "lock_inv cache"
  shows "remaining_seconds now username (Some cache) =
    Option.bind (lock_view now cache (encode_username username)) (\<lambda>ts. remaining_seconds_ceil ts now)"
proof -
  let ?u = "encode_username username"
  have ok: "lock_table.table_ok (lc_entries cache)" using assms by (simp add: lock_inv_ok)
  show ?thesis
    using lock_table.find_and [OF ok, of ?u "\<lambda>e. now < lk_expires_at e"]
    by (cases "List.find (lock_table.slot_for ?u) (lc_entries cache)")
      (simp_all add: remaining_seconds_def Let_def lock_view_find lock_slot_for)
qed

section \<open>Loading the cache\<close>

lemma map_const_replicate: "map (\<lambda>_. x) ys = replicate (length ys) x"
  by (induction ys) simp_all

lemma decision_for_ClearLock: "decision_for (Some x) now = ClearLock \<longleftrightarrow> x \<le> now"
  by (simp add: decision_for_def)

definition live_prepared :: "timestamp \<Rightarrow> PreparedLockEntry list \<Rightarrow> PreparedLockEntry list" where
  "live_prepared now prepared = filter (\<lambda>(u, x). slot_used u \<and> now < x) prepared"

lemma apply_hydrated_entries_eq:
  assumes "length (lc_entries cache) = LOCK_CACHE_SIZE"
    and "length (live_prepared now prepared) \<le> LOCK_CACHE_SIZE"
  shows "lc_entries (fst (apply_hydrated_entries now prepared ttl over st cache)) =
      map (\<lambda>(u, x). \<lparr>lk_username = u, lk_expires_at = x\<rparr>) (live_prepared now prepared)
      @ replicate (LOCK_CACHE_SIZE - length (live_prepared now prepared)) LockEntry_new"
    and "snd (apply_hydrated_entries now prepared ttl over st cache) =
      int (length (live_prepared now prepared))"
    and "lc_state (fst (apply_hydrated_entries now prepared ttl over st cache)) = cache_state_raw st"
proof -
  have f: "filter (\<lambda>p. \<not> (case p of (u, x) \<Rightarrow> \<not> slot_used u \<or> decision_for (Some x) now = ClearLock)) prepared
      = live_prepared now prepared"
    unfolding live_prepared_def by (rule filter_cong) (auto simp: decision_for_ClearLock)
  show "lc_entries (fst (apply_hydrated_entries now prepared ttl over st cache)) =
      map (\<lambda>(u, x). \<lparr>lk_username = u, lk_expires_at = x\<rparr>) (live_prepared now prepared)
      @ replicate (LOCK_CACHE_SIZE - length (live_prepared now prepared)) LockEntry_new"
    and "snd (apply_hydrated_entries now prepared ttl over st cache) =
      int (length (live_prepared now prepared))"
    and "lc_state (fst (apply_hydrated_entries now prepared ttl over st cache)) = cache_state_raw st"
    using assms(2)
    unfolding apply_hydrated_entries_def map_const_replicate assms(1) fill_slots_empty f Let_def
    by simp_all
qed

lemma apply_hydrated_entries_view:
  assumes "length (lc_entries cache) = LOCK_CACHE_SIZE"
    and "distinct (map fst prepared)" and "length prepared \<le> LOCK_CACHE_SIZE" and "now \<le> t"
  shows "lock_inv (fst (apply_hydrated_entries now prepared ttl over st cache))"
    and "lock_view t (fst (apply_hydrated_entries now prepared ttl over st cache)) u =
      (if slot_used u then Option.bind (map_of prepared u) (\<lambda>x. if t < x then Some x else None)
       else None)"
proof -
  let ?live = "live_prepared now prepared"
  let ?mk = "\<lambda>(u, x). \<lparr>lk_username = u, lk_expires_at = x\<rparr> :: LockEntry"
  have le: "length ?live \<le> LOCK_CACHE_SIZE"
    using assms(3) length_filter_le le_trans unfolding live_prepared_def by blast
  note eq = apply_hydrated_entries_eq [OF assms(1) le]
  have keys: "map lk_username (map ?mk ?live) = map fst ?live" by auto
  have "map fst ?live = map fst (filter (\<lambda>p. slot_used (fst p) \<and> now < snd p) prepared)"
    unfolding live_prepared_def by (intro arg_cong [of _ _ "map fst"] filter_cong) auto
  then have dist: "distinct (map lk_username (map ?mk ?live))"
    using assms(2) unfolding keys by (simp add: distinct_map_filter)
  have used: "\<forall>x \<in> set (map ?mk ?live). slot_used (lk_username x)"
    by (auto simp: live_prepared_def)
  note t = lock_table.loaded_table [OF dist used]
  show "lock_inv (fst (apply_hydrated_entries now prepared ttl over st cache))"
    unfolding lock_inv_ok eq(1) using t(1) le by simp
  have find: "List.find (\<lambda>e. lk_username e = u) (map ?mk xs) = map_option ((\<lambda>x. \<lparr>lk_username = u, lk_expires_at = x\<rparr>)) (map_of xs u)" for xs
    by (induction xs) auto
  have live: "map_of ?live u = Option.bind (map_of prepared u) (\<lambda>x. if slot_used u \<and> now < x then Some x else None)"
    using assms(2) unfolding live_prepared_def
    by (induction prepared) (auto simp: bind_eq_None_conv map_of_eq_None_iff image_iff split: option.split)
  show "lock_view t (fst (apply_hydrated_entries now prepared ttl over st cache)) u =
      (if slot_used u then Option.bind (map_of prepared u) (\<lambda>x. if t < x then Some x else None)
       else None)"
    unfolding lock_view_find eq(1) t(2) find live using assms(4)
    by (cases "map_of prepared u") auto
qed

section \<open>Remaining seconds\<close>

lemma remaining_seconds_ceil_bounds:
  assumes "0 \<le> now" and "is_i64 x" and "now < x"
  shows "\<exists>s \<ge> 1. remaining_seconds_ceil x now = Some s
    \<and> (s - 1) * MICROS_PER_SEC < x - now \<and> x - now \<le> s * MICROS_PER_SEC"
proof -
  define d where "d = x - now"
  have d: "0 < d" "is_i64 d" using assms by (auto simp: d_def is_i64_def width_defs)
  have wrap: "wrap_i64 (x - now) = d" using d wrap_i64_id unfolding d_def by simp
  let ?q = "d div MICROS_PER_SEC"
  have q0: "0 \<le> ?q" using d by (simp add: MICROS_PER_SEC_def pos_imp_zdiv_nonneg_iff)
  have small: "is_i64 (?q + 1)" using d by (simp add: is_i64_def width_defs MICROS_PER_SEC_def)
  have dm: "d = ?q * MICROS_PER_SEC + d mod MICROS_PER_SEC"
    "0 \<le> d mod MICROS_PER_SEC" "d mod MICROS_PER_SEC < MICROS_PER_SEC"
    by (simp_all add: MICROS_PER_SEC_def)
  have r: "remaining_seconds_ceil x now =
      Some (max (if d mod MICROS_PER_SEC \<noteq> 0 then ?q + 1 else ?q) 1)"
    using assms(3) d saturating_i64_id [OF small] dm(1)
    unfolding remaining_seconds_ceil_def wrap Let_def by (simp add: minus_div_mult_eq_mod)
  show ?thesis
  proof (cases "d mod MICROS_PER_SEC = 0")
    case True
    then have "1 \<le> ?q" using d(1) dm(1) q0 by (cases "?q = 0") auto
    then show ?thesis unfolding r using True dm(1) by (auto simp: d_def [symmetric] MICROS_PER_SEC_def)
  next
    case False
    have lo: "?q * MICROS_PER_SEC < d" using False dm by linarith
    have hi: "d \<le> (?q + 1) * MICROS_PER_SEC" unfolding distrib_right using dm by linarith
    have "max (?q + 1) 1 = ?q + 1" using q0 by simp
    then show ?thesis unfolding r d_def [symmetric] using False lo hi q0 by simp
  qed
qed

section \<open>Properties of the lock cache\<close>

text \<open>
  The lock cache is a faithful map of the active lockouts. Setting a lock that is
  still in the future is visible at once and until it expires, and changes nobody else's lockout; when
  every slot holds another active lockout nothing is evicted, the refusal is reported and the cache
  becomes \<open>Overflow\<close>; clearing removes exactly the user's entry. The invariant is kept.
\<close>

theorem lock_cache_map_laws:
  assumes "lock_inv cache" and "slot_used u" and "now < x" and "now \<le> t"
    and "lock_set now u x (Some cache) = (Some set_cache, st)"
    and "lock_clear u (Some cache) = (Some clear_cache, st2)"
  shows "lock_inv set_cache
    \<and> (st = Applied \<longrightarrow>
         lock_view t set_cache = (lock_view t cache)(u := if t < x then Some x else None)
         \<and> lock_state (Some set_cache) = lock_state (Some cache))
    \<and> (st = OpOverflowed \<longrightarrow> lock_view t set_cache = lock_view t cache
         \<and> lock_state (Some set_cache) = Overflow
         \<and> (\<forall>e \<in> set (lc_entries cache). slot_used (lk_username e) \<and> now < lk_expires_at e))
    \<and> lock_inv clear_cache \<and> lock_view t clear_cache = (lock_view t cache)(u := None)"
proof -
  have cl: "lock_inv clear_cache" "lock_view t clear_cache = (lock_view t cache)(u := None)"
    using lock_clear_view [OF assms(1,6)] by auto
  show ?thesis
  proof (cases st)
    case Applied
    then show ?thesis
      using lock_set_applied [OF assms(1,3,2)] assms(4,5) cl by (auto simp: lock_state_def)
  next
    case OpOverflowed
    note o = lock_set_overflowed [OF assms(5) [unfolded OpOverflowed]]
    show ?thesis
      using o assms(1) cl OpOverflowed by (simp add: lock_state_def)
  qed
qed

theorem lock_cache_map_laws_witness:
  "\<exists>c. lock_set 10 (encode_username [0x61]) 20 (Some lock_cache_new) = (Some c, Applied)
     \<and> lock_view 15 c (encode_username [0x61]) = Some 20"
proof -
  have u: "slot_used (encode_username [0x61])"
    by (rule encode_used) (simp add: representable_def LOCK_USERNAME_BYTES_def)
  obtain c where c: "lock_set 10 (encode_username [0x61]) 20 (Some lock_cache_new) = (Some c, Applied)"
    using u by (simp add: lock_set_def lock_cache_new_def update_first_replicate LockEntry_new_def
        LOCK_CACHE_SIZE_def)
  obtain c2 st2 where c2: "lock_clear (encode_username [0x61]) (Some lock_cache_new) = (Some c2, st2)"
    using lock_clear_view [OF lock_cache_new_inv prod.collapse [symmetric]] by (metis prod.collapse)
  from lock_cache_map_laws [OF lock_cache_new_inv u _ _ c c2, of 15] c show ?thesis by auto
qed

text \<open>
  The seconds shown to a locked user are the remaining time rounded up. From the
  PostgreSQL epoch on, a lockout with any time left reports at least one second, never a whole second
  more than is left, for every 64-bit expiry including \<^verbatim>\<open>infinity\<close>; an expired one reports nothing.
\<close>

theorem remaining_seconds_ceil_correct:
  assumes "0 \<le> now" and "is_i64 x"
  shows "(remaining_seconds_ceil x now = None \<longleftrightarrow> x \<le> now)
    \<and> (\<forall>s. remaining_seconds_ceil x now = Some s \<longrightarrow>
         1 \<le> s \<and> (s - 1) * MICROS_PER_SEC < x - now \<and> x - now \<le> s * MICROS_PER_SEC)"
proof (cases "x \<le> now")
  case True
  then show ?thesis by (simp add: remaining_seconds_ceil_def)
next
  case False
  then show ?thesis using remaining_seconds_ceil_bounds [OF assms] by fastforce
qed

theorem remaining_seconds_ceil_correct_witness:
  "remaining_seconds_ceil I64_MAX 1700000000000000 \<noteq> None"
  using remaining_seconds_ceil_correct [of 1700000000000000 I64_MAX]
  by (simp add: is_i64_def width_defs)

text \<open>
  Applying a lock that has already expired changes nothing and reports success, so an earlier entry
  of the same user with a later expiry stays in force.
\<close>

lemma lock_set_expired_keeps_stale_lock: "x \<le> now \<Longrightarrow> lock_set now u x (Some cache) = (Some cache, Applied)"
  by (simp add: lock_set_def)

end
