(* ===== verification/Claim_Queue.thy ===== *)
theory Claim_Queue
  imports Prelude
begin

text \<open>
  The contract between the producers and the consumer of the authentication events: a bounded
  queue whose entries are offered, claimed without being removed, and acknowledged by a token.
  The lemmas of a client are proved once, from the contract: whatever is acknowledged is a prefix
  of what was accepted, in order and exactly once, and a token acknowledges the entry it was
  issued for or nothing at all.
\<close>

datatype ('p, 't) queue_op = Offer 'p | Acknowledge 't

locale claim_queue =
  fixes inv :: "'s \<Rightarrow> bool"
    and items :: "'s \<Rightarrow> 'e list"
    and fresh :: "'s \<Rightarrow> nat"
    and ident :: "'e \<Rightarrow> nat"
    and stamp :: "'p \<Rightarrow> 's \<Rightarrow> 'e"
    and offer :: "'p \<Rightarrow> 's \<Rightarrow> 's"
    and accepts :: "'p \<Rightarrow> 's \<Rightarrow> bool"
    and peek :: "'s \<Rightarrow> ('t \<times> 'e) option"
    and drop_claim :: "'t \<Rightarrow> 's \<Rightarrow> 's"
    and drops :: "'t \<Rightarrow> 's \<Rightarrow> bool"
    and token_id :: "'t \<Rightarrow> nat"
  assumes offer_inv: "inv s \<Longrightarrow> inv (offer p s)"
    and drop_inv: "inv s \<Longrightarrow> inv (drop_claim t s)"
    and offer_items:
      "inv s \<Longrightarrow> items (offer p s) = items s @ (if accepts p s then [stamp p s] else [])"
    and drop_items:
      "inv s \<Longrightarrow> items (drop_claim t s) = (if drops t s then tl (items s) else items s)"
    and peek_empty: "inv s \<Longrightarrow> items s = [] \<Longrightarrow> peek s = None"
    and peek_first: "inv s \<Longrightarrow> items s = e # es \<Longrightarrow> \<exists>t. peek s = Some (t, e) \<and> drops t s"
    and drops_first:
      "inv s \<Longrightarrow> drops t s \<Longrightarrow> \<exists>e es. items s = e # es \<and> token_id t = ident e"
    and peek_token: "inv s \<Longrightarrow> peek s = Some (t, e) \<Longrightarrow> token_id t = ident e"
    and idents: "inv s \<Longrightarrow> map ident (items s) = [fresh s - length (items s) ..< fresh s]"
    and fresh_bound: "inv s \<Longrightarrow> length (items s) \<le> fresh s"
    and stamp_ident: "inv s \<Longrightarrow> accepts p s \<Longrightarrow> ident (stamp p s) = fresh s"
    and offer_fresh: "inv s \<Longrightarrow> fresh (offer p s) = (if accepts p s then Suc (fresh s) else fresh s)"
    and drop_fresh: "inv s \<Longrightarrow> fresh (drop_claim t s) = fresh s"
begin

text \<open>A run of operations: the final state, what was accepted and what was acknowledged.\<close>

fun run :: "('p, 't) queue_op list \<Rightarrow> 's \<Rightarrow> 's \<times> 'e list \<times> 'e list" where
  "run [] s = (s, [], [])"
| "run (Offer p # ops) s =
     (let (s', acc, del) = run ops (offer p s)
      in (s', (if accepts p s then [stamp p s] else []) @ acc, del))"
| "run (Acknowledge t # ops) s =
     (let (s', acc, del) = run ops (drop_claim t s)
      in (s', acc, (if drops t s then [hd (items s)] else []) @ del))"

lemma run_inv: "inv s \<Longrightarrow> run ops s = (s', acc, del) \<Longrightarrow> inv s'"
proof (induction ops arbitrary: s s' acc del)
  case (Cons op ops)
  then show ?case
    by (cases op) (auto simp: Let_def split: prod.splits intro: Cons.IH offer_inv drop_inv)
qed auto

lemma run_fifo:
  "inv s \<Longrightarrow> run ops s = (s', acc, del) \<Longrightarrow> del @ items s' = items s @ acc"
proof (induction ops arbitrary: s s' acc del)
  case (Cons op ops)
  show ?case
  proof (cases op)
    case (Offer p)
    obtain s2 acc2 del2 where r: "run ops (offer p s) = (s2, acc2, del2)" by (metis prod_cases3)
    with Cons.IH [OF offer_inv [OF Cons.prems(1)] r] Cons.prems Offer show ?thesis
      by (auto simp: offer_items)
  next
    case (Acknowledge t)
    obtain s2 acc2 del2 where r: "run ops (drop_claim t s) = (s2, acc2, del2)"
      by (metis prod_cases3)
    with Cons.IH [OF drop_inv [OF Cons.prems(1)] r] Cons.prems Acknowledge
      drops_first [OF Cons.prems(1), of t] show ?thesis
      by (auto simp: drop_items)
  qed
qed auto

lemma tl_subset: "x \<in> set (tl xs) \<Longrightarrow> x \<in> set xs"
  by (cases xs) auto

text \<open>Entries of a later state are the earlier entries or carry a later identity.\<close>

lemma run_items_fresh:
  "inv s \<Longrightarrow> run ops s = (s', acc, del)
    \<Longrightarrow> fresh s \<le> fresh s' \<and> (\<forall>e \<in> set (items s'). e \<in> set (items s) \<or> fresh s \<le> ident e)"
proof (induction ops arbitrary: s s' acc del)
  case (Cons op ops)
  show ?case
  proof (cases op)
    case (Offer p)
    obtain s2 acc2 del2 where r: "run ops (offer p s) = (s2, acc2, del2)" by (metis prod_cases3)
    from Cons.IH [OF offer_inv [OF Cons.prems(1)] r] Cons.prems Offer r show ?thesis
      by (auto simp: offer_items offer_fresh stamp_ident split: if_splits)
  next
    case (Acknowledge t)
    obtain s2 acc2 del2 where r: "run ops (drop_claim t s) = (s2, acc2, del2)"
      by (metis prod_cases3)
    from Cons.IH [OF drop_inv [OF Cons.prems(1)] r] Cons.prems Acknowledge r show ?thesis
      by (auto simp: drop_items drop_fresh split: if_splits dest: tl_subset)
  qed
qed auto

lemma ident_less_fresh: "inv s \<Longrightarrow> e \<in> set (items s) \<Longrightarrow> ident e < fresh s"
proof -
  assume "inv s" and "e \<in> set (items s)"
  then have "ident e \<in> set (map ident (items s))" by simp
  with \<open>inv s\<close> show ?thesis by (simp add: idents)
qed

lemma ident_inj:
  assumes "inv s" and "d \<in> set (items s)" and "e \<in> set (items s)" and "ident d = ident e"
  shows "d = e"
proof -
  have "distinct (map ident (items s))" using assms(1) by (simp add: idents)
  with assms(2-4) show ?thesis by (simp add: distinct_map inj_on_def)
qed

text \<open>A token never acknowledges an entry other than the one it was issued for.\<close>

lemma token_acknowledges_own_entry:
  assumes "inv s" and "peek s = Some (t, e)" and "run ops s = (s', acc, del)" and "drops t s'"
  shows "items s' \<noteq> [] \<and> hd (items s') = e"
proof -
  obtain d ds where d: "items s' = d # ds" "token_id t = ident d"
    using drops_first run_inv assms by metis
  have e: "e \<in> set (items s)"
    using assms(1,2) peek_empty peek_first
    by (metis fst_conv hd_in_set list.collapse list.sel(1) option.inject option.simps(3) snd_conv)
  have te: "ident d = ident e" using assms(1,2) d(2) peek_token by simp
  then have "ident d < fresh s" using ident_less_fresh [OF assms(1) e] by simp
  with run_items_fresh [OF assms(1,3)] d(1) have "d \<in> set (items s)" by auto
  then have "d = e" using ident_inj assms(1) e te by blast
  with d(1) show ?thesis by simp
qed

text \<open>Once an entry has been acknowledged its token is dead, whatever happens afterwards.\<close>

lemma token_acknowledges_once:
  assumes "inv s" and "drops t s" and "run ops (drop_claim t s) = (s', acc, del)"
  shows "\<not> drops t s'"
proof
  assume "drops t s'"
  then obtain d ds where d: "items s' = d # ds" "token_id t = ident d"
    using drops_first run_inv drop_inv assms by metis
  obtain e es where e: "items s = e # es" "token_id t = ident e"
    using drops_first assms by blast
  have "fresh (drop_claim t s) \<le> ident d \<or> d \<in> set (items (drop_claim t s))"
    using run_items_fresh [OF drop_inv [OF assms(1)] assms(3)] d(1) by auto
  then show False
  proof
    assume "fresh (drop_claim t s) \<le> ident d"
    moreover have "ident e < fresh s" using ident_less_fresh [OF assms(1)] e(1) by simp
    ultimately show False using assms(1) d(2) e(2) by (simp add: drop_fresh)
  next
    assume "d \<in> set (items (drop_claim t s))"
    then have "d \<in> set es" using assms(1,2) e(1) by (simp add: drop_items)
    moreover have "distinct (map ident (e # es))" using assms(1) e(1) idents by (metis distinct_upt)
    ultimately show False using d(2) e(2) by (auto simp: image_iff)
  qed
qed

end

end
