(* ===== verification/Auth_Event.thy ===== *)
theory Auth_Event
  imports Claim_Queue
begin

text \<open>
  The authentication-event ring of \<^verbatim>\<open>auth_event.rs\<close>: its events, flags and kinds, the queue
  states, and the pure operations of \<^verbatim>\<open>AuthEventRing\<close>. The ring refines a bounded FIFO list; its
  tokens are interpreted as tokens of the contract \<open>claim_queue\<close>.
\<close>

unbundle bit_operations_syntax

section \<open>Data\<close>

definition RING_SLOTS :: nat where "RING_SLOTS = AUTH_EVENT_RING_SIZE"
definition USABLE_CAPACITY :: nat where "USABLE_CAPACITY = RING_SLOTS - 1"

record SharedAuthEvent =
  ev_event_id :: "byte list"
  ev_username :: "byte list"
  ev_timestamp :: timestamp
  ev_seq :: nat
  ev_kind :: byte
  ev_generation :: timestamp
  ev_flags :: byte

definition EVENT_KIND_FAILURE :: byte where "EVENT_KIND_FAILURE = 1"
definition EVENT_KIND_SUCCESS :: byte where "EVENT_KIND_SUCCESS = 2"
definition EVENT_KIND_GRACE_CONSUMED :: byte where "EVENT_KIND_GRACE_CONSUMED = 3"
definition EVENT_FLAG_CLEAR_LOGIN_ATTEMPTS :: byte where "EVENT_FLAG_CLEAR_LOGIN_ATTEMPTS = 1"
definition EVENT_FLAGS_KNOWN :: byte where "EVENT_FLAGS_KNOWN = EVENT_FLAG_CLEAR_LOGIN_ATTEMPTS"

datatype EventFlags = EventFlags byte

definition flags_none :: EventFlags where "flags_none = EventFlags 0"
definition flags_clear :: EventFlags where
  "flags_clear = EventFlags EVENT_FLAG_CLEAR_LOGIN_ATTEMPTS"

definition flags_from_raw :: "byte \<Rightarrow> EventFlags option" where
  "flags_from_raw raw = (if raw AND (NOT EVENT_FLAGS_KNOWN) \<noteq> 0 then None else Some (EventFlags raw))"

fun flags_raw :: "EventFlags \<Rightarrow> byte" where
  "flags_raw (EventFlags b) = b"

definition clear_login_attempts :: "EventFlags \<Rightarrow> bool" where
  "clear_login_attempts fl \<longleftrightarrow> flags_raw fl AND EVENT_FLAG_CLEAR_LOGIN_ATTEMPTS \<noteq> 0"

definition for_admission :: "bool \<Rightarrow> EventFlags" where
  "for_admission lockout_active = (if lockout_active then flags_clear else flags_none)"

datatype EventKind = Failure | Success | GraceConsumed

definition kind_from_raw :: "byte \<Rightarrow> EventKind option" where
  "kind_from_raw raw =
     (if raw = EVENT_KIND_FAILURE then Some Failure
      else if raw = EVENT_KIND_SUCCESS then Some Success
      else if raw = EVENT_KIND_GRACE_CONSUMED then Some GraceConsumed
      else None)"

definition EMPTY_EVENT :: SharedAuthEvent where
  "EMPTY_EVENT = \<lparr> ev_event_id = replicate 16 0, ev_username = EMPTY_USERNAME, ev_timestamp = 0,
     ev_seq = 0, ev_kind = EVENT_KIND_SUCCESS, ev_generation = 0, ev_flags = 0 \<rparr>"

record ClaimToken =
  tk_slot :: nat
  tk_seq :: nat

datatype QueueState = Healthy | Overflowed | Corrupt

fun queue_state_raw :: "QueueState \<Rightarrow> int" where
  "queue_state_raw Healthy = 0"
| "queue_state_raw Overflowed = 1"
| "queue_state_raw Corrupt = 2"

definition queue_state_from_raw :: "int \<Rightarrow> QueueState" where
  "queue_state_from_raw raw = (if raw = 0 then Healthy else if raw = 1 then Overflowed else Corrupt)"

datatype EnqueueOutcome = Enqueued | DurableOnly | EnqueueUnavailable

fun is_durable :: "EnqueueOutcome \<Rightarrow> bool" where
  "is_durable Enqueued = True"
| "is_durable DurableOnly = True"
| "is_durable EnqueueUnavailable = False"

datatype AckOutcome = Acknowledged | Stale | AckCorrupt

record AuthEventRing =
  rg_head :: nat
  rg_tail :: nat
  rg_next_seq :: nat
  rg_accepted :: nat
  rg_acknowledged :: nat
  rg_rejected :: nat
  rg_journaled :: nat
  rg_durable_only :: nat
  rg_journal_failures :: nat
  rg_state :: int
  rg_last_warned_at :: timestamp
  rg_events :: "SharedAuthEvent list"

definition QUEUE_WARN_INTERVAL_US :: int where "QUEUE_WARN_INTERVAL_US = 60000000"

record EnqueueStep =
  st_outcome :: EnqueueOutcome
  st_should_warn :: bool

section \<open>Operations of the ring\<close>

definition ring_new :: AuthEventRing where
  "ring_new = \<lparr> rg_head = 0, rg_tail = 0, rg_next_seq = 1, rg_accepted = 0, rg_acknowledged = 0,
     rg_rejected = 0, rg_journaled = 0, rg_durable_only = 0, rg_journal_failures = 0,
     rg_state = queue_state_raw Healthy, rg_last_warned_at = 0,
     rg_events = replicate RING_SLOTS EMPTY_EVENT \<rparr>"

definition indices_valid :: "AuthEventRing \<Rightarrow> bool" where
  "indices_valid r \<longleftrightarrow> rg_head r < RING_SLOTS \<and> rg_tail r < RING_SLOTS"

definition advance :: "nat \<Rightarrow> nat" where
  "advance index = (index + 1) mod RING_SLOTS"

definition depth :: "AuthEventRing \<Rightarrow> nat" where
  "depth r = (if \<not> indices_valid r then 0 else (rg_head r + RING_SLOTS - rg_tail r) mod RING_SLOTS)"

definition ring_state :: "AuthEventRing \<Rightarrow> QueueState" where
  "ring_state r = queue_state_from_raw (rg_state r)"

definition degrade_to :: "QueueState \<Rightarrow> AuthEventRing \<Rightarrow> AuthEventRing" where
  "degrade_to new_state r =
     (if new_state \<noteq> Healthy
      then if new_state = Corrupt \<or> ring_state r = Healthy
           then r\<lparr>rg_state := queue_state_raw new_state\<rparr> else r
      else r)"

definition should_warn_now :: "bool \<Rightarrow> timestamp \<Rightarrow> AuthEventRing \<Rightarrow> AuthEventRing \<times> bool" where
  "should_warn_now was_healthy now r =
     (if was_healthy \<or> rg_last_warned_at r = 0
         \<or> QUEUE_WARN_INTERVAL_US \<le> saturating_i64 (now - rg_last_warned_at r)
      then (r\<lparr>rg_last_warned_at := now\<rparr>, True) else (r, False))"

definition unavailable_step :: EnqueueStep where
  "unavailable_step = \<lparr>st_outcome = EnqueueUnavailable, st_should_warn = False\<rparr>"

definition try_enqueue ::
  "byte list \<Rightarrow> byte list \<Rightarrow> timestamp \<Rightarrow> byte \<Rightarrow> byte \<Rightarrow> timestamp
    \<Rightarrow> AuthEventRing \<Rightarrow> AuthEventRing \<times> EnqueueStep" where
  "try_enqueue event_id username timestamp kind flags generation r =
     (if \<not> indices_valid r then (degrade_to Corrupt r, unavailable_step)
      else if ring_state r = Corrupt then (r, unavailable_step)
      else let next_head = advance (rg_head r) in
        if next_head = rg_tail r then
          let was_healthy = (ring_state r = Healthy);
              r1 = r\<lparr>rg_rejected := saturating_inc_u64 (rg_rejected r),
                     rg_durable_only := saturating_inc_u64 (rg_durable_only r)\<rparr>;
              r2 = degrade_to Overflowed r1;
              (r3, warn) = should_warn_now was_healthy timestamp r2
          in (r3, \<lparr>st_outcome = DurableOnly, st_should_warn = warn\<rparr>)
        else if rg_next_seq r = U64_MAX then
          (degrade_to Corrupt (r\<lparr>rg_rejected := saturating_inc_u64 (rg_rejected r)\<rparr>),
           unavailable_step)
        else
          let event = \<lparr> ev_event_id = event_id, ev_username = username, ev_timestamp = timestamp,
                ev_seq = rg_next_seq r, ev_kind = kind, ev_generation = generation,
                ev_flags = flags \<rparr>
          in (r\<lparr>rg_next_seq := rg_next_seq r + 1,
                rg_events := (rg_events r)[rg_head r := event],
                rg_head := next_head,
                rg_accepted := saturating_inc_u64 (rg_accepted r)\<rparr>,
              \<lparr>st_outcome = Enqueued, st_should_warn = False\<rparr>))"

definition claim :: "AuthEventRing \<Rightarrow> AuthEventRing \<times> (ClaimToken \<times> SharedAuthEvent) option" where
  "claim r =
     (if \<not> indices_valid r then (degrade_to Corrupt r, None)
      else if rg_head r = rg_tail r then (r, None)
      else let slot = rg_tail r; event = rg_events r ! slot
           in (r, Some (\<lparr>tk_slot = slot, tk_seq = ev_seq event\<rparr>, event)))"

definition ack :: "ClaimToken \<Rightarrow> AuthEventRing \<Rightarrow> AuthEventRing \<times> AckOutcome" where
  "ack token r =
     (if \<not> indices_valid r then (degrade_to Corrupt r, AckCorrupt)
      else if rg_head r = rg_tail r then (r, Stale)
      else if tk_slot token \<noteq> rg_tail r then (r, Stale)
      else if RING_SLOTS \<le> tk_slot token then (degrade_to Corrupt r, AckCorrupt)
      else if ev_seq (rg_events r ! tk_slot token) \<noteq> tk_seq token then (r, Stale)
      else let r1 = r\<lparr>rg_tail := advance (rg_tail r),
                      rg_acknowledged := saturating_inc_u64 (rg_acknowledged r)\<rparr>;
               r2 = (if rg_head r1 = rg_tail r1 \<and> ring_state r1 = Overflowed
                     then r1\<lparr>rg_state := queue_state_raw Healthy\<rparr> else r1)
           in (r2, Acknowledged))"

text \<open>\<^verbatim>\<open>username_from_bytes\<close>: the bytes before the first NUL, when there are any and they are UTF-8.\<close>

definition username_from_bytes :: "byte list \<Rightarrow> username option" where
  "username_from_bytes bytes =
     (let name = takeWhile (\<lambda>b. b \<noteq> 0) bytes
      in if name = [] then None else if utf8_valid name then Some name else None)"

section \<open>Flags, kinds and states\<close>

lemma is_durable_iff: "is_durable x \<longleftrightarrow> x \<noteq> EnqueueUnavailable"
  by (cases x) simp_all

lemma flags_from_raw_Some_iff:
  "flags_from_raw raw = Some fl \<longleftrightarrow> (raw = 0 \<or> raw = 1) \<and> fl = EventFlags raw"
proof -
  have "raw AND NOT 1 = (0::byte) \<longleftrightarrow> raw = 0 \<or> raw = 1"
  proof
    assume a: "raw AND NOT 1 = (0::byte)"
    have "raw = (raw AND 1) OR (raw AND NOT 1)" by (auto simp: bit_simps bit_eq_iff)
    with a have "raw = raw AND 1" by simp
    then show "raw = 0 \<or> raw = 1" by (metis and_one_eq even_iff_mod_2_eq_zero odd_iff_mod_2_eq_one)
  qed auto
  then show ?thesis
    by (auto simp: flags_from_raw_def EVENT_FLAGS_KNOWN_def EVENT_FLAG_CLEAR_LOGIN_ATTEMPTS_def)
qed

lemma for_admission_valid: "flags_from_raw (flags_raw (for_admission b)) = Some (for_admission b)"
  by (cases b) (simp_all add: flags_from_raw_Some_iff for_admission_def flags_clear_def
      flags_none_def EVENT_FLAG_CLEAR_LOGIN_ATTEMPTS_def)

lemma for_admission_clears [simp]: "clear_login_attempts (for_admission b) \<longleftrightarrow> b"
  by (simp add: clear_login_attempts_def for_admission_def flags_clear_def flags_none_def
      EVENT_FLAG_CLEAR_LOGIN_ATTEMPTS_def)

lemma queue_state_roundtrip [simp]: "queue_state_from_raw (queue_state_raw q) = q"
  by (cases q) (simp_all add: queue_state_from_raw_def)

lemma queue_state_from_raw_values [simp]:
  "queue_state_from_raw 0 = Healthy" "queue_state_from_raw 1 = Overflowed"
  "queue_state_from_raw 2 = Corrupt"
  by (simp_all add: queue_state_from_raw_def)

lemma queue_state_Healthy_iff: "queue_state_from_raw raw = Healthy \<longleftrightarrow> raw = 0"
  by (simp add: queue_state_from_raw_def)

lemma username_from_bytes_encode:
  "representable u \<Longrightarrow> utf8_valid u \<Longrightarrow> username_from_bytes (encode_username u) = Some u"
proof -
  assume u: "representable u" and v: "utf8_valid u"
  have "u \<noteq> []" using u unfolding representable_def by blast
  with v show ?thesis unfolding username_from_bytes_def takeWhile_encode [OF u] by simp
qed

section \<open>Invariant\<close>

text \<open>
  A ring that only its own operations have written: the live entries sit at the positions
  \<open>acknowledged .. accepted - 1\<close> modulo the ring size, and the entry at position \<open>q\<close> carries the
  sequence number \<open>q + 1\<close>.
\<close>

definition ring_inv :: "AuthEventRing \<Rightarrow> bool" where
  "ring_inv r \<longleftrightarrow>
     length (rg_events r) = RING_SLOTS
     \<and> rg_next_seq r = rg_accepted r + 1 \<and> rg_next_seq r \<le> U64_MAX
     \<and> rg_acknowledged r \<le> rg_accepted r \<and> rg_accepted r - rg_acknowledged r < RING_SLOTS
     \<and> rg_head r = rg_accepted r mod RING_SLOTS \<and> rg_tail r = rg_acknowledged r mod RING_SLOTS
     \<and> (\<forall>q \<in> {rg_acknowledged r ..< rg_accepted r}. ev_seq (rg_events r ! (q mod RING_SLOTS)) = q + 1)"

text \<open>The FIFO list a ring stands for.\<close>

definition ring_list :: "AuthEventRing \<Rightarrow> SharedAuthEvent list" where
  "ring_list r = map (\<lambda>i. rg_events r ! ((rg_tail r + i) mod RING_SLOTS)) [0 ..< depth r]"

lemma RING_SLOTS_gt1: "1 < RING_SLOTS"
  by (simp add: RING_SLOTS_def AUTH_EVENT_RING_SIZE_def)

lemma RING_SLOTS_pos [simp]: "0 < RING_SLOTS"
  using RING_SLOTS_gt1 by simp

lemma ring_distance:
  fixes a c n :: nat
  assumes "a \<le> c" and "c - a < n"
  shows "(c mod n + n - a mod n) mod n = c - a"
proof -
  obtain d where c: "c = a + d" using assms(1) le_Suc_ex by blast
  have dn: "d < n" and n: "0 < n" using assms(2) c by auto
  have an: "a mod n < n" using n by simp
  have cd: "c mod n = (a mod n + d) mod n" using c by (simp add: mod_add_left_eq)
  show ?thesis
  proof (cases "a mod n + d < n")
    case True
    then have "c mod n = a mod n + d" using cd by simp
    then have "c mod n + n - a mod n = d + n" by simp
    with dn c show ?thesis by simp
  next
    case False
    moreover have "a mod n + d - n < n" using an dn by linarith
    ultimately have "(a mod n + d) mod n = a mod n + d - n" by (simp add: le_mod_geq)
    then have "c mod n + n - a mod n = d" using cd False by simp
    with dn c show ?thesis by simp
  qed
qed

lemma ring_inv_indices [simp]: "ring_inv r \<Longrightarrow> indices_valid r"
  by (simp add: ring_inv_def indices_valid_def)

lemma ring_inv_depth: "ring_inv r \<Longrightarrow> depth r = rg_accepted r - rg_acknowledged r"
  by (simp add: depth_def ring_inv_def indices_valid_def ring_distance)

lemma ring_inv_list:
  assumes "ring_inv r"
  shows "ring_list r =
    map (\<lambda>q. rg_events r ! (q mod RING_SLOTS)) [rg_acknowledged r ..< rg_accepted r]"
proof -
  have "[rg_acknowledged r ..< rg_accepted r] = map (\<lambda>i. i + rg_acknowledged r) [0 ..< depth r]"
    using assms by (simp add: ring_inv_depth map_add_upt) (simp add: ring_inv_def)
  moreover have "(rg_tail r + i) mod RING_SLOTS = (i + rg_acknowledged r) mod RING_SLOTS" for i
    using assms by (simp add: ring_inv_def mod_simps add.commute)
  ultimately show ?thesis by (simp add: ring_list_def)
qed

lemma ring_list_length [simp]: "length (ring_list r) = depth r"
  by (simp add: ring_list_def)

lemma ring_inv_empty_iff: "ring_inv r \<Longrightarrow> rg_head r = rg_tail r \<longleftrightarrow> ring_list r = []"
proof -
  assume inv: "ring_inv r"
  have "rg_head r = rg_tail r \<longleftrightarrow> depth r = 0"
  proof
    assume "rg_head r = rg_tail r"
    then show "depth r = 0" by (simp add: depth_def)
  next
    assume "depth r = 0"
    then have "rg_accepted r = rg_acknowledged r"
      using inv by (simp add: ring_inv_depth ring_inv_def)
    then show "rg_head r = rg_tail r" using inv by (simp add: ring_inv_def)
  qed
  moreover have "ring_list r = [] \<longleftrightarrow> depth r = 0"
    by (simp add: ring_list_def)
  ultimately show ?thesis by simp
qed

lemma ring_inv_full_iff:
  assumes "ring_inv r"
  shows "advance (rg_head r) = rg_tail r \<longleftrightarrow> length (ring_list r) = USABLE_CAPACITY"
proof -
  define a c where "a = rg_acknowledged r" and "c = rg_accepted r"
  have h: "rg_head r = c mod RING_SLOTS" and t: "rg_tail r = a mod RING_SLOTS"
    and le: "a \<le> c" and lt: "c - a < RING_SLOTS" and len: "length (ring_list r) = c - a"
    using assms by (auto simp: a_def c_def ring_inv_def ring_inv_depth)
  have adv: "advance (rg_head r) = (c + 1) mod RING_SLOTS" by (simp add: advance_def h mod_simps)
  show ?thesis
  proof (cases "c - a = USABLE_CAPACITY")
    case True
    then have "c + 1 = a + RING_SLOTS" using le RING_SLOTS_gt1 by (simp add: USABLE_CAPACITY_def)
    then show ?thesis using adv t len True by simp
  next
    case False
    then have "c + 1 - a < RING_SLOTS" using lt le by (simp add: USABLE_CAPACITY_def)
    then have "((c + 1) mod RING_SLOTS + RING_SLOTS - a mod RING_SLOTS) mod RING_SLOTS = c + 1 - a"
      by (intro ring_distance) (use le in auto)
    moreover have "c + 1 - a \<noteq> 0" using le by simp
    ultimately have "(c + 1) mod RING_SLOTS \<noteq> a mod RING_SLOTS" by auto
    then show ?thesis using adv t len False by simp
  qed
qed

lemma mod_window_inj:
  fixes n :: nat
  assumes "x mod n = y mod n" and "x \<le> y" and "y < x + n"
  shows "x = y"
proof -
  have "n dvd y - x" using assms(1,2) mod_eq_dvd_iff_nat [of x y n] by simp
  moreover have "y - x < n" using assms(2,3) by simp
  ultimately have "y - x = 0" by (meson dvd_imp_le gr0I linorder_not_less)
  with assms(2) show ?thesis by simp
qed

lemma ring_new_inv [inv_intros]: "ring_inv ring_new"
  by (simp add: ring_inv_def ring_new_def U64_MAX_def)

lemma ring_new_depth [simp]: "depth ring_new = 0"
  by (simp add: depth_def indices_valid_def ring_new_def)

lemma ring_new_list [view_simps]: "ring_list ring_new = []"
  by (simp add: ring_list_def depth_def indices_valid_def ring_new_def)

section \<open>The operations refine a bounded FIFO list\<close>

text \<open>The part of a ring that its entries live in; the counters and the health live outside it.\<close>

definition ring_core :: "AuthEventRing \<Rightarrow> nat \<times> nat \<times> nat \<times> nat \<times> nat \<times> SharedAuthEvent list" where
  "ring_core r =
     (rg_head r, rg_tail r, rg_next_seq r, rg_accepted r, rg_acknowledged r, rg_events r)"

lemma ring_core_inv: "ring_core r = ring_core r' \<Longrightarrow> ring_inv r = ring_inv r'"
  by (simp add: ring_core_def ring_inv_def)

lemma ring_core_list: "ring_core r = ring_core r' \<Longrightarrow> ring_list r = ring_list r'"
  by (simp add: ring_core_def ring_list_def depth_def indices_valid_def)

lemma degrade_to_core [simp]: "ring_core (degrade_to q r) = ring_core r"
  by (simp add: degrade_to_def ring_core_def)

lemma should_warn_now_core [simp]: "ring_core (fst (should_warn_now h now r)) = ring_core r"
  by (simp add: should_warn_now_def ring_core_def)

lemma counters_core [simp]:
  "ring_core (r\<lparr>rg_rejected := a\<rparr>) = ring_core r"
  "ring_core (r\<lparr>rg_durable_only := a\<rparr>) = ring_core r"
  "ring_core (r\<lparr>rg_journaled := a\<rparr>) = ring_core r"
  "ring_core (r\<lparr>rg_journal_failures := a\<rparr>) = ring_core r"
  "ring_core (r\<lparr>rg_state := b\<rparr>) = ring_core r"
  "ring_core (r\<lparr>rg_last_warned_at := b\<rparr>) = ring_core r"
  by (simp_all add: ring_core_def)

definition offered_event ::
  "byte list \<Rightarrow> byte list \<Rightarrow> timestamp \<Rightarrow> byte \<Rightarrow> byte \<Rightarrow> timestamp \<Rightarrow> nat \<Rightarrow> SharedAuthEvent" where
  "offered_event event_id username timestamp kind flags generation seq =
     \<lparr> ev_event_id = event_id, ev_username = username, ev_timestamp = timestamp, ev_seq = seq,
       ev_kind = kind, ev_generation = generation, ev_flags = flags \<rparr>"

text \<open>What a ring that keeps its invariant answers to an offer.\<close>

lemma try_enqueue_outcome:
  assumes "ring_inv r"
  shows "st_outcome (snd (try_enqueue i u ts k f g r)) =
    (if ring_state r = Corrupt then EnqueueUnavailable
     else if length (ring_list r) = USABLE_CAPACITY then DurableOnly
     else if rg_next_seq r = U64_MAX then EnqueueUnavailable
     else Enqueued)"
  using assms
  by (simp add: try_enqueue_def Let_def ring_inv_full_iff unavailable_step_def split: prod.split)

lemma try_enqueue_refused:
  assumes "st_outcome (snd (try_enqueue i u ts k f g r)) \<noteq> Enqueued"
  shows "ring_core (fst (try_enqueue i u ts k f g r)) = ring_core r"
  using assms by (simp add: try_enqueue_def Let_def case_prod_beta split: if_splits)

lemma try_enqueue_accepted:
  assumes "ring_inv r" and "st_outcome (snd (try_enqueue i u ts k f g r)) = Enqueued"
  shows "fst (try_enqueue i u ts k f g r) =
    r\<lparr>rg_next_seq := rg_next_seq r + 1,
      rg_events := (rg_events r)[rg_head r := offered_event i u ts k f g (rg_next_seq r)],
      rg_head := advance (rg_head r),
      rg_accepted := rg_accepted r + 1\<rparr>"
    and "length (ring_list r) < USABLE_CAPACITY" and "rg_next_seq r < U64_MAX"
    and "ring_state r \<noteq> Corrupt"
proof -
  have out: "ring_state r \<noteq> Corrupt" "length (ring_list r) \<noteq> USABLE_CAPACITY" "rg_next_seq r \<noteq> U64_MAX"
    using assms(2) unfolding try_enqueue_outcome [OF assms(1)] by (auto split: if_splits)
  have sat: "saturating_inc_u64 (rg_accepted r) = rg_accepted r + 1"
    using assms(1) by (intro saturating_inc_u64_less) (simp add: ring_inv_def)
  show "fst (try_enqueue i u ts k f g r) =
    r\<lparr>rg_next_seq := rg_next_seq r + 1,
      rg_events := (rg_events r)[rg_head r := offered_event i u ts k f g (rg_next_seq r)],
      rg_head := advance (rg_head r),
      rg_accepted := rg_accepted r + 1\<rparr>"
    using assms(1) out
    by (simp add: try_enqueue_def Let_def ring_inv_full_iff sat offered_event_def)
  have "length (ring_list r) < RING_SLOTS"
    using assms(1) by (simp add: ring_inv_depth) (simp add: ring_inv_def)
  with out show "length (ring_list r) < USABLE_CAPACITY" by (simp add: USABLE_CAPACITY_def)
  show "rg_next_seq r < U64_MAX" using assms(1) out by (simp add: ring_inv_def)
  show "ring_state r \<noteq> Corrupt" by (rule out)
qed

text \<open>Writing the head slot leaves every live entry alone.\<close>

lemma ring_write_head:
  assumes "ring_inv r" and "length (ring_list r) < USABLE_CAPACITY"
    and "q \<in> {rg_acknowledged r ..< rg_accepted r}"
  shows "((rg_events r)[rg_head r := e]) ! (q mod RING_SLOTS) = rg_events r ! (q mod RING_SLOTS)"
proof -
  have "q mod RING_SLOTS \<noteq> rg_accepted r mod RING_SLOTS"
  proof
    assume "q mod RING_SLOTS = rg_accepted r mod RING_SLOTS"
    moreover have "rg_accepted r < q + RING_SLOTS"
      using assms unfolding ring_inv_def by auto
    ultimately have "q = rg_accepted r" using assms(3) mod_window_inj less_imp_le
      unfolding atLeastLessThan_iff by blast
    with assms(3) show False by simp
  qed
  with assms(1) show ?thesis by (simp add: ring_inv_def)
qed

lemma try_enqueue_inv [inv_intros]:
  assumes "ring_inv r"
  shows "ring_inv (fst (try_enqueue i u ts k f g r))"
proof (cases "st_outcome (snd (try_enqueue i u ts k f g r)) = Enqueued")
  case False
  then show ?thesis using ring_core_inv [OF try_enqueue_refused] assms by blast
next
  case True
  note acc = try_enqueue_accepted [OF assms True]
  let ?ev = "(rg_events r)[rg_head r := offered_event i u ts k f g (rg_next_seq r)]"
  have old: "ev_seq (?ev ! (q mod RING_SLOTS)) = q + 1"
    if "q \<in> {rg_acknowledged r ..< rg_accepted r}" for q
    using ring_write_head [OF assms acc(2) that] that assms by (simp add: ring_inv_def)
  have new: "ev_seq (?ev ! (rg_accepted r mod RING_SLOTS)) = rg_accepted r + 1"
    using assms by (simp add: ring_inv_def offered_event_def)
  have "ev_seq (?ev ! (q mod RING_SLOTS)) = q + 1"
    if "q \<in> {rg_acknowledged r ..< rg_accepted r + 1}" for q
    using that old [of q] new by (cases "q = rg_accepted r") auto
  moreover have "rg_accepted r + 1 - rg_acknowledged r < RING_SLOTS"
    using acc(2) assms by (simp add: ring_inv_depth USABLE_CAPACITY_def)
  ultimately show ?thesis
    using assms acc(3) unfolding acc(1) by (simp add: ring_inv_def advance_def mod_Suc_eq)
qed

lemma try_enqueue_list [view_simps]:
  assumes "ring_inv r"
  shows "ring_list (fst (try_enqueue i u ts k f g r)) = ring_list r @
    (if st_outcome (snd (try_enqueue i u ts k f g r)) = Enqueued
     then [offered_event i u ts k f g (rg_next_seq r)] else [])"
proof (cases "st_outcome (snd (try_enqueue i u ts k f g r)) = Enqueued")
  case False
  then show ?thesis using ring_core_list [OF try_enqueue_refused] by simp
next
  case True
  note acc = try_enqueue_accepted [OF assms True]
  let ?r = "fst (try_enqueue i u ts k f g r)"
  have fields: "rg_acknowledged ?r = rg_acknowledged r" "rg_accepted ?r = rg_accepted r + 1"
    "rg_events ?r = (rg_events r)[rg_head r := offered_event i u ts k f g (rg_next_seq r)]"
    unfolding acc(1) by simp_all
  have le: "rg_acknowledged r \<le> rg_accepted r" using assms by (simp add: ring_inv_def)
  have "rg_events ?r ! (rg_accepted r mod RING_SLOTS) = offered_event i u ts k f g (rg_next_seq r)"
    unfolding fields using assms by (simp add: ring_inv_def)
  moreover have "map (\<lambda>q. rg_events ?r ! (q mod RING_SLOTS)) [rg_acknowledged r ..< rg_accepted r]
      = ring_list r"
    unfolding ring_inv_list [OF assms] fields
    using ring_write_head [OF assms acc(2)] by (intro map_cong) auto
  ultimately show ?thesis
    unfolding ring_inv_list [OF try_enqueue_inv [OF assms]] using True le by (simp add: fields)
qed

lemma ring_list_Cons:
  assumes "ring_inv r" and "ring_list r \<noteq> []"
  shows "ring_list r = rg_events r ! rg_tail r #
      map (\<lambda>q. rg_events r ! (q mod RING_SLOTS)) [rg_acknowledged r + 1 ..< rg_accepted r]"
    and "ev_seq (rg_events r ! rg_tail r) = rg_acknowledged r + 1"
    and "rg_acknowledged r < rg_accepted r"
proof -
  have less: "rg_acknowledged r < rg_accepted r"
    using assms(2) unfolding ring_inv_list [OF assms(1)] by simp
  then show "rg_acknowledged r < rg_accepted r" .
  have t: "rg_tail r = rg_acknowledged r mod RING_SLOTS" using assms(1) by (simp add: ring_inv_def)
  show "ring_list r = rg_events r ! rg_tail r #
      map (\<lambda>q. rg_events r ! (q mod RING_SLOTS)) [rg_acknowledged r + 1 ..< rg_accepted r]"
    unfolding ring_inv_list [OF assms(1)] t using less by (simp add: upt_conv_Cons)
  show "ev_seq (rg_events r ! rg_tail r) = rg_acknowledged r + 1"
    using assms(1) less unfolding t by (simp add: ring_inv_def)
qed

lemma claim_inv [simp]: "ring_inv r \<Longrightarrow> fst (claim r) = r"
  by (simp add: claim_def Let_def)

lemma claim_result [view_simps]:
  assumes "ring_inv r"
  shows "snd (claim r) = (case ring_list r of [] \<Rightarrow> None
    | e # es \<Rightarrow> Some (\<lparr>tk_slot = rg_tail r, tk_seq = ev_seq e\<rparr>, e))"
proof (cases "ring_list r = []")
  case True
  then show ?thesis using assms by (simp add: claim_def ring_inv_empty_iff)
next
  case False
  then have "rg_head r \<noteq> rg_tail r" using assms by (simp add: ring_inv_empty_iff)
  moreover obtain es where "ring_list r = rg_events r ! rg_tail r # es"
    using ring_list_Cons(1) [OF assms False] by blast
  ultimately show ?thesis using assms by (simp add: claim_def Let_def)
qed

lemma ack_outcome:
  assumes "ring_inv r"
  shows "snd (ack t r) =
    (if ring_list r \<noteq> [] \<and> tk_slot t = rg_tail r \<and> tk_seq t = ev_seq (hd (ring_list r))
     then Acknowledged else Stale)"
proof (cases "ring_list r = []")
  case True
  then show ?thesis using assms by (simp add: ack_def ring_inv_empty_iff)
next
  case False
  then have "rg_head r \<noteq> rg_tail r" using assms by (simp add: ring_inv_empty_iff)
  moreover have "hd (ring_list r) = rg_events r ! rg_tail r"
    using ring_list_Cons(1) [OF assms False] by simp
  moreover have "rg_tail r < RING_SLOTS" using assms by (simp add: ring_inv_def)
  ultimately show ?thesis using assms False by (auto simp: ack_def Let_def)
qed

lemma ack_stale: "ring_inv r \<Longrightarrow> snd (ack t r) \<noteq> Acknowledged \<Longrightarrow> fst (ack t r) = r"
proof -
  assume inv: "ring_inv r" and "snd (ack t r) \<noteq> Acknowledged"
  moreover have "rg_tail r < RING_SLOTS" using inv by (simp add: ring_inv_def)
  ultimately show ?thesis by (auto simp: ack_def Let_def split: if_splits)
qed

lemma ack_acknowledged:
  assumes "ring_inv r" and "snd (ack t r) = Acknowledged"
  shows "ring_core (fst (ack t r)) = ring_core (r\<lparr>rg_tail := advance (rg_tail r),
      rg_acknowledged := rg_acknowledged r + 1\<rparr>)"
    and "ring_list r \<noteq> []"
proof -
  show ne: "ring_list r \<noteq> []" using assms ack_outcome by (metis AckOutcome.distinct(1))
  have "saturating_inc_u64 (rg_acknowledged r) = rg_acknowledged r + 1"
    using ring_list_Cons(3) [OF assms(1) ne] assms(1)
    by (intro saturating_inc_u64_less) (simp add: ring_inv_def)
  with assms show "ring_core (fst (ack t r)) = ring_core (r\<lparr>rg_tail := advance (rg_tail r),
      rg_acknowledged := rg_acknowledged r + 1\<rparr>)"
    by (auto simp: ack_def Let_def ring_core_def split: if_splits)
qed

lemma ack_inv [inv_intros]: "ring_inv r \<Longrightarrow> ring_inv (fst (ack t r))"
proof (cases "snd (ack t r) = Acknowledged")
  case True
  assume inv: "ring_inv r"
  note a = ack_acknowledged [OF inv True]
  have "ring_inv (r\<lparr>rg_tail := advance (rg_tail r), rg_acknowledged := rg_acknowledged r + 1\<rparr>)"
    using inv ring_list_Cons(3) [OF inv a(2)]
    by (auto simp: ring_inv_def advance_def mod_Suc_eq)
  then show ?thesis using ring_core_inv [OF a(1)] by simp
qed (simp add: ack_stale)

lemma ack_list [view_simps]:
  assumes "ring_inv r"
  shows "ring_list (fst (ack t r)) =
    (if snd (ack t r) = Acknowledged then tl (ring_list r) else ring_list r)"
proof (cases "snd (ack t r) = Acknowledged")
  case True
  note a = ack_acknowledged [OF assms True]
  have f: "rg_acknowledged (fst (ack t r)) = rg_acknowledged r + 1"
    "rg_accepted (fst (ack t r)) = rg_accepted r" "rg_events (fst (ack t r)) = rg_events r"
    using a(1) by (simp_all add: ring_core_def)
  show ?thesis
    unfolding ring_inv_list [OF ack_inv [OF assms]] f using ring_list_Cons(1) [OF assms a(2)] True
    by simp
qed (use assms in \<open>simp add: ack_stale\<close>)

lemma ack_next_seq [view_simps]: "ring_inv r \<Longrightarrow> rg_next_seq (fst (ack t r)) = rg_next_seq r"
proof (cases "snd (ack t r) = Acknowledged")
  case True
  assume "ring_inv r"
  from ack_acknowledged(1) [OF this True] show ?thesis by (simp add: ring_core_def)
qed (simp add: ack_stale)

lemma try_enqueue_next_seq [view_simps]:
  assumes "ring_inv r"
  shows "rg_next_seq (fst (try_enqueue i u ts k f g r)) =
    (if st_outcome (snd (try_enqueue i u ts k f g r)) = Enqueued
     then Suc (rg_next_seq r) else rg_next_seq r)"
proof (cases "st_outcome (snd (try_enqueue i u ts k f g r)) = Enqueued")
  case True
  then show ?thesis using try_enqueue_accepted(1) [OF assms True] by simp
next
  case False
  then show ?thesis using try_enqueue_refused [OF False] by (simp add: ring_core_def)
qed

section \<open>The ring keeps the contract of a claim queue\<close>

type_synonym offer = "byte list \<times> byte list \<times> timestamp \<times> byte \<times> byte \<times> timestamp"

fun ring_offer :: "offer \<Rightarrow> AuthEventRing \<Rightarrow> AuthEventRing" where
  "ring_offer (i, u, ts, k, f, g) r = fst (try_enqueue i u ts k f g r)"

fun ring_accepts :: "offer \<Rightarrow> AuthEventRing \<Rightarrow> bool" where
  "ring_accepts (i, u, ts, k, f, g) r \<longleftrightarrow> st_outcome (snd (try_enqueue i u ts k f g r)) = Enqueued"

fun ring_stamp :: "offer \<Rightarrow> AuthEventRing \<Rightarrow> SharedAuthEvent" where
  "ring_stamp (i, u, ts, k, f, g) r = offered_event i u ts k f g (rg_next_seq r)"

definition ring_drop :: "ClaimToken \<Rightarrow> AuthEventRing \<Rightarrow> AuthEventRing" where
  "ring_drop t r = fst (ack t r)"

definition ring_drops :: "ClaimToken \<Rightarrow> AuthEventRing \<Rightarrow> bool" where
  "ring_drops t r \<longleftrightarrow> snd (ack t r) = Acknowledged"

definition ring_peek :: "AuthEventRing \<Rightarrow> (ClaimToken \<times> SharedAuthEvent) option" where
  "ring_peek r = snd (claim r)"

lemma ring_list_seqs:
  assumes "ring_inv r"
  shows "map ev_seq (ring_list r) = [rg_next_seq r - length (ring_list r) ..< rg_next_seq r]"
proof -
  have "map ev_seq (ring_list r) = map Suc [rg_acknowledged r ..< rg_accepted r]"
    unfolding ring_inv_list [OF assms] map_map
    by (rule map_cong) (use assms in \<open>auto simp: ring_inv_def\<close>)
  also have "\<dots> = [Suc (rg_acknowledged r) ..< Suc (rg_accepted r)]" by (rule map_Suc_upt)
  finally show ?thesis using assms by (simp add: ring_inv_depth) (simp add: ring_inv_def)
qed

interpretation ring: claim_queue ring_inv ring_list rg_next_seq ev_seq ring_stamp ring_offer
  ring_accepts ring_peek ring_drop ring_drops tk_seq
proof (unfold_locales, goal_cases)
  case (1 s p)
  then show ?case by (cases p) (simp add: try_enqueue_inv)
next
  case (2 s t)
  then show ?case by (simp add: ring_drop_def ack_inv)
next
  case (3 s p)
  then show ?case by (cases p) (simp add: try_enqueue_list)
next
  case (4 s t)
  then show ?case by (simp add: ring_drop_def ring_drops_def ack_list)
next
  case (5 s)
  then show ?case by (simp add: ring_peek_def claim_result)
next
  case (6 s e es)
  then show ?case by (simp add: ring_peek_def ring_drops_def claim_result ack_outcome)
next
  case (7 s t)
  then show ?case by (cases "ring_list s") (auto simp: ring_drops_def ack_outcome split: if_splits)
next
  case (8 s t e)
  then show ?case by (auto simp: ring_peek_def claim_result split: list.splits)
next
  case (9 s)
  then show ?case by (rule ring_list_seqs)
next
  case (10 s)
  then show ?case by (simp add: ring_inv_depth) (simp add: ring_inv_def)
next
  case (11 s p)
  then show ?case by (cases p) (simp add: offered_event_def)
next
  case (12 s p)
  then show ?case by (cases p) (simp add: try_enqueue_next_seq)
next
  case (13 s t)
  then show ?case by (simp add: ring_drop_def ack_next_seq)
qed

section \<open>Runs of the ring\<close>

text \<open>
  A sequence of producer and consumer operations on the ring, with the events accepted and the
  events acknowledged on the way.
\<close>

fun ring_exec :: "(offer, ClaimToken) queue_op list \<Rightarrow> AuthEventRing
    \<Rightarrow> AuthEventRing \<times> SharedAuthEvent list \<times> SharedAuthEvent list" where
  "ring_exec [] r = (r, [], [])"
| "ring_exec (Offer (i, u, ts, k, f, g) # ops) r =
     (let (r1, step) = try_enqueue i u ts k f g r;
          (r2, acc, del) = ring_exec ops r1
      in (r2, (if st_outcome step = Enqueued
               then offered_event i u ts k f g (rg_next_seq r) # acc else acc), del))"
| "ring_exec (Acknowledge t # ops) r =
     (let (r1, outcome) = ack t r; (r2, acc, del) = ring_exec ops r1
      in (r2, acc, if outcome = Acknowledged then hd (ring_list r) # del else del))"

lemma ring_exec_run: "ring_exec ops r = ring.run ops r"
proof (induction ops arbitrary: r)
  case (Cons op ops)
  show ?case
  proof (cases op)
    case (Offer p)
    then show ?thesis
      using Cons.IH by (cases p) (simp add: Let_def case_prod_beta)
  next
    case (Acknowledge t)
    then show ?thesis
      using Cons.IH by (simp add: Let_def case_prod_beta flip: ring_drop_def ring_drops_def)
  qed
qed simp

lemma ring_exec_inv: "ring_inv r \<Longrightarrow> ring_inv (fst (ring_exec ops r))"
  unfolding ring_exec_run using ring.run_inv by (metis eq_fst_iff)

lemma degrade_to_state:
  "ring_state (degrade_to q r) =
     (if q = Corrupt \<or> (q = Overflowed \<and> ring_state r = Healthy) then q else ring_state r)"
  by (cases q) (auto simp: degrade_to_def ring_state_def simp del: queue_state_raw.simps)

text \<open>The states by severity: \<^verbatim>\<open>Corrupt\<close> outranks \<^verbatim>\<open>Overflowed\<close>, as the discriminants order them.\<close>

instantiation QueueState :: linorder
begin

definition less_eq_QueueState :: "QueueState \<Rightarrow> QueueState \<Rightarrow> bool" where
  "less_eq_QueueState p q \<longleftrightarrow> queue_state_raw p \<le> queue_state_raw q"

definition less_QueueState :: "QueueState \<Rightarrow> QueueState \<Rightarrow> bool" where
  "less_QueueState p q \<longleftrightarrow> queue_state_raw p < queue_state_raw q"

instance
proof
  fix p q :: QueueState
  show "p \<le> q \<Longrightarrow> q \<le> p \<Longrightarrow> p = q" by (cases p; cases q) (simp_all add: less_eq_QueueState_def)
qed (auto simp: less_eq_QueueState_def less_QueueState_def)

end

lemma severity [simp]: "Healthy \<le> q" "q \<le> Corrupt" "Corrupt \<le> q \<longleftrightarrow> q = Corrupt" "q \<le> Healthy \<longleftrightarrow> q = Healthy"
  by (cases q; simp add: less_eq_QueueState_def)+

lemma degrade_to_max: "ring_state (degrade_to q r) = max q (ring_state r)"
  by (cases q; cases "ring_state r") (simp_all add: degrade_to_state max_def less_eq_QueueState_def)

lemma should_warn_now_state [simp]: "ring_state (fst (should_warn_now h now r)) = ring_state r"
  by (simp add: should_warn_now_def ring_state_def)

lemma counters_state [simp]:
  "ring_state (r\<lparr>rg_rejected := a\<rparr>) = ring_state r"
  "ring_state (r\<lparr>rg_durable_only := a\<rparr>) = ring_state r"
  "ring_state (r\<lparr>rg_journaled := a\<rparr>) = ring_state r"
  "ring_state (r\<lparr>rg_journal_failures := a\<rparr>) = ring_state r"
  "ring_state (r\<lparr>rg_tail := a\<rparr>) = ring_state r"
  "ring_state (r\<lparr>rg_acknowledged := a\<rparr>) = ring_state r"
  by (simp_all add: ring_state_def)

lemma ring_state_set [simp]: "ring_state (r\<lparr>rg_state := x\<rparr>) = queue_state_from_raw x"
  by (simp add: ring_state_def)

lemma try_enqueue_state:
  assumes "ring_inv r"
  shows "ring_state (fst (try_enqueue i u ts k f g r)) =
    (if ring_state r = Corrupt then Corrupt
     else if length (ring_list r) = USABLE_CAPACITY then Overflowed
     else if rg_next_seq r = U64_MAX then Corrupt
     else ring_state r)"
proof -
  have q: "x \<noteq> Corrupt \<Longrightarrow> x \<noteq> Healthy \<Longrightarrow> x = Overflowed" for x by (cases x) auto
  show ?thesis
    using assms q [of "ring_state r"]
    by (simp add: try_enqueue_def Let_def ring_inv_full_iff case_prod_beta degrade_to_state)
      (simp add: ring_state_def)
qed

text \<open>Producers and claims never improve the state; an acknowledgement only ends an overflow.\<close>

lemma queue_severity:
  "ring_state r \<le> ring_state (fst (try_enqueue i u ts k f g r))" "ring_state r \<le> ring_state (fst (claim r))"
  "ring_state r = Overflowed \<or> ring_state r \<le> ring_state (fst (ack t r))"
proof -
  have "ring_state (r\<lparr>rg_next_seq := n, rg_events := es, rg_head := h, rg_accepted := c\<rparr>) = ring_state r" for n es h c
    by (simp add: ring_state_def)
  then show "ring_state r \<le> ring_state (fst (try_enqueue i u ts k f g r))"
    by (simp add: try_enqueue_def Let_def case_prod_beta degrade_to_max)
  show "ring_state r \<le> ring_state (fst (claim r))" by (simp add: claim_def Let_def degrade_to_max)
  show "ring_state r = Overflowed \<or> ring_state r \<le> ring_state (fst (ack t r))" by (simp add: ack_def Let_def degrade_to_max)
qed

lemma ack_state:
  assumes "ring_inv r"
  shows "ring_state (fst (ack t r)) =
    (if snd (ack t r) = Acknowledged \<and> length (ring_list r) = 1 \<and> ring_state r = Overflowed
     then Healthy else ring_state r)"
proof (cases "snd (ack t r) = Acknowledged")
  case True
  note a = ack_acknowledged [OF assms True]
  have "rg_head (fst (ack t r)) = rg_tail (fst (ack t r)) \<longleftrightarrow> length (ring_list r) = 1"
    using ring_inv_empty_iff [OF ack_inv [OF assms]] ack_list [OF assms] True a(2)
    by (metis length_0_conv length_tl One_nat_def Suc_pred length_greater_0_conv diff_self_eq_0)
  moreover have "rg_head (fst (ack t r)) = rg_head r"
    "rg_tail (fst (ack t r)) = advance (rg_tail r)"
    using a(1) by (simp_all add: ring_core_def)
  ultimately show ?thesis
    using assms True by (auto simp: ack_def Let_def split: if_splits)
qed (use assms in \<open>simp add: ack_stale\<close>)

section \<open>Properties of the ring\<close>

text \<open>
  Offering an event to the ring is a bounded FIFO append. A ring that keeps its
  invariant keeps it; the outcome is decided by the state, the fill level and the sequence
  counter; exactly an accepted event is appended at the end, with the next sequence number; and a
  producer never disturbs the entry the consumer has claimed.
\<close>

theorem try_enqueue_refines_fifo:
  assumes "ring_inv r"
    and "try_enqueue i u ts k f g r = (r', step)"
  shows "ring_inv r'
    \<and> st_outcome step =
        (if ring_state r = Corrupt then EnqueueUnavailable
         else if length (ring_list r) = USABLE_CAPACITY then DurableOnly
         else if rg_next_seq r = U64_MAX then EnqueueUnavailable
         else Enqueued)
    \<and> ring_list r' = ring_list r @ (if st_outcome step = Enqueued
        then [offered_event i u ts k f g (rg_next_seq r)] else [])
    \<and> length (ring_list r') \<le> USABLE_CAPACITY
    \<and> (ring_list r \<noteq> [] \<longrightarrow> snd (claim r') = snd (claim r))"
proof (intro conjI impI)
  show inv: "ring_inv r'" using try_enqueue_inv [OF assms(1)] assms(2) by (metis fst_conv)
  show "st_outcome step =
      (if ring_state r = Corrupt then EnqueueUnavailable
       else if length (ring_list r) = USABLE_CAPACITY then DurableOnly
       else if rg_next_seq r = U64_MAX then EnqueueUnavailable
       else Enqueued)"
    using try_enqueue_outcome [OF assms(1), of i u ts k f g] unfolding assms(2) by simp
  show l: "ring_list r' = ring_list r @ (if st_outcome step = Enqueued
      then [offered_event i u ts k f g (rg_next_seq r)] else [])"
    using try_enqueue_list [OF assms(1), of i u ts k f g] unfolding assms(2) by simp
  show "length (ring_list r') \<le> USABLE_CAPACITY"
    using inv unfolding ring_list_length ring_inv_depth [OF inv] USABLE_CAPACITY_def ring_inv_def
    by linarith
  have "rg_tail r' = rg_tail r"
    using assms try_enqueue_accepted(1) [OF assms(1), of i u ts k f g]
      try_enqueue_refused [of i u ts k f g r]
    by (cases "st_outcome step = Enqueued") (simp_all add: ring_core_def)
  then show "snd (claim r') = snd (claim r)" if "ring_list r \<noteq> []"
    using claim_result [OF assms(1)] claim_result [OF inv] l that by (auto split: list.splits)
qed

theorem try_enqueue_refines_fifo_witness:
  "ring_list (fst (try_enqueue [] EMPTY_USERNAME 5 EVENT_KIND_FAILURE 0 0 ring_new)) =
     [offered_event [] EMPTY_USERNAME 5 EVENT_KIND_FAILURE 0 0 1]"
proof -
  have "rg_next_seq ring_new = 1" "ring_state ring_new = Healthy"
    by (simp_all add: ring_new_def ring_state_def)
  then show ?thesis
    using try_enqueue_refines_fifo [OF ring_new_inv prod.collapse [symmetric],
        of "[]" EMPTY_USERNAME 5 EVENT_KIND_FAILURE 0 0] RING_SLOTS_gt1
    by (simp add: ring_new_list U64_MAX_def USABLE_CAPACITY_def)
qed

text \<open>
  Over any interleaving of offers and acknowledgements, what has been acknowledged
  followed by what is still in the ring is what was in the ring followed by what was accepted: every
  accepted event is delivered in order, none is lost, duplicated or overwritten.
\<close>

theorem ring_fifo_exactly_once:
  assumes "ring_inv r" and "ring_exec ops r = (r', acc, del)"
  shows "ring_inv r' \<and> del @ ring_list r' = ring_list r @ acc"
  using assms ring.run_fifo ring.run_inv unfolding ring_exec_run by blast

theorem ring_fifo_exactly_once_witness:
  "\<exists>r' acc del. ring_exec [Offer ([], EMPTY_USERNAME, 5, EVENT_KIND_FAILURE, 0, 0),
      Acknowledge \<lparr>tk_slot = 0, tk_seq = 1\<rparr>] ring_new = (r', acc, del)
     \<and> ring_inv r' \<and> del @ ring_list r' = acc"
  using ring_fifo_exactly_once [OF ring_new_inv, of "[Offer ([], EMPTY_USERNAME, 5,
      EVENT_KIND_FAILURE, 0, 0), Acknowledge \<lparr>tk_slot = 0, tk_seq = 1\<rparr>]"]
  unfolding ring_new_list by (metis append_Nil prod_cases3)


text \<open>One event in a fresh ring, and the token that claims it.\<close>

definition one_event_ring :: AuthEventRing where
  "one_event_ring = fst (try_enqueue [] EMPTY_USERNAME 5 EVENT_KIND_FAILURE 0 0 ring_new)"

lemma one_event_ring:
  "ring_inv one_event_ring"
  "ring_list one_event_ring = [offered_event [] EMPTY_USERNAME 5 EVENT_KIND_FAILURE 0 0 1]"
  "rg_tail one_event_ring = 0"
  "ring_state one_event_ring = Healthy"
proof -
  have n: "rg_next_seq ring_new = 1" "ring_state ring_new = Healthy" "rg_tail ring_new = 0"
    by (simp_all add: ring_new_def ring_state_def)
  have out: "st_outcome (snd (try_enqueue [] EMPTY_USERNAME 5 EVENT_KIND_FAILURE 0 0 ring_new)) = Enqueued"
    unfolding try_enqueue_outcome [OF ring_new_inv] using n RING_SLOTS_gt1
    by (simp add: ring_new_list U64_MAX_def USABLE_CAPACITY_def)
  show "ring_inv one_event_ring" unfolding one_event_ring_def by (intro try_enqueue_inv ring_new_inv)
  show "ring_list one_event_ring = [offered_event [] EMPTY_USERNAME 5 EVENT_KIND_FAILURE 0 0 1]"
    unfolding one_event_ring_def try_enqueue_list [OF ring_new_inv] using out n
    by (simp add: ring_new_list)
  show "rg_tail one_event_ring = 0"
    unfolding one_event_ring_def try_enqueue_accepted(1) [OF ring_new_inv out] using n by simp
  show "ring_state one_event_ring = Healthy"
    using out unfolding one_event_ring_def try_enqueue_accepted(1) [OF ring_new_inv out]
    using n by (simp add: ring_state_def)
qed

lemma one_event_claim:
  "snd (claim one_event_ring) = Some (\<lparr>tk_slot = 0, tk_seq = 1\<rparr>,
     offered_event [] EMPTY_USERNAME 5 EVENT_KIND_FAILURE 0 0 1)"
  "snd (ack \<lparr>tk_slot = 0, tk_seq = 1\<rparr> one_event_ring) = Acknowledged"
  by (simp_all add: claim_result ack_outcome one_event_ring offered_event_def)


text \<open>
  Overload is recoverable and corruption is not. A full ring answers by turning
  \<open>Overflowed\<close>, an overflowed ring becomes healthy exactly when the acknowledgement that empties it
  succeeds, and no ring operation ever leaves \<open>Corrupt\<close>.
\<close>

theorem ring_health_transitions:
  assumes "ring_inv r"
  shows "(ring_state r \<noteq> Corrupt \<and> length (ring_list r) = USABLE_CAPACITY \<longrightarrow>
      ring_state (fst (try_enqueue i u ts k f g r)) = Overflowed)
    \<and> (ring_state r = Overflowed \<longrightarrow>
      ring_state (fst (ack t r)) = Healthy \<longleftrightarrow>
        snd (ack t r) = Acknowledged \<and> ring_list (fst (ack t r)) = [])
    \<and> (ring_state r = Healthy \<longrightarrow> ring_state (fst (ack t r)) = Healthy)
    \<and> (ring_state r = Corrupt \<longrightarrow> ring_state (fst (try_enqueue i u ts k f g r)) = Corrupt
      \<and> ring_state (fst (ack t r)) = Corrupt \<and> ring_state (fst (claim r)) = Corrupt)"
proof -
  have "ring_state (fst (ack t r)) = Healthy \<longleftrightarrow>
        snd (ack t r) = Acknowledged \<and> ring_list (fst (ack t r)) = []"
    if "ring_state r = Overflowed"
    using ack_acknowledged(2) [OF assms, of t] that
    by (auto simp: ack_state [OF assms] ack_list [OF assms] tl_Nil length_Suc_conv
        simp del: ring_list_length)
  then show ?thesis using assms by (simp add: try_enqueue_state ack_state)
qed

theorem ring_health_transitions_witness:
  "ring_state (fst (ack \<lparr>tk_slot = 0, tk_seq = 1\<rparr> (degrade_to Overflowed one_event_ring))) = Healthy
   \<and> ring_state (degrade_to Overflowed one_event_ring) = Overflowed"
proof -
  let ?r = "degrade_to Overflowed one_event_ring"
  have inv: "ring_inv ?r" and l: "ring_list ?r = ring_list one_event_ring"
    using ring_core_inv ring_core_list degrade_to_core one_event_ring(1) by blast+
  have s: "ring_state ?r = Overflowed" by (simp add: degrade_to_state one_event_ring)
  have t: "rg_tail ?r = 0" using degrade_to_core [of Overflowed one_event_ring]
    by (simp add: ring_core_def one_event_ring)
  have "snd (ack \<lparr>tk_slot = 0, tk_seq = 1\<rparr> ?r) = Acknowledged"
    by (simp add: ack_outcome [OF inv] l one_event_ring t offered_event_def)
  then show ?thesis
    using ring_health_transitions [OF inv] s by (simp add: ack_list [OF inv] l one_event_ring)
qed

end
