(* ===== verification/Journal.thy ===== *)
theory Journal
  imports Auth_Event
begin

text \<open>
  The durable event journal of \<^verbatim>\<open>auth_journal.rs\<close>: the fixed-size record format, the active and
  the processing file, append, rotation, the reader and verification. SipHash is a parameter
  \<open>sip\<close> (two keys and the bytes); every file-system call takes its outcome from a record of
  outcomes, so that each early return of the source is a branch of the model.
\<close>

section \<open>Data\<close>

definition MAGIC :: "byte list" where "MAGIC = [0x50, 0x50, 0x4A, 0x31]"
definition RECORD_SIZE :: nat where "RECORD_SIZE = 112"
definition CHECKSUM_OFFSET :: nat where "CHECKSUM_OFFSET = RECORD_SIZE - 8"
definition HASH_KEY_0 :: "64 word" where "HASH_KEY_0 = 0x70617373776f7264"
definition HASH_KEY_1 :: "64 word" where "HASH_KEY_1 = 0x70726f66696c6531"

type_synonym siphash = "64 word \<Rightarrow> 64 word \<Rightarrow> byte list \<Rightarrow> 64 word"

datatype IoError = NotFound | UnexpectedEof | OtherIo

datatype JournalError = Io IoError | JournalCorrupt string

text \<open>The two journal files (\<open>None\<close> when absent), and whether the data directory is known.\<close>

record journal_fs =
  jf_data_dir :: bool
  jf_active :: "byte list option"
  jf_processing :: "byte list option"

section \<open>The record format\<close>

definition checksum :: "siphash \<Rightarrow> byte list \<Rightarrow> 64 word" where
  "checksum sip bytes = sip HASH_KEY_0 HASH_KEY_1 bytes"

definition slice :: "nat \<Rightarrow> nat \<Rightarrow> 'a list \<Rightarrow> 'a list" where
  "slice a b xs = take (b - a) (drop a xs)"

definition record_body :: "SharedAuthEvent \<Rightarrow> byte list" where
  "record_body event =
     MAGIC @ ev_event_id event @ ev_username event @ i64_to_le_bytes (ev_timestamp event)
     @ i64_to_le_bytes (ev_generation event) @ [ev_kind event, ev_flags event] @ [0, 0]"

definition encode :: "siphash \<Rightarrow> SharedAuthEvent \<Rightarrow> byte list" where
  "encode sip event =
     (let body = record_body event in body @ le_bytes 8 (unat (checksum sip body)))"

definition decode :: "siphash \<Rightarrow> byte list \<Rightarrow> JournalError + SharedAuthEvent" where
  "decode sip bytes =
     (if slice 0 4 bytes \<noteq> MAGIC
      then Inl (JournalCorrupt ''auth journal record has an invalid header'')
      else if checksum sip (take CHECKSUM_OFFSET bytes) \<noteq> word_of_nat (from_le (drop CHECKSUM_OFFSET bytes))
      then Inl (JournalCorrupt ''auth journal record checksum mismatch'')
      else
        let event = \<lparr> ev_event_id = slice 4 20 bytes,
              ev_username = slice 20 (20 + LOCK_USERNAME_BYTES) bytes,
              ev_timestamp = i64_from_le_bytes (slice 84 92 bytes), ev_seq = 0,
              ev_kind = bytes ! 100, ev_generation = i64_from_le_bytes (slice 92 100 bytes),
              ev_flags = bytes ! 101 \<rparr>;
            name = takeWhile (\<lambda>b. b \<noteq> 0) (ev_username event)
        in if name = [] \<or> \<not> utf8_valid name
           then Inl (JournalCorrupt ''auth journal record has an invalid username'')
           else if kind_from_raw (ev_kind event) = None
           then Inl (JournalCorrupt ''auth journal record has an unknown event kind'')
           else if flags_from_raw (ev_flags event) = None
           then Inl (JournalCorrupt ''auth journal record has unknown event flags'')
           else Inr event)"

section \<open>File operations\<close>

text \<open>
  Outcomes of the system calls of \<^verbatim>\<open>append\<close>: \<open>ap_written = Some k\<close> is a failed write that left
  \<open>k\<close> bytes of the record in the file.
\<close>

record append_io =
  ap_open_ok :: bool
  ap_metadata_ok :: bool
  ap_mode_private :: bool
  ap_written :: "nat option"
  ap_sync_ok :: bool
  ap_dir_sync_ok :: bool

definition append_ok :: append_io where
  "append_ok = \<lparr>ap_open_ok = True, ap_metadata_ok = True, ap_mode_private = True,
     ap_written = None, ap_sync_ok = True, ap_dir_sync_ok = True\<rparr>"

definition no_data_dir :: JournalError where
  "no_data_dir = JournalCorrupt ''PostgreSQL data directory is unavailable''"

definition journal_append ::
  "siphash \<Rightarrow> append_io \<Rightarrow> SharedAuthEvent \<Rightarrow> journal_fs \<Rightarrow> journal_fs \<times> (JournalError + unit)" where
  "journal_append sip io event fs =
     (if \<not> jf_data_dir fs then (fs, Inl no_data_dir)
      else
        let new_file = (jf_active fs = None) in
        if \<not> ap_open_ok io then (fs, Inl (Io OtherIo))
        else
          let content = (case jf_active fs of None \<Rightarrow> [] | Some c \<Rightarrow> c);
              fs1 = fs\<lparr>jf_active := Some content\<rparr>
          in if \<not> ap_metadata_ok io then (fs1, Inl (Io OtherIo))
             else if \<not> ap_mode_private io
             then (fs1, Inl (JournalCorrupt ''auth journal permissions must not grant group or other access''))
             else case ap_written io of
               Some k \<Rightarrow> (fs\<lparr>jf_active := Some (content @ take k (encode sip event))\<rparr>, Inl (Io OtherIo))
             | None \<Rightarrow>
                 let fs2 = fs\<lparr>jf_active := Some (content @ encode sip event)\<rparr>
                 in if \<not> ap_sync_ok io then (fs2, Inl (Io OtherIo))
                    else if new_file \<and> \<not> ap_dir_sync_ok io then (fs2, Inl (Io OtherIo))
                    else (fs2, Inr ()))"

record rotate_io =
  ro_metadata :: "IoError option"
  ro_rename_ok :: bool
  ro_dir_sync_ok :: bool

definition rotate_ok :: rotate_io where
  "rotate_ok = \<lparr>ro_metadata = None, ro_rename_ok = True, ro_dir_sync_ok = True\<rparr>"

text \<open>The path returned is the processing file's; \<open>Inr True\<close> stands for \<^verbatim>\<open>Ok(Some(processing))\<close>.\<close>

definition journal_rotate :: "rotate_io \<Rightarrow> journal_fs \<Rightarrow> journal_fs \<times> (JournalError + bool)" where
  "journal_rotate io fs =
     (if \<not> jf_data_dir fs then (fs, Inl no_data_dir)
      else if jf_processing fs \<noteq> None then (fs, Inr True)
      else case ro_metadata io of
        Some e \<Rightarrow> if e = NotFound then (fs, Inr False) else (fs, Inl (Io e))
      | None \<Rightarrow>
          (case jf_active fs of
             None \<Rightarrow> (fs, Inr False)
           | Some content \<Rightarrow>
               if content = [] then (fs, Inr False)
               else if \<not> ro_rename_ok io then (fs, Inl (Io OtherIo))
               else let fs1 = fs\<lparr>jf_active := None, jf_processing := Some content\<rparr>
                    in if \<not> ro_dir_sync_ok io then (fs1, Inl (Io OtherIo)) else (fs1, Inr True)))"

record JournalReader =
  jr_inner :: "byte list"
  jr_complete_records :: nat
  jr_read_records :: nat

record reader_io =
  rd_open :: "IoError option"
  rd_metadata_ok :: bool
  rd_set_len_ok :: bool
  rd_sync_ok :: bool
  rd_read_ok :: "nat \<Rightarrow> bool"

definition reader_ok :: reader_io where
  "reader_ok = \<lparr>rd_open = None, rd_metadata_ok = True, rd_set_len_ok = True, rd_sync_ok = True,
     rd_read_ok = (\<lambda>_. True)\<rparr>"

text \<open>Opening a file: its new content (a torn tail is cut off) and the reader.\<close>

definition reader_open :: "reader_io \<Rightarrow> byte list \<Rightarrow> byte list \<times> (JournalError + JournalReader)" where
  "reader_open io content =
     (case rd_open io of
        Some e \<Rightarrow> (content, Inl (Io e))
      | None \<Rightarrow>
          if \<not> rd_metadata_ok io then (content, Inl (Io OtherIo))
          else
            let len = length content; complete_len = len - len mod RECORD_SIZE;
                torn = (complete_len \<noteq> len);
                content1 = (if torn \<and> rd_set_len_ok io then take complete_len content else content)
            in if torn \<and> \<not> (rd_set_len_ok io \<and> rd_sync_ok io) then (content1, Inl (Io OtherIo))
               else (content1, Inr \<lparr>jr_inner = content1,
                       jr_complete_records = complete_len div RECORD_SIZE, jr_read_records = 0\<rparr>))"

definition next_event ::
  "siphash \<Rightarrow> reader_io \<Rightarrow> JournalReader \<Rightarrow> JournalReader \<times> (JournalError + SharedAuthEvent option)" where
  "next_event sip io rd =
     (if jr_read_records rd = jr_complete_records rd then (rd, Inr None)
      else if \<not> rd_read_ok io (jr_read_records rd) then (rd, Inl (Io OtherIo))
      else if length (jr_inner rd) < RECORD_SIZE then (rd\<lparr>jr_inner := []\<rparr>, Inl (Io UnexpectedEof))
      else
        let bytes = take RECORD_SIZE (jr_inner rd);
            rd1 = rd\<lparr>jr_inner := drop RECORD_SIZE (jr_inner rd),
                     jr_read_records := jr_read_records rd + 1\<rparr>
        in (rd1, map_sum id Some (decode sip bytes)))"

text \<open>
  A client's \<^verbatim>\<open>while let Some(event) = reader.next_event()?\<close> loop: the events read, in order. The fuel
  bounds the iterations; \<open>None\<close> means it ran out.
\<close>

fun read_all :: "siphash \<Rightarrow> reader_io \<Rightarrow> nat \<Rightarrow> JournalReader
    \<Rightarrow> (JournalError + SharedAuthEvent list) option" where
  "read_all sip io 0 rd = None"
| "read_all sip io (Suc n) rd =
     (case next_event sip io rd of
        (rd1, Inl e) \<Rightarrow> Some (Inl e)
      | (rd1, Inr None) \<Rightarrow> Some (Inr [])
      | (rd1, Inr (Some ev)) \<Rightarrow> map_option (map_sum id ((#) ev)) (read_all sip io n rd1))"

definition remove_processing :: "bool \<Rightarrow> bool \<Rightarrow> journal_fs \<Rightarrow> journal_fs \<times> (JournalError + unit)" where
  "remove_processing remove_ok dir_sync_ok fs =
     (if \<not> remove_ok \<or> jf_processing fs = None then (fs, Inl (Io OtherIo))
      else let fs1 = fs\<lparr>jf_processing := None\<rparr>
           in if \<not> jf_data_dir fs then (fs1, Inl no_data_dir)
              else if \<not> dir_sync_ok then (fs1, Inl (Io OtherIo)) else (fs1, Inr ()))"

text \<open>Verification of one file: its new content, and an error or the events it holds.\<close>

definition verify_file :: "siphash \<Rightarrow> reader_io \<Rightarrow> byte list option
    \<Rightarrow> byte list option \<times> (JournalError + unit) option" where
  "verify_file sip io file =
     (case file of
        None \<Rightarrow> (None, Some (Inr ()))
      | Some content \<Rightarrow>
          (case reader_open io content of
             (content1, Inl e) \<Rightarrow> (Some content1, Some (Inl e))
           | (content1, Inr rd) \<Rightarrow>
               (Some content1, map_option (map_sum id (\<lambda>_. ()))
                  (read_all sip io (Suc (jr_complete_records rd)) rd))))"

definition verify_pending :: "siphash \<Rightarrow> reader_io \<Rightarrow> reader_io \<Rightarrow> journal_fs
    \<Rightarrow> journal_fs \<times> (JournalError + unit) option" where
  "verify_pending sip io_processing io_active fs =
     (if \<not> jf_data_dir fs then (fs, Some (Inl no_data_dir))
      else
        let (processing, res) = verify_file sip io_processing (jf_processing fs);
            fs1 = fs\<lparr>jf_processing := processing\<rparr>
        in if res \<noteq> Some (Inr ()) then (fs1, res)
           else let (active, res2) = verify_file sip io_active (jf_active fs1)
                in (fs1\<lparr>jf_active := active\<rparr>, res2))"

record JournalStats =
  js_pending_bytes :: int
  js_pending_records :: int

definition count_file :: "byte list option \<Rightarrow> JournalStats \<Rightarrow> JournalStats" where
  "count_file file st =
     (case file of
        None \<Rightarrow> st
      | Some content \<Rightarrow>
          let len = min (int (length content)) I64_MAX
          in st\<lparr>js_pending_bytes := saturating_i64 (js_pending_bytes st + len),
                js_pending_records := saturating_i64 (js_pending_records st + len div int RECORD_SIZE)\<rparr>)"

definition journal_stats :: "journal_fs \<Rightarrow> JournalStats" where
  "journal_stats fs =
     (let result = \<lparr>js_pending_bytes = 0, js_pending_records = 0\<rparr>
      in if \<not> jf_data_dir fs then result
         else count_file (jf_active fs) (count_file (jf_processing fs) result))"

section \<open>Round trip of a record\<close>

text \<open>An event as the producers build it: fixed-size buffers and 64-bit timestamps.\<close>

definition event_wf :: "SharedAuthEvent \<Rightarrow> bool" where
  "event_wf e \<longleftrightarrow> length (ev_event_id e) = 16 \<and> length (ev_username e) = LOCK_USERNAME_BYTES
     \<and> is_i64 (ev_timestamp e) \<and> is_i64 (ev_generation e)"

definition event_valid :: "SharedAuthEvent \<Rightarrow> bool" where
  "event_valid e \<longleftrightarrow> event_wf e \<and> username_from_bytes (ev_username e) \<noteq> None
     \<and> kind_from_raw (ev_kind e) \<noteq> None \<and> flags_from_raw (ev_flags e) \<noteq> None"

lemma slice_append:
  "length xs = a \<Longrightarrow> length ys = b - a \<Longrightarrow> slice a b (xs @ ys @ zs) = ys"
  by (simp add: slice_def)

lemma record_body_length: "event_wf e \<Longrightarrow> length (record_body e) = CHECKSUM_OFFSET"
  by (simp add: record_body_def MAGIC_def event_wf_def CHECKSUM_OFFSET_def RECORD_SIZE_def
      LOCK_USERNAME_BYTES_def)

lemma encode_length: "event_wf e \<Longrightarrow> length (encode sip e) = RECORD_SIZE"
  using record_body_length [of e] by (simp add: encode_def Let_def CHECKSUM_OFFSET_def RECORD_SIZE_def)

text \<open>The fields of an encoded record sit where \<^verbatim>\<open>decode\<close> reads them.\<close>

lemma encode_slices:
  assumes "event_wf e"
  shows "slice 0 4 (encode sip e) = MAGIC"
    and "slice 4 20 (encode sip e) = ev_event_id e"
    and "slice 20 (20 + LOCK_USERNAME_BYTES) (encode sip e) = ev_username e"
    and "slice 84 92 (encode sip e) = i64_to_le_bytes (ev_timestamp e)"
    and "slice 92 100 (encode sip e) = i64_to_le_bytes (ev_generation e)"
    and "encode sip e ! 100 = ev_kind e"
    and "encode sip e ! 101 = ev_flags e"
proof -
  let ?b = "record_body e" and ?c = "le_bytes 8 (unat (checksum sip (record_body e)))"
  have len: "length (ev_event_id e) = 16" "length (ev_username e) = 64" "length MAGIC = 4"
    using assms by (simp_all add: event_wf_def LOCK_USERNAME_BYTES_def MAGIC_def)
  have split: "encode sip e = MAGIC @ ev_event_id e @ ev_username e
      @ i64_to_le_bytes (ev_timestamp e) @ i64_to_le_bytes (ev_generation e)
      @ ev_kind e # ev_flags e # 0 # 0 # ?c"
    by (simp add: encode_def Let_def record_body_def)
  note simps = split slice_def len LOCK_USERNAME_BYTES_def nth_append
  show "slice 0 4 (encode sip e) = MAGIC"
    and "slice 4 20 (encode sip e) = ev_event_id e"
    and "slice 20 (20 + LOCK_USERNAME_BYTES) (encode sip e) = ev_username e"
    and "slice 84 92 (encode sip e) = i64_to_le_bytes (ev_timestamp e)"
    and "slice 92 100 (encode sip e) = i64_to_le_bytes (ev_generation e)"
    and "encode sip e ! 100 = ev_kind e"
    and "encode sip e ! 101 = ev_flags e"
    by (simp_all add: simps)
qed

lemma encode_checksum:
  assumes "event_wf e"
  shows "checksum sip (take CHECKSUM_OFFSET (encode sip e)) =
    word_of_nat (from_le (drop CHECKSUM_OFFSET (encode sip e)))"
proof -
  let ?sum = "checksum sip (record_body e)"
  have "take CHECKSUM_OFFSET (encode sip e) = record_body e"
    and "drop CHECKSUM_OFFSET (encode sip e) = le_bytes 8 (unat ?sum)"
    using record_body_length [OF assms] by (simp_all add: encode_def Let_def)
  moreover have "unat ?sum < 256 ^ 8" using unsigned_less [of ?sum] by simp
  then have "from_le (le_bytes 8 (unat ?sum)) = unat ?sum" by (simp only: from_le_le_bytes mod_less)
  ultimately show ?thesis by simp
qed

lemma decode_encode:
  assumes "event_valid e"
  shows "decode sip (encode sip e) = Inr (e\<lparr>ev_seq := 0\<rparr>)"
proof -
  have wf: "event_wf e" using assms by (simp add: event_valid_def)
  have ts: "i64_from_le_bytes (i64_to_le_bytes (ev_timestamp e)) = ev_timestamp e"
    and gen: "i64_from_le_bytes (i64_to_le_bytes (ev_generation e)) = ev_generation e"
    using wf by (simp_all add: event_wf_def i64_le_bytes_roundtrip)
  have name: "takeWhile (\<lambda>b. b \<noteq> 0) (ev_username e) \<noteq> []"
    "utf8_valid (takeWhile (\<lambda>b. b \<noteq> 0) (ev_username e))"
    using assms by (auto simp: event_valid_def username_from_bytes_def Let_def split: if_splits)
  show ?thesis
    unfolding decode_def encode_slices [OF wf] encode_checksum [OF wf] ts gen
    using name assms by (simp add: event_valid_def Let_def)
qed

lemma decode_header:
  "take 4 bytes \<noteq> MAGIC \<Longrightarrow>
    decode sip bytes = Inl (JournalCorrupt ''auth journal record has an invalid header'')"
  by (simp add: decode_def slice_def)

text \<open>Whatever \<^verbatim>\<open>decode\<close> accepts is an event the rest of the program can interpret.\<close>

lemma decode_valid:
  assumes "length bytes = RECORD_SIZE" and "decode sip bytes = Inr e"
  shows "event_valid e" and "ev_seq e = 0"
proof -
  have i64: "is_i64 (i64_from_le_bytes bs)" for bs
    by (simp add: i64_from_le_bytes_def wrap_i64_range)
  show "event_valid e"
    using assms i64
    by (auto simp: decode_def Let_def event_valid_def event_wf_def username_from_bytes_def
        slice_def RECORD_SIZE_def LOCK_USERNAME_BYTES_def split: if_splits)
  show "ev_seq e = 0" using assms(2) by (auto simp: decode_def Let_def split: if_splits)
qed

section \<open>The reader\<close>

definition records :: "siphash \<Rightarrow> SharedAuthEvent list \<Rightarrow> byte list" where
  "records sip es = concat (map (encode sip) es)"

definition durable :: "SharedAuthEvent \<Rightarrow> SharedAuthEvent" where
  "durable e = e\<lparr>ev_seq := 0\<rparr>"

lemma records_Nil [simp]: "records sip [] = []"
  and records_Cons [simp]: "records sip (e # es) = encode sip e @ records sip es"
  and records_append [simp]: "records sip (xs @ ys) = records sip xs @ records sip ys"
  by (simp_all add: records_def)

lemma RECORD_SIZE_pos [simp]: "0 < RECORD_SIZE"
  by (simp add: RECORD_SIZE_def)

lemma event_valid_wf: "event_valid e \<Longrightarrow> event_wf e"
  by (simp add: event_valid_def)

lemma records_length:
  "\<forall>e \<in> set es. event_wf e \<Longrightarrow> length (records sip es) = length es * RECORD_SIZE"
  by (induction es) (auto simp: encode_length)

lemma reader_open_complete:
  assumes "length content = n * RECORD_SIZE + k" and "k < RECORD_SIZE"
  shows "reader_open reader_ok content = (take (n * RECORD_SIZE) content,
    Inr \<lparr>jr_inner = take (n * RECORD_SIZE) content, jr_complete_records = n, jr_read_records = 0\<rparr>)"
proof -
  have m: "(n * RECORD_SIZE + k) mod RECORD_SIZE = k" using assms(2) by simp
  have d: "n * RECORD_SIZE div RECORD_SIZE = n" by simp
  have c: "n * RECORD_SIZE + k - k = n * RECORD_SIZE" by simp
  show ?thesis
    unfolding reader_open_def Let_def assms(1) m c d using assms(1)
    by (cases "k = 0") (simp_all add: reader_ok_def)
qed

lemma reader_open_records:
  assumes "\<forall>e \<in> set es. event_wf e" and "length torn < RECORD_SIZE"
  shows "reader_open reader_ok (records sip es @ torn) =
    (records sip es, Inr \<lparr>jr_inner = records sip es, jr_complete_records = length es,
       jr_read_records = 0\<rparr>)"
  using reader_open_complete [OF _ assms(2), of "records sip es @ torn" "length es"]
  by (simp add: records_length [OF assms(1)])

lemma read_all_records:
  assumes "\<forall>e \<in> set es. event_valid e"
  shows "read_all sip reader_ok (Suc (length es + n)) \<lparr>jr_inner = records sip es @ rest,
      jr_complete_records = k + length es, jr_read_records = k\<rparr> = Some (Inr (map durable es))"
  using assms
proof (induction es arbitrary: k)
  case Nil
  then show ?case by (simp add: next_event_def)
next
  case (Cons e es)
  then have "decode sip (encode sip e) = Inr (durable e)" and "length (encode sip e) = RECORD_SIZE"
    by (simp_all add: decode_encode durable_def encode_length event_valid_wf)
  moreover have "rd_read_ok reader_ok k" by (simp add: reader_ok_def)
  ultimately show ?case
    using Cons.IH [of "k + 1"] Cons.prems by (simp add: next_event_def Let_def)
qed

text \<open>The loop ends: as many iterations as there are unread records, and one more, are enough.\<close>

lemma next_event_progress:
  "next_event sip io rd = (rd1, Inr (Some ev)) \<Longrightarrow>
    jr_read_records rd1 = jr_read_records rd + 1 \<and> jr_complete_records rd1 = jr_complete_records rd
    \<and> jr_read_records rd \<noteq> jr_complete_records rd"
  by (auto simp: next_event_def Let_def split: if_splits)

lemma read_all_terminates:
  "jr_read_records rd \<le> jr_complete_records rd \<Longrightarrow>
    jr_complete_records rd - jr_read_records rd < n \<Longrightarrow> read_all sip io n rd \<noteq> None"
proof (induction n arbitrary: rd)
  case (Suc n)
  obtain rd1 res where step: "next_event sip io rd = (rd1, res)" by fastforce
  show ?case
  proof (cases res)
    case (Inr o1)
    then show ?thesis
    proof (cases o1)
      case (Some ev)
      from next_event_progress step Inr Some
      have "jr_read_records rd1 = jr_read_records rd + 1"
        "jr_complete_records rd1 = jr_complete_records rd"
        "jr_read_records rd \<noteq> jr_complete_records rd" by blast+
      then have "read_all sip io n rd1 \<noteq> None" using Suc.prems by (intro Suc.IH) linarith+
      then show ?thesis using step Inr Some by simp
    qed (simp add: step)
  qed (simp add: step)
qed simp

lemma reader_open_fresh:
  "reader_open io content = (content1, Inr rd) \<Longrightarrow> jr_read_records rd = 0"
  by (auto simp: reader_open_def Let_def split: option.splits if_splits)

lemma verify_file_terminates: "snd (verify_file sip io f) \<noteq> None"
proof (cases f)
  case (Some content)
  obtain c1 res where o: "reader_open io content = (c1, res)" by fastforce
  show ?thesis
  proof (cases res)
    case (Inr rd)
    then have "read_all sip io (Suc (jr_complete_records rd)) rd \<noteq> None"
      using reader_open_fresh o by (intro read_all_terminates) auto
    then show ?thesis using o Some Inr by (simp add: verify_file_def)
  qed (simp add: verify_file_def Some o)
qed (simp add: verify_file_def)

lemma verify_file_records:
  assumes "\<forall>e \<in> set es. event_valid e" and "length torn < RECORD_SIZE"
  shows "verify_file sip reader_ok (Some (records sip es @ torn)) =
    (Some (records sip es), Some (Inr ()))"
proof -
  have "\<forall>e \<in> set es. event_wf e" using assms(1) by (simp add: event_valid_wf)
  moreover have "read_all sip reader_ok (Suc (length es)) \<lparr>jr_inner = records sip es,
      jr_complete_records = length es, jr_read_records = 0\<rparr> = Some (Inr (map durable es))"
    using read_all_records [OF assms(1), of sip 0 "[]" 0] by simp
  ultimately show ?thesis
    using assms(2) by (simp add: verify_file_def reader_open_records)
qed

text \<open>A record with a wrong header ends the reading loop with an error, whatever precedes it.\<close>

lemma read_all_prefix_error:
  assumes "\<forall>e \<in> set es. event_valid e" and "take 4 body \<noteq> MAGIC" and "length body = RECORD_SIZE"
  shows "read_all sip reader_ok (Suc (Suc (length es))) \<lparr>jr_inner = records sip es @ body,
      jr_complete_records = k + Suc (length es), jr_read_records = k\<rparr> =
    Some (Inl (JournalCorrupt ''auth journal record has an invalid header''))"
  using assms(1)
proof (induction es arbitrary: k)
  case Nil
  then show ?case
    using assms(2,3) by (simp add: next_event_def Let_def decode_header reader_ok_def)
next
  case (Cons e es)
  then have "decode sip (encode sip e) = Inr (durable e)" and "length (encode sip e) = RECORD_SIZE"
    by (simp_all add: decode_encode durable_def encode_length event_valid_wf)
  moreover have "rd_read_ok reader_ok k" by (simp add: reader_ok_def)
  moreover have "read_all sip reader_ok (Suc (Suc (length es))) \<lparr>jr_inner = records sip es @ body,
      jr_complete_records = Suc k + Suc (length es), jr_read_records = Suc k\<rparr> =
    Some (Inl (JournalCorrupt ''auth journal record has an invalid header''))"
    using Cons.prems by (intro Cons.IH) simp
  ultimately show ?case
    by (simp add: next_event_def Let_def)
qed

section \<open>Properties of the journal\<close>

text \<open>
  Property C35: a record written by the producer is read back as the same event, with the ring's
  sequence number reset; it has exactly the fixed record size, whatever the checksum function is.
\<close>

theorem journal_record_roundtrip:
  assumes "event_valid e"
  shows "length (encode sip e) = RECORD_SIZE \<and> decode sip (encode sip e) = Inr (e\<lparr>ev_seq := 0\<rparr>)"
  using assms by (simp add: decode_encode encode_length event_valid_wf)

definition sample_event :: SharedAuthEvent where
  "sample_event = offered_event (replicate 16 7) (encode_username [0x61]) 123
     EVENT_KIND_GRACE_CONSUMED EVENT_FLAG_CLEAR_LOGIN_ATTEMPTS 99 0"

lemma sample_event_valid: "event_valid sample_event"
proof -
  have r: "representable [0x61]" and v: "utf8_valid [0x61]"
    by (simp_all add: representable_def LOCK_USERNAME_BYTES_def utf8_valid.simps(2))
  show ?thesis
    unfolding event_valid_def event_wf_def sample_event_def
    by (simp add: offered_event_def username_from_bytes_encode [OF r v] is_i64_def width_defs
        kind_from_raw_def EVENT_KIND_FAILURE_def EVENT_KIND_SUCCESS_def EVENT_KIND_GRACE_CONSUMED_def
        flags_from_raw_def EVENT_FLAGS_KNOWN_def EVENT_FLAG_CLEAR_LOGIN_ATTEMPTS_def)
qed

lemma sample_event_durable [simp]: "durable sample_event = sample_event"
  by (simp add: durable_def sample_event_def offered_event_def)

theorem journal_record_roundtrip_witness:
  "length (encode (\<lambda>_ _ _. 0) sample_event) = RECORD_SIZE
   \<and> decode (\<lambda>_ _ _. 0) (encode (\<lambda>_ _ _. 0) sample_event) = Inr (sample_event\<lparr>ev_seq := 0\<rparr>)"
  by (rule journal_record_roundtrip [OF sample_event_valid])

text \<open>
  A file of complete records followed by the fragment of a torn append is read as
  exactly those events in order; opening it cuts only the fragment off, and the reading loop
  always ends.
\<close>

theorem journal_reader_reads_all:
  assumes "\<forall>e \<in> set es. event_valid e" and "length torn < RECORD_SIZE"
  shows "\<exists>rd. reader_open reader_ok (records sip es @ torn) = (records sip es, Inr rd)
    \<and> read_all sip reader_ok (Suc (jr_complete_records rd)) rd = Some (Inr (map durable es))"
proof -
  have wf: "\<forall>e \<in> set es. event_wf e" using assms(1) by (simp add: event_valid_wf)
  show ?thesis
    using reader_open_records [OF wf assms(2)] read_all_records [OF assms(1), of sip 0 "[]" 0] by simp
qed

theorem journal_reader_reads_all_witness:
  "\<exists>rd. reader_open reader_ok (records (\<lambda>_ _ _. 0) [sample_event] @ [0x50]) =
       (records (\<lambda>_ _ _. 0) [sample_event], Inr rd)
    \<and> read_all (\<lambda>_ _ _. 0) reader_ok (Suc (jr_complete_records rd)) rd = Some (Inr [sample_event])"
  using journal_reader_reads_all [of "[sample_event]" "[0x50]" "\<lambda>_ _ _. 0"]
  by (simp add: sample_event_valid RECORD_SIZE_def)

text \<open>After a torn record of up to three bytes the next record starts at the wrong place.\<close>

lemma torn_tail_header:
  assumes "event_wf e1" and "event_wf e2" and "k \<in> {1, 2, 3}"
  shows "take 4 (take k (encode sip e1) @ encode sip e2) \<noteq> MAGIC"
proof -
  have head: "take 4 (encode sip e) = MAGIC" if "event_wf e" for e
    using encode_slices(1) [OF that] by (simp add: slice_def)
  have "take k (encode sip e1) = take k (take 4 (encode sip e1))" using assms(3) by (auto simp: min_def)
  then have tk: "take k (encode sip e1) = take k MAGIC" unfolding head [OF assms(1)] .
  have "take 4 (take k MAGIC @ encode sip e2) = take 4 (take k MAGIC @ take 4 (encode sip e2))"
    using assms(3) by (auto simp: MAGIC_def)
  then show ?thesis using assms(3) head [OF assms(2)] unfolding tk by (auto simp: MAGIC_def)
qed



text \<open>The bytes of the two files in the order they are replayed.\<close>

definition journal_bytes :: "journal_fs \<Rightarrow> byte list" where
  "journal_bytes fs = (case jf_processing fs of None \<Rightarrow> [] | Some p \<Rightarrow> p)
     @ (case jf_active fs of None \<Rightarrow> [] | Some a \<Rightarrow> a)"

text \<open>
  Rotation loses nothing. Whatever the file system answers, a rotation leaves the
  bytes of the two files, in replay order, as they were, never replaces a batch that is still being
  processed, and hands out the processing file only when there is one with a record to replay.
\<close>

theorem journal_rotate_preserves:
  "journal_bytes (fst (journal_rotate io fs)) = journal_bytes fs
   \<and> (jf_processing fs \<noteq> None \<longrightarrow> fst (journal_rotate io fs) = fs)
   \<and> (snd (journal_rotate io fs) = Inr True \<longrightarrow> jf_processing (fst (journal_rotate io fs)) \<noteq> None)"
  by (auto simp: journal_rotate_def journal_bytes_def Let_def split: option.splits)

theorem journal_rotate_preserves_witness:
  "journal_bytes (fst (journal_rotate rotate_ok
     \<lparr>jf_data_dir = True, jf_active = Some [1, 2], jf_processing = None\<rparr>)) = [1, 2]"
  using journal_rotate_preserves [of rotate_ok
      "\<lparr>jf_data_dir = True, jf_active = Some [1, 2], jf_processing = None\<rparr>"]
  by (simp add: journal_bytes_def)

end
