(* ===== verification/Worker_Health.thy ===== *)
theory Worker_Health
  imports Prelude
begin

text \<open>
  The worker-health words of \<^verbatim>\<open>worker_health.rs\<close>: liveness of the event consumer, the marker for a
  failed durable append, and the cluster-wide rate limit of the warnings. Each word is an atomic;
  a compare-and-exchange is one step, and the warning slot is claimed by a load followed by a
  compare-and-exchange. The segment is \<open>None\<close> while the shared memory is not initialised.
\<close>

definition STOP_NEVER :: nat where "STOP_NEVER = 0"
definition STOP_SHUTDOWN :: nat where "STOP_SHUTDOWN = 1"
definition STOP_CONTAINED :: nat where "STOP_CONTAINED = 2"
definition DURABLE_QUIET_PERIOD_US :: int where "DURABLE_QUIET_PERIOD_US = 5000000"
definition WARN_INTERVAL_US :: int where "WARN_INTERVAL_US = 60000000"

record WorkerHealth =
  wh_running :: nat
  wh_stop_reason :: nat
  wh_starts :: nat
  wh_stops :: nat
  wh_durable_degraded_us :: timestamp
  wh_last_warn_us :: timestamp
  wh_last_warn_reason :: nat

datatype PausedReason = WorkerNotRunning | QueueCorrupt | DurableRecording

fun paused_reason_raw :: "PausedReason \<Rightarrow> nat" where
  "paused_reason_raw WorkerNotRunning = 0"
| "paused_reason_raw QueueCorrupt = 1"
| "paused_reason_raw DurableRecording = 2"

text \<open>\<^verbatim>\<open>fetch_add(1)\<close> on an \<^verbatim>\<open>AtomicU64\<close> wraps.\<close>

definition fetch_inc_u64 :: "nat \<Rightarrow> nat" where
  "fetch_inc_u64 n = (n + 1) mod 2 ^ 64"

definition health_new :: WorkerHealth where
  "health_new = \<lparr>wh_running = 0, wh_stop_reason = STOP_NEVER, wh_starts = 0, wh_stops = 0,
     wh_durable_degraded_us = 0, wh_last_warn_us = 0, wh_last_warn_reason = U32_MAX\<rparr>"

text \<open>\<^verbatim>\<open>init\<close>: \<open>existing\<close> is the content of an already allocated segment.\<close>

definition health_init :: "WorkerHealth option \<Rightarrow> WorkerHealth option \<Rightarrow> WorkerHealth option" where
  "health_init existing current =
     (case current of
        Some h \<Rightarrow> Some h
      | None \<Rightarrow> (case existing of None \<Rightarrow> Some health_new | Some segment \<Rightarrow> Some segment))"

definition mark_running :: "WorkerHealth option \<Rightarrow> WorkerHealth option" where
  "mark_running h = map_option (\<lambda>w. w\<lparr>wh_starts := fetch_inc_u64 (wh_starts w), wh_running := 1\<rparr>) h"

definition mark_stopped :: "nat \<Rightarrow> WorkerHealth option \<Rightarrow> WorkerHealth option" where
  "mark_stopped reason h =
     map_option (\<lambda>w. w\<lparr>wh_stop_reason := reason, wh_stops := fetch_inc_u64 (wh_stops w),
                       wh_running := 0\<rparr>) h"

definition is_running :: "WorkerHealth option \<Rightarrow> bool" where
  "is_running h = (case h of None \<Rightarrow> False | Some w \<Rightarrow> wh_running w = 1)"

definition mark_durable_failure :: "timestamp \<Rightarrow> WorkerHealth option \<Rightarrow> WorkerHealth option" where
  "mark_durable_failure now h =
     map_option (\<lambda>w. w\<lparr>wh_durable_degraded_us := (if now = 0 then 1 else now)\<rparr>) h"

definition durable_degraded_since :: "WorkerHealth option \<Rightarrow> timestamp option" where
  "durable_degraded_since h =
     (case h of
        None \<Rightarrow> None
      | Some w \<Rightarrow> if wh_durable_degraded_us w = 0 then None else Some (wh_durable_degraded_us w))"

definition clear_durable_degraded :: "timestamp \<Rightarrow> WorkerHealth option \<Rightarrow> WorkerHealth option \<times> bool" where
  "clear_durable_degraded observed h =
     (case h of
        None \<Rightarrow> (h, False)
      | Some w \<Rightarrow> if wh_durable_degraded_us w = observed
                  then (Some (w\<lparr>wh_durable_degraded_us := 0\<rparr>), True) else (h, False))"

text \<open>
  \<^verbatim>\<open>claim_warning_slot\<close>: the load of the last warning (\<open>Some last\<close> when the caller goes on to the
  exchange), the exchange, and the sequential composition.
\<close>

definition claim_warning_load :: "timestamp \<Rightarrow> nat \<Rightarrow> WorkerHealth \<Rightarrow> timestamp option" where
  "claim_warning_load now reason w =
     (let prev = wh_last_warn_us w; same_reason = (wh_last_warn_reason w = reason)
      in if same_reason \<and> prev \<noteq> 0 \<and> saturating_i64 (now - prev) < WARN_INTERVAL_US
         then None else Some prev)"

definition claim_warning_exchange ::
  "timestamp \<Rightarrow> timestamp \<Rightarrow> nat \<Rightarrow> WorkerHealth \<Rightarrow> WorkerHealth \<times> bool" where
  "claim_warning_exchange prev now reason w =
     (if wh_last_warn_us w \<noteq> prev then (w, False)
      else (w\<lparr>wh_last_warn_us := now, wh_last_warn_reason := reason\<rparr>, True))"

definition claim_warning_slot ::
  "timestamp \<Rightarrow> nat \<Rightarrow> WorkerHealth option \<Rightarrow> WorkerHealth option \<times> bool" where
  "claim_warning_slot now reason h =
     (case h of
        None \<Rightarrow> (h, False)
      | Some w \<Rightarrow>
          (case claim_warning_load now reason w of
             None \<Rightarrow> (h, False)
           | Some prev \<Rightarrow> map_prod Some id (claim_warning_exchange prev now reason w)))"

text \<open>\<^verbatim>\<open>warn_enforcement_paused\<close>: the new health words and the reason logged, if any.\<close>

definition warn_enforcement_paused ::
  "timestamp \<Rightarrow> PausedReason \<Rightarrow> WorkerHealth option \<Rightarrow> WorkerHealth option \<times> PausedReason list" where
  "warn_enforcement_paused now reason h =
     (let (h1, claimed) = claim_warning_slot now (paused_reason_raw reason) h
      in (h1, if claimed then [reason] else []))"

record WorkerHealthStats =
  ws_running :: int
  ws_stop_reason :: int
  ws_starts :: int
  ws_stops :: int
  ws_durable_degraded :: int

definition health_stats :: "WorkerHealth option \<Rightarrow> WorkerHealthStats option" where
  "health_stats h =
     map_option (\<lambda>w. \<lparr>ws_running = int (wh_running w), ws_stop_reason = int (wh_stop_reason w),
        ws_starts = min (int (wh_starts w)) I64_MAX, ws_stops = min (int (wh_stops w)) I64_MAX,
        ws_durable_degraded = (if wh_durable_degraded_us w \<noteq> 0 then 1 else 0)\<rparr>) h"

section \<open>Lemmas\<close>

lemma mark_running_is_running [simp]: "is_running (mark_running h) \<longleftrightarrow> h \<noteq> None"
  by (cases h) (simp_all add: mark_running_def is_running_def)

lemma mark_stopped_not_running [simp]: "\<not> is_running (mark_stopped reason h)"
  by (cases h) (simp_all add: mark_stopped_def is_running_def)

lemma mark_running_degraded [simp]: "durable_degraded_since (mark_running h) = durable_degraded_since h"
  by (cases h) (simp_all add: mark_running_def durable_degraded_since_def)

lemma mark_stopped_degraded [simp]: "durable_degraded_since (mark_stopped r h) = durable_degraded_since h"
  by (cases h) (simp_all add: mark_stopped_def durable_degraded_since_def)

lemma mark_durable_failure_running [simp]: "is_running (mark_durable_failure now h) = is_running h"
  by (cases h) (simp_all add: mark_durable_failure_def is_running_def)

lemma mark_durable_failure_degraded:
  "h \<noteq> None \<Longrightarrow> durable_degraded_since (mark_durable_failure now h) = Some (if now = 0 then 1 else now)"
  by (cases h) (auto simp: mark_durable_failure_def durable_degraded_since_def)

lemma clear_durable_degraded_running [simp]:
  "is_running (fst (clear_durable_degraded t h)) = is_running h"
  by (cases h) (simp_all add: clear_durable_degraded_def is_running_def)

lemma clear_durable_degraded_cases:
  "clear_durable_degraded t h = (h1, ok) \<Longrightarrow>
    (ok \<and> durable_degraded_since h1 = None) \<or> (\<not> ok \<and> h1 = h)"
  by (cases h) (auto simp: clear_durable_degraded_def durable_degraded_since_def split: if_splits)

lemma claim_warning_slot_health [simp]:
  "is_running (fst (claim_warning_slot now r h)) = is_running h"
  "durable_degraded_since (fst (claim_warning_slot now r h)) = durable_degraded_since h"
  "fst (claim_warning_slot now r h) = None \<longleftrightarrow> h = None"
proof -
  have "fst (claim_warning_slot now r h) = h
      \<or> (\<exists>w. h = Some w \<and> fst (claim_warning_slot now r h) =
           Some (w\<lparr>wh_last_warn_us := now, wh_last_warn_reason := r\<rparr>))"
    by (simp add: claim_warning_slot_def claim_warning_exchange_def split: option.split)
  then show "is_running (fst (claim_warning_slot now r h)) = is_running h"
    and "durable_degraded_since (fst (claim_warning_slot now r h)) = durable_degraded_since h"
    and "fst (claim_warning_slot now r h) = None \<longleftrightarrow> h = None"
    by (auto simp: is_running_def durable_degraded_since_def)
qed

lemma warn_enforcement_paused_health [simp]:
  "is_running (fst (warn_enforcement_paused now r h)) = is_running h"
  "durable_degraded_since (fst (warn_enforcement_paused now r h)) = durable_degraded_since h"
  "fst (warn_enforcement_paused now r h) = None \<longleftrightarrow> h = None"
  by (simp_all add: warn_enforcement_paused_def Let_def case_prod_beta)

text \<open>A sequence of complete claims: the moments at which a warning was emitted, with their reasons.\<close>

fun claim_run :: "(timestamp \<times> nat) list \<Rightarrow> WorkerHealth option \<Rightarrow> (timestamp \<times> nat) list" where
  "claim_run [] h = []"
| "claim_run ((now, reason) # cs) h =
     (let (h1, ok) = claim_warning_slot now reason h
      in if ok then (now, reason) # claim_run cs h1 else claim_run cs h1)"

lemma claim_warning_slot_won:
  "claim_warning_slot now reason h = (h1, True) \<Longrightarrow>
    \<exists>w w1. h = Some w \<and> h1 = Some w1 \<and> wh_last_warn_us w1 = now \<and> wh_last_warn_reason w1 = reason
     \<and> (wh_last_warn_reason w = reason \<and> wh_last_warn_us w \<noteq> 0 \<longrightarrow>
          WARN_INTERVAL_US \<le> saturating_i64 (now - wh_last_warn_us w))"
  by (cases h) (auto simp: claim_warning_slot_def claim_warning_load_def claim_warning_exchange_def
      Let_def split: option.splits if_splits)

lemma claim_warning_slot_lost: "claim_warning_slot now reason h = (h1, False) \<Longrightarrow> h1 = h"
  by (cases h) (auto simp: claim_warning_slot_def claim_warning_load_def claim_warning_exchange_def
      Let_def split: option.splits if_splits)

text \<open>Consecutive warnings for the same reason are an interval apart.\<close>

fun spaced :: "timestamp \<times> nat \<Rightarrow> (timestamp \<times> nat) list \<Rightarrow> bool" where
  "spaced p [] \<longleftrightarrow> True"
| "spaced (t, r) ((t1, r1) # ws) \<longleftrightarrow>
     (r1 = r \<and> t \<noteq> 0 \<longrightarrow> WARN_INTERVAL_US \<le> saturating_i64 (t1 - t)) \<and> spaced (t1, r1) ws"

lemma claim_run_spaced: "spaced (wh_last_warn_us w, wh_last_warn_reason w) (claim_run cs (Some w))"
proof (induction cs arbitrary: w)
  case (Cons c cs)
  obtain now reason where c: "c = (now, reason)" by fastforce
  obtain h1 ok where s: "claim_warning_slot now reason (Some w) = (h1, ok)" by fastforce
  show ?case
  proof (cases ok)
    case True
    with s claim_warning_slot_won obtain w1 where
      "h1 = Some w1" "wh_last_warn_us w1 = now" "wh_last_warn_reason w1 = reason"
      "wh_last_warn_reason w = reason \<and> wh_last_warn_us w \<noteq> 0 \<longrightarrow>
         WARN_INTERVAL_US \<le> saturating_i64 (now - wh_last_warn_us w)"
      by fastforce
    then show ?thesis using Cons.IH [of w1] s True c by auto
  next
    case False
    then show ?thesis using Cons.IH [of w] s c claim_warning_slot_lost by fastforce
  qed
qed simp

section \<open>Properties\<close>

text \<open>
  A durable-recording failure cannot be lost. Recording one always leaves the marker
  set, even at timestamp zero; the worker's clear succeeds only while the marker is the one it
  observed, so a failure recorded with another timestamp since then keeps enforcement paused.
\<close>

theorem durable_failure_not_lost:
  assumes "h = Some w"
  shows "durable_degraded_since (mark_durable_failure now h) = Some (if now = 0 then 1 else now)
    \<and> (let (h1, ok) = clear_durable_degraded observed (mark_durable_failure now h)
       in ok = ((if now = 0 then 1 else now) = observed)
          \<and> durable_degraded_since h1 = (if ok then None else Some (if now = 0 then 1 else now)))"
  using assms
  by (auto simp: mark_durable_failure_def durable_degraded_since_def clear_durable_degraded_def Let_def)

theorem durable_failure_not_lost_witness:
  "durable_degraded_since (fst (clear_durable_degraded 5 (mark_durable_failure 7 (Some health_new)))) = Some 7"
  using durable_failure_not_lost [OF refl, of 7 health_new 5]
  by (simp add: case_prod_beta Let_def)

text \<open>
  The paused-enforcement warning is rate limited across all backends: in any
  sequence of claims, two consecutive warnings about the same reason are at least one interval apart.
\<close>

theorem warnings_rate_limited: "h = Some w \<Longrightarrow>
    spaced (wh_last_warn_us w, wh_last_warn_reason w) (claim_run cs h)"
  using claim_run_spaced by simp

theorem warnings_rate_limited_witness:
  "claim_run [(5, 1), (6, 1), (7, 2), (60000008, 2)] (Some health_new)
     = [(5, 1), (7, 2), (60000008, 2)]
   \<and> spaced (0, U32_MAX)
      (claim_run [(5, 1), (6, 1), (7, 2), (60000008, 2)] (Some health_new))"
proof
  show "claim_run [(5, 1), (6, 1), (7, 2), (60000008, 2)] (Some health_new)
     = [(5, 1), (7, 2), (60000008, 2)]"
    by (simp add: claim_warning_slot_def claim_warning_load_def claim_warning_exchange_def
        health_new_def saturating_i64_def width_defs WARN_INTERVAL_US_def Let_def)
  show "spaced (0, U32_MAX)
      (claim_run [(5, 1), (6, 1), (7, 2), (60000008, 2)] (Some health_new))"
    using warnings_rate_limited [OF refl, of health_new
        "[(5, 1), (6, 1), (7, 2), (60000008, 2)]"]
    by (simp add: health_new_def del: claim_run.simps)
qed

end
