(* ===== verification/Auth_Queue.thy ===== *)
theory Auth_Queue
  imports Journal Worker_Health
begin

text \<open>
  The public operations of \<^verbatim>\<open>auth_event.rs\<close> on shared memory: enqueue writes the journal first and
  the ring second, under one lock; claim, acknowledge, rotate and recover. The shared state is the
  ring (\<open>None\<close> for a null pointer), whether the lock exists, the journal files and the health words.
  The clock, the random source and the outcomes of the file system are arguments.
\<close>

section \<open>Shared state and operations\<close>

record auth_shm =
  as_lock :: bool
  as_ring :: "AuthEventRing option"
  as_journal :: journal_fs
  as_health :: "WorkerHealth option"

record enqueue_env =
  en_event_id :: "byte list option"
  en_now :: timestamp
  en_append :: append_io

datatype queue_log = QueueFullWarning | JournalFailureWarning

text \<open>\<^verbatim>\<open>init\<close>: an existing segment is attached as it is, a new one starts empty and healthy.\<close>

definition queue_init :: "AuthEventRing option \<Rightarrow> auth_shm \<Rightarrow> auth_shm" where
  "queue_init existing s =
     (if as_ring s \<noteq> None then s
      else s\<lparr>as_ring := Some (case existing of None \<Rightarrow> ring_new | Some r \<Rightarrow> r)\<rparr>)"

definition queue_state :: "auth_shm \<Rightarrow> QueueState" where
  "queue_state s =
     (case as_ring s of
        None \<Rightarrow> Corrupt
      | Some r \<Rightarrow> if \<not> as_lock s then Corrupt else queue_state_from_raw (rg_state r))"

definition mark_corrupt :: "auth_shm \<Rightarrow> auth_shm" where
  "mark_corrupt s =
     (case as_ring s of
        None \<Rightarrow> s
      | Some r \<Rightarrow> if \<not> as_lock s then s else s\<lparr>as_ring := Some (degrade_to Corrupt r)\<rparr>)"

definition enqueue_encoded_with_id_silent ::
  "siphash \<Rightarrow> enqueue_env \<Rightarrow> byte list \<Rightarrow> byte \<Rightarrow> EventFlags \<Rightarrow> timestamp \<Rightarrow> byte list
    \<Rightarrow> auth_shm \<Rightarrow> auth_shm \<times> EnqueueStep" where
  "enqueue_encoded_with_id_silent sip env username_bytes kind flags generation event_id s =
     (case as_ring s of
        None \<Rightarrow> (s\<lparr>as_health := mark_durable_failure (en_now env) (as_health s)\<rparr>, unavailable_step)
      | Some ring \<Rightarrow>
          if \<not> as_lock s
          then (s\<lparr>as_health := mark_durable_failure (en_now env) (as_health s)\<rparr>, unavailable_step)
          else
            let now = en_now env;
                event = \<lparr> ev_event_id = event_id, ev_username = username_bytes, ev_timestamp = now,
                  ev_seq = 0, ev_kind = kind, ev_generation = generation,
                  ev_flags = flags_raw flags \<rparr>
            in case journal_append sip (en_append env) event (as_journal s) of
                 (fs, Inl _) \<Rightarrow>
                   let r1 = ring\<lparr>rg_rejected := saturating_inc_u64 (rg_rejected ring),
                         rg_journal_failures := saturating_inc_u64 (rg_journal_failures ring)\<rparr>;
                       (r2, warn) = should_warn_now False now r1
                   in (s\<lparr>as_journal := fs, as_health := mark_durable_failure now (as_health s),
                         as_ring := Some r2\<rparr>,
                       \<lparr>st_outcome = EnqueueUnavailable, st_should_warn = warn\<rparr>)
               | (fs, Inr _) \<Rightarrow>
                   let r1 = ring\<lparr>rg_journaled := saturating_inc_u64 (rg_journaled ring)\<rparr>;
                       (r2, step) = try_enqueue event_id username_bytes now kind (flags_raw flags)
                         generation r1
                   in if st_outcome step = EnqueueUnavailable
                      then (s\<lparr>as_journal := fs, as_ring := Some
                              (r2\<lparr>rg_durable_only := saturating_inc_u64 (rg_durable_only r2)\<rparr>)\<rparr>,
                            step\<lparr>st_outcome := DurableOnly\<rparr>)
                      else (s\<lparr>as_journal := fs, as_ring := Some r2\<rparr>, step))"

definition enqueue_encoded_silent ::
  "siphash \<Rightarrow> enqueue_env \<Rightarrow> byte list \<Rightarrow> byte \<Rightarrow> EventFlags \<Rightarrow> timestamp
    \<Rightarrow> auth_shm \<Rightarrow> auth_shm \<times> EnqueueStep" where
  "enqueue_encoded_silent sip env username_bytes kind flags generation s =
     (case en_event_id env of
        None \<Rightarrow> (s\<lparr>as_health := mark_durable_failure (en_now env) (as_health s)\<rparr>, unavailable_step)
      | Some event_id \<Rightarrow>
          enqueue_encoded_with_id_silent sip env username_bytes kind flags generation event_id s)"

definition enqueue ::
  "siphash \<Rightarrow> enqueue_env \<Rightarrow> username \<Rightarrow> byte \<Rightarrow> EventFlags
    \<Rightarrow> auth_shm \<Rightarrow> auth_shm \<times> EnqueueOutcome \<times> queue_log list" where
  "enqueue sip env username kind flags s =
     (let (s1, step) = enqueue_encoded_silent sip env (encode_username username) kind flags 0 s
      in (s1, st_outcome step,
          if st_should_warn step
          then [if st_outcome step = EnqueueUnavailable then JournalFailureWarning else QueueFullWarning]
          else []))"

definition claim_event :: "auth_shm \<Rightarrow> auth_shm \<times> (ClaimToken \<times> SharedAuthEvent) option" where
  "claim_event s =
     (case as_ring s of
        None \<Rightarrow> (s, None)
      | Some r \<Rightarrow> if \<not> as_lock s then (s, None)
                  else let (r1, c) = claim r in (s\<lparr>as_ring := Some r1\<rparr>, c))"

definition matching_claim :: "byte list \<Rightarrow> auth_shm \<Rightarrow> auth_shm \<times> ClaimToken option" where
  "matching_claim event_id s =
     (let (s1, c) = claim_event s
      in (s1, case c of None \<Rightarrow> None
                | Some (token, event) \<Rightarrow> if ev_event_id event = event_id then Some token else None))"

definition rotate_journal :: "rotate_io \<Rightarrow> auth_shm \<Rightarrow> auth_shm \<times> (JournalError + bool)" where
  "rotate_journal io s =
     (if \<not> as_lock s then (s, Inl (JournalCorrupt ''auth event LWLock is unavailable''))
      else let (fs, res) = journal_rotate io (as_journal s) in (s\<lparr>as_journal := fs\<rparr>, res))"

definition recover_corrupt_ring ::
  "siphash \<Rightarrow> reader_io \<Rightarrow> reader_io \<Rightarrow> auth_shm \<Rightarrow> auth_shm \<times> (JournalError + bool)" where
  "recover_corrupt_ring sip io_processing io_active s =
     (case as_ring s of
        None \<Rightarrow> (s, Inl (JournalCorrupt ''auth event shared memory is unavailable''))
      | Some r \<Rightarrow>
          if \<not> as_lock s then (s, Inl (JournalCorrupt ''auth event shared memory is unavailable''))
          else if ring_state r \<noteq> Corrupt then (s, Inr False)
          else case verify_pending sip io_processing io_active (as_journal s) of
                 (fs, Some (Inr _)) \<Rightarrow> (s\<lparr>as_journal := fs, as_ring := Some ring_new\<rparr>, Inr True)
               | (fs, Some (Inl e)) \<Rightarrow> (s\<lparr>as_journal := fs\<rparr>, Inl e)
               | (fs, None) \<Rightarrow> (s\<lparr>as_journal := fs\<rparr>, Inl (JournalCorrupt ''unreachable'')))"

definition ack_claim :: "ClaimToken \<Rightarrow> auth_shm \<Rightarrow> auth_shm \<times> AckOutcome" where
  "ack_claim token s =
     (case as_ring s of
        None \<Rightarrow> (s, AckCorrupt)
      | Some r \<Rightarrow>
          if \<not> as_lock s then (s, AckCorrupt)
          else let (r1, outcome) = ack token r;
                   r2 = (if outcome \<noteq> Acknowledged then degrade_to Corrupt r1 else r1)
               in (s\<lparr>as_ring := Some r2\<rparr>, outcome))"

record QueueStats =
  qs_usable_capacity :: int
  qs_depth :: int
  qs_has_pending :: int
  qs_accepted :: int
  qs_acknowledged :: int
  qs_rejected :: int
  qs_journaled :: int
  qs_durable_only :: int
  qs_journal_failures :: int
  qs_state :: int
  qs_next_seq :: int

definition u64_to_i64 :: "nat \<Rightarrow> int" where
  "u64_to_i64 n = min (int n) I64_MAX"

definition queue_stats :: "auth_shm \<Rightarrow> QueueStats option" where
  "queue_stats s =
     (case as_ring s of
        None \<Rightarrow> None
      | Some r \<Rightarrow>
          if \<not> as_lock s then None
          else Some \<lparr> qs_usable_capacity = int USABLE_CAPACITY, qs_depth = int (depth r),
            qs_has_pending = (if 0 < depth r then 1 else 0),
            qs_accepted = u64_to_i64 (rg_accepted r), qs_acknowledged = u64_to_i64 (rg_acknowledged r),
            qs_rejected = u64_to_i64 (rg_rejected r), qs_journaled = u64_to_i64 (rg_journaled r),
            qs_durable_only = u64_to_i64 (rg_durable_only r),
            qs_journal_failures = u64_to_i64 (rg_journal_failures r),
            qs_state = queue_state_raw (queue_state_from_raw (rg_state r)),
            qs_next_seq = u64_to_i64 (rg_next_seq r) \<rparr>)"

section \<open>Invariant\<close>

text \<open>The ring, when there is one, keeps the ring invariant.\<close>

definition auth_inv :: "auth_shm \<Rightarrow> bool" where
  "auth_inv s \<longleftrightarrow> (\<forall>r. as_ring s = Some r \<longrightarrow> ring_inv r)"

lemma degrade_to_inv [inv_intros]: "ring_inv r \<Longrightarrow> ring_inv (degrade_to q r)"
  using ring_core_inv degrade_to_core by blast

lemma should_warn_now_inv [inv_intros]: "ring_inv r \<Longrightarrow> ring_inv (fst (should_warn_now h now r))"
  using ring_core_inv should_warn_now_core by blast

lemma counters_inv [simp]:
  "ring_inv (r\<lparr>rg_rejected := a\<rparr>) = ring_inv r" "ring_inv (r\<lparr>rg_durable_only := a\<rparr>) = ring_inv r"
  "ring_inv (r\<lparr>rg_journaled := a\<rparr>) = ring_inv r" "ring_inv (r\<lparr>rg_journal_failures := a\<rparr>) = ring_inv r"
  using ring_core_inv counters_core by blast+

lemma enqueue_with_id_inv [inv_intros]:
  "auth_inv s \<Longrightarrow> auth_inv (fst (enqueue_encoded_with_id_silent sip env u k fl g i s))"
  by (auto simp: auth_inv_def enqueue_encoded_with_id_silent_def Let_def case_prod_beta
      intro!: should_warn_now_inv try_enqueue_inv split: option.splits sum.splits if_splits)

lemma enqueue_silent_inv [inv_intros]:
  "auth_inv s \<Longrightarrow> auth_inv (fst (enqueue_encoded_silent sip env u k fl g s))"
  using enqueue_with_id_inv
  by (simp add: enqueue_encoded_silent_def auth_inv_def [of "_\<lparr>as_health := _\<rparr>"] split: option.splits)
    (simp add: auth_inv_def)

lemma claim_event_same [simp]: "auth_inv s \<Longrightarrow> fst (claim_event s) = s"
  by (auto simp: claim_event_def auth_inv_def case_prod_beta split: option.splits)

lemma matching_claim_same [simp]: "auth_inv s \<Longrightarrow> fst (matching_claim i s) = s"
  by (simp add: matching_claim_def Let_def case_prod_beta)

lemma ack_claim_inv [inv_intros]: "auth_inv s \<Longrightarrow> auth_inv (fst (ack_claim t s))"
  by (auto simp: ack_claim_def auth_inv_def Let_def case_prod_beta
      intro!: ack_inv degrade_to_inv split: option.splits)

lemma mark_corrupt_inv [inv_intros]: "auth_inv s \<Longrightarrow> auth_inv (mark_corrupt s)"
  by (auto simp: mark_corrupt_def auth_inv_def intro!: degrade_to_inv split: option.splits)

lemma recover_inv [inv_intros]: "auth_inv s \<Longrightarrow> auth_inv (fst (recover_corrupt_ring sip io1 io2 s))"
  by (auto simp: recover_corrupt_ring_def auth_inv_def intro: ring_new_inv
      split: option.splits sum.splits prod.splits)

section \<open>What an enqueue leaves behind\<close>

text \<open>The event an enqueue journals.\<close>

definition journaled_event ::
  "enqueue_env \<Rightarrow> byte list \<Rightarrow> byte \<Rightarrow> EventFlags \<Rightarrow> timestamp \<Rightarrow> byte list \<Rightarrow> SharedAuthEvent" where
  "journaled_event env u kind flags generation event_id =
     \<lparr> ev_event_id = event_id, ev_username = u, ev_timestamp = en_now env, ev_seq = 0,
       ev_kind = kind, ev_generation = generation, ev_flags = flags_raw flags \<rparr>"

definition active_bytes :: "journal_fs \<Rightarrow> byte list" where
  "active_bytes fs = (case jf_active fs of None \<Rightarrow> [] | Some c \<Rightarrow> c)"

lemma journal_append_Inr:
  "journal_append sip io e fs = (fs1, Inr u) \<Longrightarrow>
    jf_active fs1 = Some (active_bytes fs @ encode sip e) \<and> jf_processing fs1 = jf_processing fs
    \<and> jf_data_dir fs1 = jf_data_dir fs"
  by (auto simp: journal_append_def active_bytes_def Let_def split: if_splits option.splits)

lemma enqueue_silent_durable:
  assumes "enqueue_encoded_silent sip env u k fl g s = (s1, step)" and "is_durable (st_outcome step)"
  shows "\<exists>i r. en_event_id env = Some i \<and> as_ring s = Some r \<and> as_lock s
    \<and> jf_active (as_journal s1) =
        Some (active_bytes (as_journal s) @ encode sip (journaled_event env u k fl g i))
    \<and> jf_processing (as_journal s1) = jf_processing (as_journal s)
    \<and> as_health s1 = as_health s"
proof -
  obtain i where i: "en_event_id env = Some i"
    using assms by (cases "en_event_id env") (auto simp: enqueue_encoded_silent_def unavailable_step_def)
  obtain r where r: "as_ring s = Some r" and l: "as_lock s"
    using assms i
    by (cases "as_ring s"; cases "as_lock s")
      (auto simp: enqueue_encoded_silent_def enqueue_encoded_with_id_silent_def unavailable_step_def)
  obtain fs res where a: "journal_append sip (en_append env) (journaled_event env u k fl g i)
      (as_journal s) = (fs, res)" by fastforce
  have "res \<noteq> Inl x" for x
    using assms i r l a
    by (auto simp: enqueue_encoded_silent_def enqueue_encoded_with_id_silent_def
        journaled_event_def Let_def case_prod_beta)
  then obtain y where res: "res = Inr y" by (cases res) auto
  have s1: "as_journal s1 = fs" "as_health s1 = as_health s"
    using assms(1) i r l a res
    by (auto simp: enqueue_encoded_silent_def enqueue_encoded_with_id_silent_def
        journaled_event_def Let_def case_prod_beta split: if_splits)
  show ?thesis using journal_append_Inr [OF a [unfolded res]] s1 i r l by simp
qed

lemma enqueue_silent_not_durable:
  assumes "enqueue_encoded_silent sip env u k fl g s = (s1, step)"
    and "\<not> is_durable (st_outcome step)" and "as_health s \<noteq> None"
  shows "durable_degraded_since (as_health s1) = Some (if en_now env = 0 then 1 else en_now env)"
proof -
  have "as_health s1 = mark_durable_failure (en_now env) (as_health s)"
  proof (cases "en_event_id env")
    case None
    then show ?thesis using assms(1) by (auto simp: enqueue_encoded_silent_def)
  next
    case (Some i)
    obtain fs res where a: "journal_append sip (en_append env) (journaled_event env u k fl g i)
        (as_journal s) = (fs, res)" by fastforce
    from Some a assms(1,2) show ?thesis
      by (cases "as_ring s"; cases "as_lock s"; cases res)
        (auto simp: enqueue_encoded_silent_def enqueue_encoded_with_id_silent_def
          journaled_event_def Let_def case_prod_beta is_durable_iff split: if_splits)
  qed
  then show ?thesis using mark_durable_failure_degraded [OF assms(3)] by simp
qed

text \<open>The ring list of a shared state; a missing ring is empty.\<close>

definition ram_list :: "auth_shm \<Rightarrow> SharedAuthEvent list" where
  "ram_list s = (case as_ring s of None \<Rightarrow> [] | Some r \<Rightarrow> ring_list r)"

lemma counters_list [simp]:
  "ring_list (r\<lparr>rg_rejected := a\<rparr>) = ring_list r" "ring_list (r\<lparr>rg_durable_only := a\<rparr>) = ring_list r"
  "ring_list (r\<lparr>rg_journaled := a\<rparr>) = ring_list r" "ring_list (r\<lparr>rg_journal_failures := a\<rparr>) = ring_list r"
  using ring_core_list counters_core by blast+

lemma should_warn_now_list [simp]: "ring_list (fst (should_warn_now h now r)) = ring_list r"
  using ring_core_list should_warn_now_core by blast

lemma enqueue_silent_ram:
  assumes "auth_inv s" and "enqueue_encoded_silent sip env u k fl g s = (s1, step)"
  shows "\<exists>n. ram_list s1 = ram_list s @ (if st_outcome step = Enqueued
    then [(journaled_event env u k fl g (the (en_event_id env)))\<lparr>ev_seq := n\<rparr>] else [])"
proof (cases "en_event_id env")
  case None
  then show ?thesis
    using assms(2) by (auto simp: enqueue_encoded_silent_def ram_list_def unavailable_step_def)
next
  case (Some i)
  obtain fs res where a: "journal_append sip (en_append env) (journaled_event env u k fl g i)
      (as_journal s) = (fs, res)" by fastforce
  show ?thesis
  proof (cases "as_ring s")
    case None
    then show ?thesis using assms(2) Some
      by (auto simp: enqueue_encoded_silent_def enqueue_encoded_with_id_silent_def ram_list_def
          unavailable_step_def)
  next
    case (Some r)
    with assms(1) have inv: "ring_inv (r\<lparr>rg_journaled := saturating_inc_u64 (rg_journaled r)\<rparr>)"
      by (simp add: auth_inv_def)
    note l = try_enqueue_list [OF inv, of i u "en_now env" k "flags_raw fl" g]
    show ?thesis
      using assms(2) Some \<open>en_event_id env = Some i\<close> a l
      by (cases "as_lock s"; cases res)
        (auto simp: enqueue_encoded_silent_def enqueue_encoded_with_id_silent_def ram_list_def
          unavailable_step_def journaled_event_def offered_event_def Let_def case_prod_beta
          split: if_splits)
  qed
qed

lemma verify_pending_records:
  assumes "\<forall>e \<in> set ps. event_valid e" and "\<forall>e \<in> set as. event_valid e"
    and "length torn < RECORD_SIZE"
    and "fs = \<lparr>jf_data_dir = True, jf_active = Some (records sip as @ torn),
      jf_processing = Some (records sip ps)\<rparr>"
  shows "verify_pending sip reader_ok reader_ok fs =
    (fs\<lparr>jf_active := Some (records sip as)\<rparr>, Some (Inr ()))"
  using verify_file_records [OF assms(1), of "[]" sip] verify_file_records [OF assms(2,3), of sip]
  by (simp add: verify_pending_def assms(4))

section \<open>Properties of the queue\<close>

text \<open>
  Property C37: an enqueue is durable before it is visible. A durable outcome means that exactly
  this event was appended to the active journal as one complete record; the ring receives the same
  event, with a sequence number, precisely when the outcome is \<open>Enqueued\<close>, and a full or
  corrupt ring never turns a durable event into a lost one. Any other outcome leaves the ring
  contents alone and records the failure, which pauses enforcement.
\<close>

theorem enqueue_durable_before_ring:
  assumes "auth_inv s" and "as_health s \<noteq> None"
    and "enqueue sip env u k fl s = (s1, outcome, logs)"
  shows "auth_inv s1
    \<and> (is_durable outcome \<longrightarrow> (\<exists>i. en_event_id env = Some i
         \<and> jf_active (as_journal s1) = Some (active_bytes (as_journal s)
             @ encode sip (journaled_event env (encode_username u) k fl 0 i))
         \<and> (\<exists>n. ram_list s1 = ram_list s @ (if outcome = Enqueued
             then [(journaled_event env (encode_username u) k fl 0 i)\<lparr>ev_seq := n\<rparr>] else []))))
    \<and> (\<not> is_durable outcome \<longrightarrow> ram_list s1 = ram_list s
         \<and> durable_degraded_since (as_health s1) \<noteq> None)"
proof -
  obtain step where e: "enqueue_encoded_silent sip env (encode_username u) k fl 0 s = (s1, step)"
    and o: "outcome = st_outcome step"
    using assms(3) by (simp add: enqueue_def Let_def split: prod.splits)
  have inv: "auth_inv s1" using enqueue_silent_inv [OF assms(1)] e by (metis fst_conv)
  from enqueue_silent_ram [OF assms(1) e] obtain n where ram: "ram_list s1 = ram_list s @
      (if outcome = Enqueued then [(journaled_event env (encode_username u) k fl 0
        (the (en_event_id env)))\<lparr>ev_seq := n\<rparr>] else [])" unfolding o by blast
  show ?thesis
  proof (intro conjI impI)
    show "auth_inv s1" by (rule inv)
    assume "is_durable outcome"
    with enqueue_silent_durable [OF e] o ram show "\<exists>i. en_event_id env = Some i
         \<and> jf_active (as_journal s1) = Some (active_bytes (as_journal s)
             @ encode sip (journaled_event env (encode_username u) k fl 0 i))
         \<and> (\<exists>n. ram_list s1 = ram_list s @ (if outcome = Enqueued
             then [(journaled_event env (encode_username u) k fl 0 i)\<lparr>ev_seq := n\<rparr>] else []))"
      by (metis option.sel)
  next
    assume nd: "\<not> is_durable outcome"
    then show "ram_list s1 = ram_list s" using ram by (auto simp: is_durable_iff)
    show "durable_degraded_since (as_health s1) \<noteq> None"
      using enqueue_silent_not_durable [OF e _ assms(2)] nd o by simp
  qed
qed

definition fresh_auth :: auth_shm where
  "fresh_auth = \<lparr>as_lock = True, as_ring = Some ring_new,
     as_journal = \<lparr>jf_data_dir = True, jf_active = None, jf_processing = None\<rparr>,
     as_health = Some health_new\<rparr>"

lemma fresh_auth_inv: "auth_inv fresh_auth"
  by (simp add: fresh_auth_def auth_inv_def ring_new_inv)

theorem enqueue_durable_before_ring_witness:
  "durable_degraded_since (as_health (fst (enqueue (\<lambda>_ _ _. 0)
     \<lparr>en_event_id = None, en_now = 7, en_append = append_ok\<rparr> [0x61] EVENT_KIND_FAILURE flags_none
     fresh_auth))) \<noteq> None"
proof -
  let ?env = "\<lparr>en_event_id = None, en_now = 7, en_append = append_ok\<rparr>"
  let ?res = "enqueue (\<lambda>_ _ _. 0) ?env [0x61] EVENT_KIND_FAILURE flags_none fresh_auth"
  have "\<not> is_durable (fst (snd ?res))"
    by (simp add: enqueue_def enqueue_encoded_silent_def unavailable_step_def)
  moreover have "as_health fresh_auth \<noteq> None" by (simp add: fresh_auth_def)
  ultimately show ?thesis
    using enqueue_durable_before_ring [OF fresh_auth_inv, of "\<lambda>_ _ _. 0" ?env "[0x61]"
        EVENT_KIND_FAILURE flags_none "fst ?res" "fst (snd ?res)" "snd (snd ?res)"] by simp
qed

text \<open>
  Administrative recovery resets only the volatile accelerator. A corrupt ring over
  two readable journal files is replaced by a fresh healthy one; every complete record of both files
  is kept, only the fragment of a torn append disappears, and a ring that is not corrupt is not touched.
\<close>

theorem recover_keeps_journal:
  assumes "\<forall>e \<in> set ps. event_valid e" and "\<forall>e \<in> set as. event_valid e"
    and "length torn < RECORD_SIZE"
    and "as_journal s = \<lparr>jf_data_dir = True, jf_active = Some (records sip as @ torn),
      jf_processing = Some (records sip ps)\<rparr>"
    and "as_ring s = Some r" and "as_lock s"
  shows "recover_corrupt_ring sip reader_ok reader_ok s =
    (if ring_state r = Corrupt
     then (s\<lparr>as_journal := (as_journal s)\<lparr>jf_active := Some (records sip as)\<rparr>,
             as_ring := Some ring_new\<rparr>, Inr True)
     else (s, Inr False))"
  using assms(5,6) verify_pending_records [OF assms(1-3) assms(4)]
  by (simp add: recover_corrupt_ring_def)

theorem recover_keeps_journal_witness:
  "queue_state (fst (recover_corrupt_ring (\<lambda>_ _ _. 0) reader_ok reader_ok (mark_corrupt
     (fresh_auth\<lparr>as_journal := \<lparr>jf_data_dir = True, jf_active = Some [1],
        jf_processing = Some (records (\<lambda>_ _ _. 0) [sample_event])\<rparr>\<rparr>)))) = Healthy"
proof -
  let ?s = "mark_corrupt (fresh_auth\<lparr>as_journal := \<lparr>jf_data_dir = True, jf_active = Some [1],
        jf_processing = Some (records (\<lambda>_ _ _. 0) [sample_event])\<rparr>\<rparr>)"
  have "as_journal ?s = \<lparr>jf_data_dir = True, jf_active = Some (records (\<lambda>_ _ _. 0) [] @ [1]),
      jf_processing = Some (records (\<lambda>_ _ _. 0) [sample_event])\<rparr>"
    and "as_ring ?s = Some (degrade_to Corrupt ring_new)" and "as_lock ?s"
    by (simp_all add: mark_corrupt_def fresh_auth_def)
  from recover_keeps_journal [OF _ _ _ this] show ?thesis
    by (simp add: sample_event_valid RECORD_SIZE_def degrade_to_state queue_state_def
        fresh_auth_def mark_corrupt_def ring_new_def)
qed

end
