(* ===== verification/Expiry_Cache.thy ===== *)
theory Expiry_Cache
  imports Lock_Cache Auth_Queue
begin

text \<open>
  The shared expiry cache of \<^verbatim>\<open>expiry_cache.rs\<close>: when a user's password must change, which password
  generation that deadline belongs to, and how many grace logins are left. Consuming a grace login
  spans two components: it journals the event through the queue first and decrements second.
\<close>

section \<open>Data\<close>

record ExpiryEntry =
  ex_username :: "byte list"
  ex_must_change_by :: timestamp
  ex_generation :: timestamp
  ex_grace_remaining :: int

definition ExpiryEntry_EMPTY :: ExpiryEntry where
  "ExpiryEntry_EMPTY = \<lparr>ex_username = EMPTY_USERNAME, ex_must_change_by = 0, ex_generation = 0,
     ex_grace_remaining = 0\<rparr>"

datatype ExpiryCacheState = ExpiryNotReady | ExpiryReady | ExpiryOverflow | ExpiryWorkerFailed

fun expiry_state_raw :: "ExpiryCacheState \<Rightarrow> int" where
  "expiry_state_raw ExpiryNotReady = 0"
| "expiry_state_raw ExpiryReady = 1"
| "expiry_state_raw ExpiryOverflow = 2"
| "expiry_state_raw ExpiryWorkerFailed = 3"

definition expiry_state_from_raw :: "int \<Rightarrow> ExpiryCacheState" where
  "expiry_state_from_raw raw =
     (if raw = 1 then ExpiryReady else if raw = 2 then ExpiryOverflow
      else if raw = 3 then ExpiryWorkerFailed else ExpiryNotReady)"

datatype ExpiryDecision = CacheUnavailable | NoRow | NotExpired | ExpiredWithGrace | ExpiredNoGrace

datatype GraceOutcome = Consumed | NotNeeded | NoGrace | GraceUnavailable

record GraceResult =
  gr_outcome :: GraceOutcome
  gr_queue_warn :: bool

record ExpiryCache =
  xc_entries :: "ExpiryEntry list"
  xc_state :: int
  xc_hydration_rows :: int
  xc_hydration_overflow :: int

section \<open>Operations\<close>

definition expiry_cache_new :: ExpiryCache where
  "expiry_cache_new = \<lparr>xc_entries = replicate EXPIRY_CACHE_SIZE ExpiryEntry_EMPTY,
     xc_state = expiry_state_raw ExpiryNotReady, xc_hydration_rows = 0, xc_hydration_overflow = 0\<rparr>"

definition expiry_init :: "ExpiryCache option \<Rightarrow> ExpiryCache option \<Rightarrow> ExpiryCache option" where
  "expiry_init existing c =
     (case c of
        Some cache \<Rightarrow> Some cache
      | None \<Rightarrow> Some (case existing of None \<Rightarrow> expiry_cache_new | Some cache \<Rightarrow> cache))"

definition expiry_state :: "ExpiryCache option \<Rightarrow> ExpiryCacheState" where
  "expiry_state c = (case c of None \<Rightarrow> ExpiryNotReady | Some cache \<Rightarrow> expiry_state_from_raw (xc_state cache))"

definition expiry_set_state :: "ExpiryCacheState \<Rightarrow> ExpiryCache option \<Rightarrow> ExpiryCache option" where
  "expiry_set_state new_state c = map_option (\<lambda>cache. cache\<lparr>xc_state := expiry_state_raw new_state\<rparr>) c"

definition classify :: "ExpiryEntry \<Rightarrow> timestamp \<Rightarrow> ExpiryDecision" where
  "classify entry now =
     (if now < ex_must_change_by entry then NotExpired
      else if 0 < ex_grace_remaining entry then ExpiredWithGrace
      else ExpiredNoGrace)"

definition expiry_lookup :: "username \<Rightarrow> timestamp \<Rightarrow> ExpiryCache option \<Rightarrow> ExpiryDecision" where
  "expiry_lookup username now c =
     (case c of
        None \<Rightarrow> CacheUnavailable
      | Some cache \<Rightarrow>
          let encoded = encode_username username
          in if expiry_state_from_raw (xc_state cache) \<noteq> ExpiryReady then CacheUnavailable
             else case List.find (\<lambda>e. slot_used (ex_username e) \<and> ex_username e = encoded)
                    (xc_entries cache) of
               Some entry \<Rightarrow> classify entry now
             | None \<Rightarrow> NoRow)"

definition grace_result :: "GraceOutcome \<Rightarrow> bool \<Rightarrow> GraceResult" where
  "grace_result outcome warn = \<lparr>gr_outcome = outcome, gr_queue_warn = warn\<rparr>"

definition try_consume_grace ::
  "siphash \<Rightarrow> enqueue_env \<Rightarrow> username \<Rightarrow> timestamp \<Rightarrow> EventFlags
    \<Rightarrow> ExpiryCache option \<times> auth_shm \<Rightarrow> (ExpiryCache option \<times> auth_shm) \<times> GraceResult" where
  "try_consume_grace sip env username now flags state =
     (let (c, s) = state in
      case c of
        None \<Rightarrow> (state, grace_result GraceUnavailable False)
      | Some cache \<Rightarrow>
          let encoded = encode_username username;
              here = (\<lambda>e. slot_used (ex_username e) \<and> ex_username e = encoded)
          in if expiry_state_from_raw (xc_state cache) \<noteq> ExpiryReady
             then (state, grace_result GraceUnavailable False)
             else case List.find here (xc_entries cache) of
               None \<Rightarrow> (state, grace_result NotNeeded False)
             | Some entry \<Rightarrow>
                 (case classify entry now of
                    NotExpired \<Rightarrow> (state, grace_result NotNeeded False)
                  | ExpiredNoGrace \<Rightarrow> (state, grace_result NoGrace False)
                  | NoRow \<Rightarrow> (state, grace_result GraceUnavailable False)
                  | CacheUnavailable \<Rightarrow> (state, grace_result GraceUnavailable False)
                  | ExpiredWithGrace \<Rightarrow>
                      let (s1, step) = enqueue_encoded_silent sip env encoded
                            EVENT_KIND_GRACE_CONSUMED flags (ex_generation entry) s
                      in if \<not> is_durable (st_outcome step)
                         then ((c, s1), grace_result GraceUnavailable (st_should_warn step))
                         else
                           let es = (case update_first here
                                 (\<lambda>e. e\<lparr>ex_grace_remaining := ex_grace_remaining e - 1\<rparr>)
                                 (xc_entries cache) of
                               Some es \<Rightarrow> es | None \<Rightarrow> xc_entries cache)
                           in ((Some (cache\<lparr>xc_entries := es\<rparr>), s1),
                               grace_result Consumed (st_should_warn step))))"

definition set_entry :: "byte list \<Rightarrow> timestamp \<Rightarrow> timestamp \<Rightarrow> int \<Rightarrow> ExpiryCache option
    \<Rightarrow> ExpiryCache option \<times> CacheOpStatus" where
  "set_entry username_bytes must_change_by generation grace_remaining c =
     (case c of
        None \<Rightarrow> (c, OpOverflowed)
      | Some cache \<Rightarrow>
          if \<not> slot_used username_bytes then (c, OpOverflowed)
          else case update_first (\<lambda>e. slot_used (ex_username e) \<and> ex_username e = username_bytes)
                 (\<lambda>e. e\<lparr>ex_must_change_by := must_change_by, ex_generation := generation,
                        ex_grace_remaining := max grace_remaining 0\<rparr>) (xc_entries cache) of
            Some es \<Rightarrow> (Some (cache\<lparr>xc_entries := es\<rparr>), Applied)
          | None \<Rightarrow>
              (case update_first (\<lambda>e. \<not> slot_used (ex_username e))
                 (\<lambda>_. \<lparr>ex_username = username_bytes, ex_must_change_by = must_change_by,
                       ex_generation = generation, ex_grace_remaining = max grace_remaining 0\<rparr>)
                 (xc_entries cache) of
                 Some es \<Rightarrow> (Some (cache\<lparr>xc_entries := es\<rparr>), Applied)
               | None \<Rightarrow> (Some (cache\<lparr>xc_state := expiry_state_raw ExpiryOverflow\<rparr>), OpOverflowed)))"

definition clear_entry :: "byte list \<Rightarrow> ExpiryCache option \<Rightarrow> ExpiryCache option \<times> CacheOpStatus" where
  "clear_entry username_bytes c =
     (case c of
        None \<Rightarrow> (c, Applied)
      | Some cache \<Rightarrow>
          (case update_first (\<lambda>e. slot_used (ex_username e) \<and> ex_username e = username_bytes)
                  (\<lambda>_. ExpiryEntry_EMPTY) (xc_entries cache) of
             None \<Rightarrow> (c, Applied)
           | Some es \<Rightarrow> (Some (cache\<lparr>xc_entries := es\<rparr>), Applied)))"

definition expiry_apply_hydrated ::
  "ExpiryEntry list \<Rightarrow> int \<Rightarrow> int \<Rightarrow> ExpiryCacheState \<Rightarrow> ExpiryCache option \<Rightarrow> ExpiryCache option \<times> int" where
  "expiry_apply_hydrated prepared rows overflow new_state c =
     (case c of
        None \<Rightarrow> (c, 0)
      | Some cache \<Rightarrow>
          let cleared = map (\<lambda>_. ExpiryEntry_EMPTY) (xc_entries cache);
              (es, loaded) = fill_slots EXPIRY_CACHE_SIZE (\<lambda>p. \<not> slot_used (ex_username p)) id
                prepared 0 cleared
          in (Some (cache\<lparr>xc_entries := es, xc_hydration_rows := rows,
                xc_hydration_overflow := overflow, xc_state := expiry_state_raw new_state\<rparr>),
              int loaded))"

definition expiry_prepared_entry :: "username \<Rightarrow> timestamp \<Rightarrow> timestamp \<Rightarrow> int \<Rightarrow> ExpiryEntry" where
  "expiry_prepared_entry username must_change_by generation grace_remaining =
     \<lparr>ex_username = encode_username username, ex_must_change_by = must_change_by,
      ex_generation = generation, ex_grace_remaining = max grace_remaining 0\<rparr>"

record ExpiryStats =
  xs_capacity :: int
  xs_used :: int
  xs_free :: int
  xs_hydration_rows :: int
  xs_hydration_overflow :: int
  xs_state :: int

definition expiry_stats :: "ExpiryCache option \<Rightarrow> ExpiryStats option" where
  "expiry_stats c =
     map_option (\<lambda>cache.
       let used = int (length (filter (\<lambda>e. slot_used (ex_username e)) (xc_entries cache)))
       in \<lparr>xs_capacity = int EXPIRY_CACHE_SIZE, xs_used = used,
           xs_free = int EXPIRY_CACHE_SIZE - used, xs_hydration_rows = xc_hydration_rows cache,
           xs_hydration_overflow = xc_hydration_overflow cache,
           xs_state = expiry_state_raw (expiry_state_from_raw (xc_state cache))\<rparr>) c"

section \<open>Invariant and view\<close>

definition expiry_inv :: "ExpiryCache \<Rightarrow> bool" where
  "expiry_inv cache \<longleftrightarrow> length (xc_entries cache) = EXPIRY_CACHE_SIZE
     \<and> distinct (map ex_username (filter (\<lambda>e. slot_used (ex_username e)) (xc_entries cache)))
     \<and> (\<forall>e \<in> set (xc_entries cache). 0 \<le> ex_grace_remaining e)"

text \<open>What the cache knows of a user: deadline, generation and grace.\<close>

definition expiry_view :: "ExpiryCache \<Rightarrow> byte list \<Rightarrow> (timestamp \<times> timestamp \<times> int) option" where
  "expiry_view cache u =
     map_option (\<lambda>e. (ex_must_change_by e, ex_generation e, ex_grace_remaining e))
       (List.find (\<lambda>e. slot_used (ex_username e) \<and> ex_username e = u) (xc_entries cache))"

interpretation expiry_table: slot_table ex_username ExpiryEntry_EMPTY
  by unfold_locales (simp add: ExpiryEntry_EMPTY_def)

lemma expiry_slot_for: "expiry_table.slot_for u = (\<lambda>e. slot_used (ex_username e) \<and> ex_username e = u)"
  by (simp add: fun_eq_iff expiry_table.slot_for_def)

lemma expiry_inv_ok: "expiry_inv cache \<longleftrightarrow>
    length (xc_entries cache) = EXPIRY_CACHE_SIZE \<and> expiry_table.table_ok (xc_entries cache)
    \<and> (\<forall>e \<in> set (xc_entries cache). 0 \<le> ex_grace_remaining e)"
  by (simp add: expiry_inv_def expiry_table.table_ok_def)

lemma expiry_view_find: "expiry_view cache u =
    map_option (\<lambda>e. (ex_must_change_by e, ex_generation e, ex_grace_remaining e))
      (List.find (expiry_table.slot_for u) (xc_entries cache))"
  by (simp add: expiry_view_def expiry_slot_for)

lemma expiry_cache_new_inv [inv_intros]: "expiry_inv expiry_cache_new"
  unfolding expiry_inv_ok by (simp add: expiry_cache_new_def ExpiryEntry_EMPTY_def [symmetric])
    (simp add: ExpiryEntry_EMPTY_def)

lemma expiry_state_roundtrip [simp]: "expiry_state_from_raw (expiry_state_raw s) = s"
  by (cases s) (simp_all add: expiry_state_from_raw_def)

lemma expiry_state_from_raw_values [simp]:
  "expiry_state_from_raw 0 = ExpiryNotReady" "expiry_state_from_raw 1 = ExpiryReady"
  "expiry_state_from_raw 2 = ExpiryOverflow" "expiry_state_from_raw 3 = ExpiryWorkerFailed"
  by (simp_all add: expiry_state_from_raw_def)

lemma expiry_inv_state [simp]: "expiry_inv (cache\<lparr>xc_state := x\<rparr>) = expiry_inv cache"
  by (simp add: expiry_inv_def)

lemma expiry_view_state [simp]: "expiry_view (cache\<lparr>xc_state := x\<rparr>) = expiry_view cache"
  by (simp add: fun_eq_iff expiry_view_def)

section \<open>Lookup after every operation\<close>

lemma update_first_set:
  "update_first p f xs = Some ys \<Longrightarrow> y \<in> set ys \<Longrightarrow> y \<in> set xs \<or> (\<exists>x \<in> set xs. p x \<and> y = f x)"
  by (erule update_first_split) auto

lemma set_entry_applied:
  assumes "expiry_inv cache" and "slot_used u"
    and "set_entry u must gen grace (Some cache) = (c, Applied)"
  shows "\<exists>cache'. c = Some cache' \<and> expiry_inv cache' \<and> xc_state cache' = xc_state cache
    \<and> expiry_view cache' = (expiry_view cache)(u \<mapsto> (must, gen, max grace 0))"
proof (cases "update_first (expiry_table.slot_for u) (\<lambda>e. e\<lparr>ex_must_change_by := must,
    ex_generation := gen, ex_grace_remaining := max grace 0\<rparr>) (xc_entries cache)")
  case (Some es)
  have ok: "expiry_table.table_ok (xc_entries cache)" and len: "length es = EXPIRY_CACHE_SIZE"
    using assms(1) update_first_length [OF Some] by (simp_all add: expiry_inv_ok)
  note r = expiry_table.refresh [OF ok Some]
  have c: "c = Some (cache\<lparr>xc_entries := es\<rparr>)"
    using assms(2-3) Some by (simp add: set_entry_def expiry_slot_for)
  obtain e where e: "List.find (expiry_table.slot_for u) (xc_entries cache) = Some e"
    using update_first_Some_find [OF Some] by blast
  have g: "\<forall>e \<in> set es. 0 \<le> ex_grace_remaining e"
    using update_first_set [OF Some] assms(1) by (fastforce simp: expiry_inv_ok)
  show ?thesis using c r len e g by (simp add: expiry_inv_ok expiry_view_find fun_eq_iff)
next
  case None
  then have none: "\<forall>e \<in> set (xc_entries cache). \<not> expiry_table.slot_for u e"
    by (simp add: update_first_None_iff)
  let ?e = "\<lparr>ex_username = u, ex_must_change_by = must, ex_generation = gen,
    ex_grace_remaining = max grace 0\<rparr>"
  obtain es where es: "update_first (\<lambda>e. \<not> slot_used (ex_username e)) (\<lambda>_. ?e) (xc_entries cache) = Some es"
    and c: "c = Some (cache\<lparr>xc_entries := es\<rparr>)"
    using assms(2-3) None by (auto simp: set_entry_def expiry_slot_for split: option.splits)
  have ok: "expiry_table.table_ok (xc_entries cache)" and len: "length es = EXPIRY_CACHE_SIZE"
    using assms(1) update_first_length [OF es] by (simp_all add: expiry_inv_ok)
  note i = expiry_table.insert_slot [OF ok es, simplified, OF assms(2) none]
  have g: "\<forall>e \<in> set es. 0 \<le> ex_grace_remaining e"
    using update_first_set [OF es] assms(1) by (fastforce simp: expiry_inv_ok)
  have other: "List.find (expiry_table.slot_for v) es =
      List.find (expiry_table.slot_for v) (xc_entries cache)" if "v \<noteq> u" for v
    using i(3) [OF that] by (auto simp: expiry_table.slot_for_def)
  show ?thesis
    using c i(1,2) len other g by (simp add: expiry_inv_ok expiry_view_find fun_eq_iff)
qed

lemma set_entry_overflowed:
  assumes "set_entry u must gen grace (Some cache) = (c, OpOverflowed)" and "slot_used u"
  shows "c = Some (cache\<lparr>xc_state := expiry_state_raw ExpiryOverflow\<rparr>)"
    and "\<forall>e \<in> set (xc_entries cache). slot_used (ex_username e) \<and> ex_username e \<noteq> u"
  using assms by (auto simp: set_entry_def update_first_None_iff split: if_splits option.splits)

lemma clear_entry_view:
  assumes "expiry_inv cache" and "clear_entry u (Some cache) = (c, st)"
  shows "\<exists>cache'. c = Some cache' \<and> expiry_inv cache' \<and> xc_state cache' = xc_state cache
    \<and> expiry_view cache' = (expiry_view cache)(u := None) \<and> st = Applied"
proof (cases "update_first (expiry_table.slot_for u) (\<lambda>_. ExpiryEntry_EMPTY) (xc_entries cache)")
  case None
  then have "List.find (expiry_table.slot_for u) (xc_entries cache) = None"
    by (simp add: update_first_None_find)
  then have "expiry_view cache u = None" by (simp add: expiry_view_find)
  moreover have "c = Some cache" "st = Applied"
    using assms(2) None by (simp_all add: clear_entry_def expiry_slot_for)
  ultimately show ?thesis using assms(1) by (auto simp: fun_eq_iff)
next
  case (Some es)
  have ok: "expiry_table.table_ok (xc_entries cache)" and len: "length es = EXPIRY_CACHE_SIZE"
    using assms(1) update_first_length [OF Some] by (simp_all add: expiry_inv_ok)
  have g: "\<forall>e \<in> set es. 0 \<le> ex_grace_remaining e"
    using update_first_set [OF Some] assms(1) by (fastforce simp: expiry_inv_ok ExpiryEntry_EMPTY_def)
  have "c = Some (cache\<lparr>xc_entries := es\<rparr>)" "st = Applied"
    using assms(2) Some by (simp_all add: clear_entry_def expiry_slot_for)
  then show ?thesis
    using expiry_table.remove_slot [OF ok Some] len g
    by (simp add: expiry_inv_ok expiry_view_find fun_eq_iff)
qed

text \<open>The lookup is a function of the view.\<close>

definition view_decision :: "(timestamp \<times> timestamp \<times> int) option \<Rightarrow> timestamp \<Rightarrow> ExpiryDecision" where
  "view_decision v now =
     (case v of
        None \<Rightarrow> NoRow
      | Some (must, gen, grace) \<Rightarrow>
          if now < must then NotExpired else if 0 < grace then ExpiredWithGrace else ExpiredNoGrace)"

lemma expiry_lookup_view:
  "expiry_lookup username now (Some cache) =
     (if expiry_state (Some cache) \<noteq> ExpiryReady then CacheUnavailable
      else view_decision (expiry_view cache (encode_username username)) now)"
  by (simp add: expiry_lookup_def expiry_state_def Let_def view_decision_def expiry_view_def
      classify_def split: option.split)

section \<open>Consuming grace logins\<close>

lemma try_consume_grace_None:
  "fst (fst (try_consume_grace sip env username now flags (None, s))) = None"
  by (simp add: try_consume_grace_def)

text \<open>Deducting a grace login from the entry of a user.\<close>

lemma deduct_grace:
  assumes "expiry_inv cache" and e: "List.find (expiry_table.slot_for u) (xc_entries cache) = Some e"
    and "0 < ex_grace_remaining e"
    and es: "update_first (expiry_table.slot_for u) (\<lambda>e. e\<lparr>ex_grace_remaining := ex_grace_remaining e - 1\<rparr>)
      (xc_entries cache) = Some es"
  shows "expiry_inv (cache\<lparr>xc_entries := es\<rparr>)"
    and "expiry_view (cache\<lparr>xc_entries := es\<rparr>) = (expiry_view cache)(u \<mapsto>
      (ex_must_change_by e, ex_generation e, ex_grace_remaining e - 1))"
proof -
  have ok: "expiry_table.table_ok (xc_entries cache)" and len: "length es = EXPIRY_CACHE_SIZE"
    using assms(1) update_first_length [OF es] by (simp_all add: expiry_inv_ok)
  note r = expiry_table.refresh [OF ok es]
  have uniq: "y = e" if "y \<in> set (xc_entries cache)" "expiry_table.slot_for u y" for y
    using that expiry_table.find_iff [OF ok] e by (metis option.inject)
  have "\<forall>y \<in> set es. 0 \<le> ex_grace_remaining y"
  proof
    fix y assume "y \<in> set es"
    from update_first_set [OF es this] show "0 \<le> ex_grace_remaining y"
      using assms(1,3) uniq by (auto simp: expiry_inv_ok)
  qed
  then show "expiry_inv (cache\<lparr>xc_entries := es\<rparr>)"
    and "expiry_view (cache\<lparr>xc_entries := es\<rparr>) = (expiry_view cache)(u \<mapsto>
      (ex_must_change_by e, ex_generation e, ex_grace_remaining e - 1))"
    using r len e by (simp_all add: expiry_inv_ok expiry_view_find fun_eq_iff)
qed

text \<open>Every branch of a grace consumption, in terms of the view.\<close>

lemma try_consume_grace_cases:
  assumes "expiry_inv cache" and "xc_state cache = expiry_state_raw ExpiryReady"
    and "try_consume_grace sip env username now flags (Some cache, s) = ((c, s1), res)"
  obtains
    (unchanged) "c = Some cache" "s1 = s" "gr_outcome res \<noteq> Consumed"
      "view_decision (expiry_view cache (encode_username username)) now \<noteq> ExpiredWithGrace"
  | (refused) step must gen grace where "c = Some cache" "gr_outcome res = GraceUnavailable"
      "expiry_view cache (encode_username username) = Some (must, gen, grace)"
      "enqueue_encoded_silent sip env (encode_username username) EVENT_KIND_GRACE_CONSUMED flags gen s
         = (s1, step)" "\<not> is_durable (st_outcome step)" "\<not> now < must" "0 < grace"
  | (consumed) cache' step must gen grace where "c = Some cache'" "gr_outcome res = Consumed"
      "expiry_view cache (encode_username username) = Some (must, gen, grace)"
      "\<not> now < must" "0 < grace" "expiry_inv cache'" "xc_state cache' = xc_state cache"
      "expiry_view cache' = (expiry_view cache)(encode_username username \<mapsto> (must, gen, grace - 1))"
      "enqueue_encoded_silent sip env (encode_username username) EVENT_KIND_GRACE_CONSUMED flags gen s
         = (s1, step)" "is_durable (st_outcome step)"
proof (cases "List.find (expiry_table.slot_for (encode_username username)) (xc_entries cache)")
  case None
  then show ?thesis
    using assms by (intro unchanged)
      (auto simp: try_consume_grace_def Let_def grace_result_def expiry_view_find view_decision_def
        expiry_slot_for)
next
  case (Some e)
  let ?u = "encode_username username"
  let ?dec = "\<lambda>e. e\<lparr>ex_grace_remaining := ex_grace_remaining e - 1\<rparr>"
  have v: "expiry_view cache ?u = Some (ex_must_change_by e, ex_generation e, ex_grace_remaining e)"
    using Some by (simp add: expiry_view_find)
  show ?thesis
  proof (cases "classify e now = ExpiredWithGrace")
    case False
    then show ?thesis
      using assms(2,3) Some v by (intro unchanged)
        (auto simp: try_consume_grace_def Let_def grace_result_def view_decision_def classify_def
          expiry_slot_for split: if_splits)
  next
    case True
    then have x: "\<not> now < ex_must_change_by e" "0 < ex_grace_remaining e"
      by (auto simp: classify_def split: if_splits)
    obtain t step where q: "enqueue_encoded_silent sip env ?u EVENT_KIND_GRACE_CONSUMED flags
        (ex_generation e) s = (t, step)" by fastforce
    show ?thesis
    proof (cases "is_durable (st_outcome step)")
      case False
      then have "c = Some cache" "s1 = t" "gr_outcome res = GraceUnavailable"
        using assms(2,3) Some True q
        by (auto simp: try_consume_grace_def Let_def grace_result_def expiry_slot_for)
      then show ?thesis using refused v q False x by blast
    next
      case True
      obtain es where es: "update_first (expiry_table.slot_for ?u) ?dec (xc_entries cache) = Some es"
        using update_first_find_Some [OF Some] by blast
      have c: "c = Some (cache\<lparr>xc_entries := es\<rparr>)" "s1 = t" "gr_outcome res = Consumed"
        using assms(2,3) Some True q \<open>classify e now = ExpiredWithGrace\<close> es
        unfolding expiry_slot_for
        by (simp add: try_consume_grace_def grace_result_def; clarsimp)+
      show ?thesis using consumed [OF c(1,3) v x deduct_grace(1) [OF assms(1) Some x(2) es] _ deduct_grace(2) [OF assms(1) Some x(2) es]]
        c(2) q True by simp
    qed
  qed
qed

text \<open>
  A sequence of login attempts that try to consume a grace login, by any users, under any outcomes of
  the journal; the grace logins granted to each user.
\<close>

type_synonym grace_attempt = "enqueue_env \<times> username \<times> timestamp \<times> EventFlags"

fun grace_run :: "siphash \<Rightarrow> grace_attempt list \<Rightarrow> ExpiryCache option \<times> auth_shm
    \<Rightarrow> (ExpiryCache option \<times> auth_shm) \<times> username list" where
  "grace_run sip [] st = (st, [])"
| "grace_run sip ((env, username, now, flags) # as) st =
     (let (st1, res) = try_consume_grace sip env username now flags st;
          (st2, granted) = grace_run sip as st1
      in (st2, if gr_outcome res = Consumed then username # granted else granted))"

definition granted_to :: "byte list \<Rightarrow> username list \<Rightarrow> nat" where
  "granted_to u granted = length (filter (\<lambda>w. encode_username w = u) granted)"

lemma granted_to_simps [simp]:
  "granted_to u [] = 0"
  "granted_to u (w # ws) = (if encode_username w = u then Suc (granted_to u ws) else granted_to u ws)"
  by (simp_all add: granted_to_def)

lemma grace_run_accounting:
  assumes "expiry_inv cache" and "xc_state cache = expiry_state_raw ExpiryReady"
    and "grace_run sip as (Some cache, s) = ((c, s1), granted)"
    and "expiry_view cache u = Some (must, gen, grace)"
  shows "\<exists>cache'. c = Some cache' \<and> expiry_inv cache'
    \<and> expiry_view cache' u = Some (must, gen, grace - int (granted_to u granted))"
  using assms
proof (induction as arbitrary: cache s granted grace)
  case (Cons a as)
  obtain env username now flags where a: "a = (env, username, now, flags)" by (metis prod_cases4)
  obtain c2 s2 res where t: "try_consume_grace sip env username now flags (Some cache, s) = ((c2, s2), res)"
    by (metis prod.collapse)
  obtain st3 g2 where r: "grace_run sip as (c2, s2) = (st3, g2)" by fastforce
  have st3: "st3 = (c, s1)"
    and g: "granted = (if gr_outcome res = Consumed then username # g2 else g2)"
    using Cons.prems(3) a t r by auto
  from Cons.prems(1,2) t show ?case
  proof (cases rule: try_consume_grace_cases)
    case unchanged
    then show ?thesis using Cons.IH [OF Cons.prems(1,2)] Cons.prems(4) r st3 g by simp
  next
    case (refused step m ge gr)
    then show ?thesis using Cons.IH [OF Cons.prems(1,2)] Cons.prems(4) r st3 g by simp
  next
    case (consumed cache' step m ge gr)
    show ?thesis
    proof (cases "encode_username username = u")
      case True
      with consumed Cons.prems(4) have "expiry_view cache' u = Some (must, gen, grace - 1)" by simp
      with Cons.IH [OF consumed(6), where grace = "grace - 1"] consumed(1,2,7) Cons.prems(2) r st3 g True
      show ?thesis by (simp add: diff_diff_eq)
    next
      case False
      with consumed Cons.prems(4) have "expiry_view cache' u = Some (must, gen, grace)" by simp
      with Cons.IH [OF consumed(6)] consumed(1,2,7) Cons.prems(2) r st3 g False
      show ?thesis by simp
    qed
  qed
qed auto

lemma expiry_view_grace_nonneg:
  "expiry_inv cache \<Longrightarrow> expiry_view cache u = Some (must, gen, grace) \<Longrightarrow> 0 \<le> grace"
  by (auto simp: expiry_inv_ok expiry_view_find find_Some_iff)

lemma expiry_apply_hydrated_view:
  assumes "length (xc_entries cache) = EXPIRY_CACHE_SIZE"
    and "distinct (map ex_username prepared)" and "length prepared \<le> EXPIRY_CACHE_SIZE"
    and "\<forall>p \<in> set prepared. slot_used (ex_username p) \<and> 0 \<le> ex_grace_remaining p"
    and "expiry_apply_hydrated prepared rows over st (Some cache) = (c, loaded)"
  shows "\<exists>cache'. c = Some cache' \<and> expiry_inv cache' \<and> xc_state cache' = expiry_state_raw st
    \<and> expiry_view cache' u = map_option (\<lambda>e. (ex_must_change_by e, ex_generation e, ex_grace_remaining e))
        (List.find (\<lambda>e. ex_username e = u) prepared)
    \<and> loaded = int (length prepared)"
proof -
  have used: "filter (\<lambda>p. \<not> \<not> slot_used (ex_username p)) prepared = prepared"
    using assms(4) by simp
  have es: "fill_slots EXPIRY_CACHE_SIZE (\<lambda>p. \<not> slot_used (ex_username p)) id prepared 0
      (replicate EXPIRY_CACHE_SIZE ExpiryEntry_EMPTY) =
      (prepared @ replicate (EXPIRY_CACHE_SIZE - length prepared) ExpiryEntry_EMPTY, length prepared)"
    unfolding fill_slots_empty used using assms(3) by simp
  define cache' where "cache' = cache\<lparr>xc_entries := prepared
      @ replicate (EXPIRY_CACHE_SIZE - length prepared) ExpiryEntry_EMPTY, xc_hydration_rows := rows,
      xc_hydration_overflow := over, xc_state := expiry_state_raw st\<rparr>"
  have c: "c = Some cache'" "loaded = int (length prepared)"
    using assms(1,5) es
    by (simp_all add: expiry_apply_hydrated_def map_const_replicate cache'_def)
  have u: "\<forall>x \<in> set prepared. slot_used (ex_username x)" using assms(4) by simp
  note t = expiry_table.loaded_table [OF assms(2) u]
  have "expiry_inv cache'"
    unfolding expiry_inv_ok cache'_def using t(1) assms(3,4) by (auto simp: ExpiryEntry_EMPTY_def)
  then show ?thesis using c t(2) by (simp add: cache'_def expiry_view_find)
qed

section \<open>Properties of the expiry cache\<close>

text \<open>
  The expiry cache is a faithful map. Installing an entry overrides exactly that
  user's deadline, generation and (never negative) grace; with no free slot it evicts nobody and
  turns the cache \<open>Overflow\<close>; clearing removes exactly that user's entry.
\<close>

theorem expiry_cache_map_laws:
  assumes "expiry_inv cache" and "slot_used u"
    and "set_entry u must gen grace (Some cache) = (Some set_cache, st)"
    and "clear_entry u (Some cache) = (Some clear_cache, st2)"
  shows "expiry_inv set_cache
    \<and> (st = Applied \<longrightarrow> expiry_view set_cache = (expiry_view cache)(u \<mapsto> (must, gen, max grace 0))
         \<and> expiry_state (Some set_cache) = expiry_state (Some cache))
    \<and> (st = OpOverflowed \<longrightarrow> expiry_view set_cache = expiry_view cache
         \<and> expiry_state (Some set_cache) = ExpiryOverflow
         \<and> (\<forall>e \<in> set (xc_entries cache). slot_used (ex_username e)))
    \<and> expiry_inv clear_cache \<and> expiry_view clear_cache = (expiry_view cache)(u := None)"
proof -
  have cl: "expiry_inv clear_cache" "expiry_view clear_cache = (expiry_view cache)(u := None)"
    using clear_entry_view [OF assms(1,4)] by auto
  show ?thesis
  proof (cases st)
    case Applied
    with set_entry_applied [OF assms(1,2)] assms(3) show ?thesis
      using cl by (fastforce simp: expiry_state_def)
  next
    case OpOverflowed
    note o = set_entry_overflowed [OF assms(3) [unfolded OpOverflowed] assms(2)]
    show ?thesis using o assms(1) cl OpOverflowed by (simp add: expiry_state_def)
  qed
qed

lemma set_entry_new:
  assumes "slot_used u"
  shows "\<exists>c. set_entry u must gen grace (Some expiry_cache_new) = (Some c, Applied)"
  using assms by (simp add: set_entry_def expiry_cache_new_def update_first_replicate
      ExpiryEntry_EMPTY_def EXPIRY_CACHE_SIZE_def)

theorem expiry_cache_map_laws_witness:
  "\<exists>c. set_entry (encode_username [0x61]) 20 5 (- 3) (Some expiry_cache_new) = (Some c, Applied)
     \<and> expiry_view c (encode_username [0x61]) = Some (20, 5, 0)"
proof -
  have u: "slot_used (encode_username [0x61])"
    by (rule encode_used) (simp add: representable_def LOCK_USERNAME_BYTES_def)
  obtain c where c: "set_entry (encode_username [0x61]) 20 5 (- 3) (Some expiry_cache_new) = (Some c, Applied)"
    using set_entry_new [OF u] by blast
  obtain c2 st2 where c2: "clear_entry (encode_username [0x61]) (Some expiry_cache_new) = (Some c2, st2)"
    using clear_entry_view [OF expiry_cache_new_inv prod.collapse [symmetric]] by (metis prod.collapse)
  from expiry_cache_map_laws [OF expiry_cache_new_inv u c c2] c show ?thesis by simp
qed

text \<open>
  Consuming a grace login is atomic and recorded. A grace login is granted exactly
  when the password is expired, grace is left and the event, carrying the generation the grace belongs
  to, was appended durably to the journal; then exactly one is deducted from that user. In every other
  case the cache is unchanged.
\<close>

theorem grace_consumed_iff_recorded:
  assumes "expiry_inv cache" and "expiry_state (Some cache) = ExpiryReady"
    and "try_consume_grace sip env username now flags (Some cache, s) = ((c, s1), res)"
    and "expiry_view cache (encode_username username) = Some (must, gen, grace)"
  shows "\<exists>cache'. c = Some cache' \<and> expiry_inv cache'
    \<and> (if gr_outcome res = Consumed
       then \<not> now < must \<and> 0 < grace
         \<and> expiry_view cache' = (expiry_view cache)(encode_username username \<mapsto> (must, gen, grace - 1))
         \<and> (\<exists>i. en_event_id env = Some i \<and> jf_active (as_journal s1) =
              Some (active_bytes (as_journal s) @ encode sip (journaled_event env
                (encode_username username) EVENT_KIND_GRACE_CONSUMED flags gen i)))
       else cache' = cache)"
proof -
  have ready: "xc_state cache = expiry_state_raw ExpiryReady"
    using assms(2) by (auto simp: expiry_state_def expiry_state_from_raw_def split: if_splits)
  from assms(1) ready assms(3) show ?thesis
  proof (cases rule: try_consume_grace_cases)
    case unchanged
    then show ?thesis using assms(1) by simp
  next
    case (refused step m ge gr)
    then show ?thesis using assms(1) by simp
  next
    case (consumed cache' step m ge gr)
    then show ?thesis using enqueue_silent_durable [OF consumed(9,10)] assms(4) by auto
  qed
qed

text \<open>A cache that is ready and knows one user with an expired password.\<close>

definition graced_cache :: ExpiryCache where
  "graced_cache = (case set_entry (encode_username [0x61]) 20 5 2 (Some expiry_cache_new) of
     (Some c, _) \<Rightarrow> c\<lparr>xc_state := expiry_state_raw ExpiryReady\<rparr> | _ \<Rightarrow> expiry_cache_new)"

lemma graced_cache:
  "expiry_inv graced_cache" "expiry_state (Some graced_cache) = ExpiryReady"
  "expiry_view graced_cache (encode_username [0x61]) = Some (20, 5, 2)"
proof -
  have u: "slot_used (encode_username [0x61])"
    by (rule encode_used) (simp add: representable_def LOCK_USERNAME_BYTES_def)
  obtain c where c: "set_entry (encode_username [0x61]) 20 5 2 (Some expiry_cache_new) = (Some c, Applied)"
    using set_entry_new [OF u] by blast
  from set_entry_applied [OF expiry_cache_new_inv u c]
  show "expiry_inv graced_cache" "expiry_state (Some graced_cache) = ExpiryReady"
    "expiry_view graced_cache (encode_username [0x61]) = Some (20, 5, 2)"
    by (simp_all add: graced_cache_def c expiry_state_def)
qed

theorem grace_consumed_iff_recorded_witness:
  "\<exists>c s1 res. try_consume_grace (\<lambda>_ _ _. 0) \<lparr>en_event_id = None, en_now = 30, en_append = append_ok\<rparr>
      [0x61] 30 flags_none (Some graced_cache, fresh_auth) = ((c, s1), res) \<and> (\<exists>c'. c = Some c' \<and> expiry_inv c')"
proof -
  obtain c s1 res where r: "try_consume_grace (\<lambda>_ _ _. 0) \<lparr>en_event_id = None, en_now = 30,
      en_append = append_ok\<rparr> [0x61] 30 flags_none (Some graced_cache, fresh_auth) = ((c, s1), res)"
    by (metis prod.collapse)
  from grace_consumed_iff_recorded [OF graced_cache(1,2) r graced_cache(3)] r show ?thesis by blast
qed

text \<open>
  Property C39: grace logins cannot be overspent. Whatever the order of the attempts, whoever makes
  them and whenever the journal fails, the grace logins granted to a user plus the ones left in the cache
  are the ones there were, and what is left is never negative.
\<close>

theorem grace_never_overspent:
  assumes "expiry_inv cache" and "expiry_state (Some cache) = ExpiryReady"
    and "grace_run sip as (Some cache, s) = ((c, s1), granted)"
    and "expiry_view cache u = Some (must, gen, grace)"
  shows "\<exists>cache' left. c = Some cache' \<and> expiry_view cache' u = Some (must, gen, left)
    \<and> 0 \<le> left \<and> int (granted_to u granted) + left = grace"
proof -
  have "xc_state cache = expiry_state_raw ExpiryReady"
    using assms(2) by (auto simp: expiry_state_def expiry_state_from_raw_def split: if_splits)
  from grace_run_accounting [OF assms(1) this assms(3,4)] obtain cache' where
    c: "c = Some cache'" "expiry_inv cache'"
      "expiry_view cache' u = Some (must, gen, grace - int (granted_to u granted))" by blast
  then show ?thesis using expiry_view_grace_nonneg [OF c(2,3)] by simp
qed

theorem grace_never_overspent_witness:
  "\<exists>c s1. grace_run (\<lambda>_ _ _. 0) [(\<lparr>en_event_id = None, en_now = 30, en_append = append_ok\<rparr>, [0x61], 30,
      flags_none)] (Some graced_cache, fresh_auth) = ((c, s1), [])
     \<and> (\<exists>c' left. c = Some c' \<and> expiry_view c' (encode_username [0x61]) = Some (20, 5, left) \<and> left = 2)"
proof -
  let ?env = "\<lparr>en_event_id = None, en_now = 30, en_append = append_ok\<rparr>"
  have "expiry_view graced_cache (encode_username [0x61]) \<noteq> None" using graced_cache by simp
  then obtain e where e: "List.find (\<lambda>e. slot_used (ex_username e) \<and> ex_username e = encode_username [0x61])
      (xc_entries graced_cache) = Some e" by (auto simp: expiry_view_def)
  with graced_cache(3) have "classify e 30 = ExpiredWithGrace" by (auto simp: expiry_view_def classify_def)
  moreover have "expiry_state_from_raw (xc_state graced_cache) = ExpiryReady"
    using graced_cache(2) by (simp add: expiry_state_def)
  ultimately have "\<exists>c s1. grace_run (\<lambda>_ _ _. 0) [(?env, [0x61], 30, flags_none)] (Some graced_cache, fresh_auth)
      = ((c, s1), [])"
    using e by (simp add: try_consume_grace_def Let_def enqueue_encoded_silent_def unavailable_step_def
        grace_result_def)
  then obtain c s1 where r: "grace_run (\<lambda>_ _ _. 0) [(?env, [0x61], 30, flags_none)]
      (Some graced_cache, fresh_auth) = ((c, s1), [])" by blast
  from grace_never_overspent [OF graced_cache(1,2) r graced_cache(3)] r show ?thesis by auto
qed

end
