(* ===== verification/Keyed_Cache.thy ===== *)
theory Keyed_Cache
  imports Expiry_Cache
begin

text \<open>
  The contract the commit callback relies on: an operation on a cache either takes effect on exactly
  its own key, or leaves the cache marked as degraded, and a degraded cache stays degraded. Over a
  sequence of operations the latest one for a key wins. Both caches keep the contract.
\<close>

definition overlay :: "('o \<Rightarrow> 'k) \<Rightarrow> ('o \<Rightarrow> 'v option) \<Rightarrow> 'o list \<Rightarrow> ('k \<Rightarrow> 'v option) \<Rightarrow> 'k \<Rightarrow> 'v option" where
  "overlay key val os m = fold (\<lambda>x f. f(key x := val x)) os m"

lemma overlay_Nil [simp]: "overlay key val [] m = m"
  and overlay_Cons: "overlay key val (x # xs) m = overlay key val xs (m(key x := val x))"
  by (simp_all add: overlay_def)

lemma overlay_latest:
  "overlay key val os m k =
     (case List.find (\<lambda>x. key x = k) (rev os) of None \<Rightarrow> m k | Some x \<Rightarrow> val x)"
proof (induction os arbitrary: m)
  case (Cons x xs)
  then show ?case by (auto simp: overlay_Cons find_append split: option.split)
qed simp

locale keyed_cache =
  fixes inv :: "'s \<Rightarrow> bool"
    and view :: "'s \<Rightarrow> 'k \<Rightarrow> 'v option"
    and degraded :: "'s \<Rightarrow> bool"
    and apply_op :: "'o \<Rightarrow> 's \<Rightarrow> 's"
    and key :: "'o \<Rightarrow> 'k"
    and val :: "'o \<Rightarrow> 'v option"
    and ok :: "'o \<Rightarrow> bool"
  assumes apply_inv: "inv s \<Longrightarrow> ok x \<Longrightarrow> inv (apply_op x s)"
    and apply_degraded: "inv s \<Longrightarrow> ok x \<Longrightarrow> degraded s \<Longrightarrow> degraded (apply_op x s)"
    and apply_view: "inv s \<Longrightarrow> ok x \<Longrightarrow> \<not> degraded (apply_op x s) \<Longrightarrow>
      view (apply_op x s) = (view s)(key x := val x)"
begin

lemma apply_ops:
  assumes "inv s" and "\<forall>x \<in> set os. ok x"
  shows "inv (fold apply_op os s) \<and> (degraded s \<longrightarrow> degraded (fold apply_op os s))
    \<and> (degraded (fold apply_op os s) \<or> view (fold apply_op os s) = overlay key val os (view s))"
  using assms
proof (induction os arbitrary: s)
  case (Cons x xs)
  let ?s = "apply_op x s"
  have i: "inv ?s" using Cons.prems apply_inv by simp
  note ih = Cons.IH [OF i]
  show ?case
  proof (cases "degraded ?s")
    case True
    then show ?thesis using ih Cons.prems by simp
  next
    case False
    then have v: "(view s)(key x := val x) = view ?s" using apply_view Cons.prems by simp
    have "\<not> degraded s" using apply_degraded False Cons.prems by auto
    then show ?thesis using ih Cons.prems(2) unfolding overlay_Cons v by simp
  qed
qed simp

lemma latest_wins:
  assumes "inv s" and "\<forall>x \<in> set os. ok x" and "\<not> degraded (fold apply_op os s)"
  shows "view (fold apply_op os s) k =
    (case List.find (\<lambda>x. key x = k) (rev os) of None \<Rightarrow> view s k | Some x \<Rightarrow> val x)"
  using apply_ops [OF assms(1,2)] assms(3) by (simp add: overlay_latest)

end

section \<open>The lock cache\<close>

text \<open>One committed operation on the lock cache: the moment, the user and the decision.\<close>

type_synonym lock_op = "timestamp \<times> byte list \<times> CacheDecision"

fun lock_apply :: "lock_op \<Rightarrow> LockCache option \<Rightarrow> LockCache option" where
  "lock_apply (now, u, SetLock x) c = fst (lock_set now u x c)"
| "lock_apply (now, u, ClearLock) c = fst (lock_clear u c)"

fun lock_op_key :: "lock_op \<Rightarrow> byte list" where
  "lock_op_key (now, u, d) = u"

fun lock_op_val :: "timestamp \<Rightarrow> lock_op \<Rightarrow> timestamp option" where
  "lock_op_val t (now, u, SetLock x) = (if t < x then Some x else None)"
| "lock_op_val t (now, u, ClearLock) = None"

text \<open>Operations applied by \<open>t\<close> that still lie in the future when they are applied.\<close>

fun lock_op_ok :: "timestamp \<Rightarrow> lock_op \<Rightarrow> bool" where
  "lock_op_ok t (now, u, SetLock x) \<longleftrightarrow> slot_used u \<and> now < x \<and> now \<le> t"
| "lock_op_ok t (now, u, ClearLock) \<longleftrightarrow> True"

definition lock_opt_inv :: "LockCache option \<Rightarrow> bool" where
  "lock_opt_inv c \<longleftrightarrow> (\<exists>cache. c = Some cache \<and> lock_inv cache)"

definition lock_opt_view :: "timestamp \<Rightarrow> LockCache option \<Rightarrow> byte list \<Rightarrow> timestamp option" where
  "lock_opt_view t c u = (case c of None \<Rightarrow> None | Some cache \<Rightarrow> lock_view t cache u)"

definition lock_degraded :: "LockCache option \<Rightarrow> bool" where
  "lock_degraded c \<longleftrightarrow> lock_state c = Overflow"

lemma lock_apply_cases:
  assumes "lock_inv cache" and "lock_op_ok t x"
  shows "\<exists>cache'. lock_apply x (Some cache) = Some cache' \<and> lock_inv cache'
    \<and> (lock_state (Some cache') = Overflow
       \<or> lc_state cache' = lc_state cache
         \<and> lock_view t cache' = (lock_view t cache)(lock_op_key x := lock_op_val t x))"
proof -
  obtain now u d where x: "x = (now, u, d)" by (metis prod_cases3)
  show ?thesis
  proof (cases d)
    case (SetLock y)
    obtain c st where s: "lock_set now u y (Some cache) = (c, st)" by fastforce
    have ok: "slot_used u" "now < y" "now \<le> t" using assms(2) x SetLock by simp_all
    show ?thesis
    proof (cases st)
      case Applied
      then show ?thesis
        using lock_set_applied [OF assms(1) ok(2,1)] s ok(3) x SetLock by fastforce
    next
      case OpOverflowed
      then have "c = Some (cache\<lparr>lc_state := cache_state_raw Overflow\<rparr>)"
        using lock_set_overflowed(1) s by simp
      then show ?thesis using s x SetLock assms(1) by (simp add: lock_state_def)
    qed
  next
    case ClearLock
    obtain c st where s: "lock_clear u (Some cache) = (c, st)" by fastforce
    from lock_clear_view [OF assms(1) s] show ?thesis using s x ClearLock by auto
  qed
qed

interpretation lock_cache: keyed_cache lock_opt_inv "lock_opt_view t" lock_degraded lock_apply
  lock_op_key "lock_op_val t" "lock_op_ok t" for t
proof (unfold_locales, goal_cases)
  case (1 s x)
  then obtain cache where "s = Some cache" "lock_inv cache" by (auto simp: lock_opt_inv_def)
  with lock_apply_cases [OF this(2) 1(2)] show ?case by (auto simp: lock_opt_inv_def)
next
  case (2 s x)
  then obtain cache where "s = Some cache" "lock_inv cache" by (auto simp: lock_opt_inv_def)
  with lock_apply_cases [OF this(2) 2(2)] 2(3) show ?case
    by (auto simp: lock_degraded_def lock_state_def)
next
  case (3 s x)
  then obtain cache where "s = Some cache" "lock_inv cache" by (auto simp: lock_opt_inv_def)
  with lock_apply_cases [OF this(2) 3(2)] 3(3) show ?case
    by (auto simp: lock_degraded_def lock_opt_view_def fun_eq_iff)
qed

section \<open>The expiry cache\<close>

text \<open>One committed operation on the expiry cache: the user, and the new entry or its removal.\<close>

type_synonym expiry_op = "byte list \<times> (timestamp \<times> timestamp \<times> int) option"

fun expiry_apply :: "expiry_op \<Rightarrow> ExpiryCache option \<Rightarrow> ExpiryCache option" where
  "expiry_apply (u, Some (must, gen, grace)) c = fst (set_entry u must gen grace c)"
| "expiry_apply (u, None) c = fst (clear_entry u c)"

fun expiry_op_val :: "expiry_op \<Rightarrow> (timestamp \<times> timestamp \<times> int) option" where
  "expiry_op_val (u, Some (must, gen, grace)) = Some (must, gen, max grace 0)"
| "expiry_op_val (u, None) = None"

definition expiry_opt_inv :: "ExpiryCache option \<Rightarrow> bool" where
  "expiry_opt_inv c \<longleftrightarrow> (\<exists>cache. c = Some cache \<and> expiry_inv cache)"

definition expiry_opt_view :: "ExpiryCache option \<Rightarrow> byte list \<Rightarrow> (timestamp \<times> timestamp \<times> int) option" where
  "expiry_opt_view c u = (case c of None \<Rightarrow> None | Some cache \<Rightarrow> expiry_view cache u)"

definition expiry_degraded :: "ExpiryCache option \<Rightarrow> bool" where
  "expiry_degraded c \<longleftrightarrow> expiry_state c = ExpiryOverflow"

lemma expiry_apply_cases:
  assumes "expiry_inv cache" and "slot_used (fst x)"
  shows "\<exists>cache'. expiry_apply x (Some cache) = Some cache' \<and> expiry_inv cache'
    \<and> (expiry_state (Some cache') = ExpiryOverflow
       \<or> xc_state cache' = xc_state cache
         \<and> expiry_view cache' = (expiry_view cache)(fst x := expiry_op_val x))"
proof (cases x rule: expiry_op_val.cases)
  case (1 u must gen grace)
  obtain c st where s: "set_entry u must gen grace (Some cache) = (c, st)" by fastforce
  have u: "slot_used u" using assms(2) 1 by simp
  show ?thesis
  proof (cases st)
    case Applied
    then show ?thesis using set_entry_applied [OF assms(1) u] s 1 by fastforce
  next
    case OpOverflowed
    then have "c = Some (cache\<lparr>xc_state := expiry_state_raw ExpiryOverflow\<rparr>)"
      using set_entry_overflowed(1) s u by blast
    then show ?thesis using s 1 assms(1) by (simp add: expiry_state_def)
  qed
next
  case (2 u)
  obtain c st where s: "clear_entry u (Some cache) = (c, st)" by fastforce
  from clear_entry_view [OF assms(1) s] show ?thesis using s 2 by auto
qed

interpretation expiry_cache: keyed_cache expiry_opt_inv expiry_opt_view expiry_degraded expiry_apply
  fst expiry_op_val "\<lambda>x. slot_used (fst x)"
proof (unfold_locales, goal_cases)
  case (1 s x)
  then obtain cache where "s = Some cache" "expiry_inv cache" by (auto simp: expiry_opt_inv_def)
  with expiry_apply_cases [OF this(2) 1(2)] show ?case by (auto simp: expiry_opt_inv_def)
next
  case (2 s x)
  then obtain cache where "s = Some cache" "expiry_inv cache" by (auto simp: expiry_opt_inv_def)
  with expiry_apply_cases [OF this(2) 2(2)] 2(3) show ?case
    by (auto simp: expiry_degraded_def expiry_state_def)
next
  case (3 s x)
  then obtain cache where "s = Some cache" "expiry_inv cache" by (auto simp: expiry_opt_inv_def)
  with expiry_apply_cases [OF this(2) 3(2)] 3(3) show ?case
    by (auto simp: expiry_degraded_def expiry_opt_view_def fun_eq_iff)
qed

end
