(* ===== verification/Bypass_Cache.thy ===== *)
theory Bypass_Cache
  imports Slot_Table
begin

text \<open>
  The shared exemption cache of \<^verbatim>\<open>bypass_cache.rs\<close>: the roles that skip the extension's checks. It is
  only ever replaced as a whole, and answers only when it is known to be complete.
\<close>

datatype BypassCacheState = BypassNotReady | BypassReady | BypassOverflow | BypassWorkerFailed

fun bypass_state_raw :: "BypassCacheState \<Rightarrow> int" where
  "bypass_state_raw BypassNotReady = 0"
| "bypass_state_raw BypassReady = 1"
| "bypass_state_raw BypassOverflow = 2"
| "bypass_state_raw BypassWorkerFailed = 3"

definition bypass_state_from_raw :: "int \<Rightarrow> BypassCacheState" where
  "bypass_state_from_raw raw =
     (if raw = 1 then BypassReady else if raw = 2 then BypassOverflow
      else if raw = 3 then BypassWorkerFailed else BypassNotReady)"

datatype BypassDecision = Bypassed | NotBypassed | BypassUnavailable

record BypassCache =
  bc_entries :: "byte list list"
  bc_state :: int
  bc_rows :: int
  bc_overflow :: int

definition bypass_cache_new :: BypassCache where
  "bypass_cache_new = \<lparr>bc_entries = replicate BYPASS_CACHE_SIZE EMPTY_USERNAME,
     bc_state = bypass_state_raw BypassNotReady, bc_rows = 0, bc_overflow = 0\<rparr>"

definition bypass_init :: "BypassCache option \<Rightarrow> BypassCache option \<Rightarrow> BypassCache option" where
  "bypass_init existing c =
     (case c of
        Some cache \<Rightarrow> Some cache
      | None \<Rightarrow> Some (case existing of None \<Rightarrow> bypass_cache_new | Some cache \<Rightarrow> cache))"

definition bypass_state :: "BypassCache option \<Rightarrow> BypassCacheState" where
  "bypass_state c = (case c of None \<Rightarrow> BypassNotReady | Some cache \<Rightarrow> bypass_state_from_raw (bc_state cache))"

definition bypass_set_state :: "BypassCacheState \<Rightarrow> BypassCache option \<Rightarrow> BypassCache option" where
  "bypass_set_state new_state c = map_option (\<lambda>cache. cache\<lparr>bc_state := bypass_state_raw new_state\<rparr>) c"

definition bypass_lookup :: "username \<Rightarrow> BypassCache option \<Rightarrow> BypassDecision" where
  "bypass_lookup username c =
     (case c of
        None \<Rightarrow> BypassUnavailable
      | Some cache \<Rightarrow>
          let encoded = encode_username username
          in if \<not> slot_used encoded then BypassUnavailable
             else if bypass_state_from_raw (bc_state cache) \<noteq> BypassReady then BypassUnavailable
             else if List.find (\<lambda>e. slot_used e \<and> e = encoded) (bc_entries cache) \<noteq> None then Bypassed
             else NotBypassed)"

definition apply_refreshed ::
  "byte list list \<Rightarrow> int \<Rightarrow> int \<Rightarrow> BypassCacheState \<Rightarrow> BypassCache option \<Rightarrow> BypassCache option \<times> int" where
  "apply_refreshed prepared rows overflow new_state c =
     (case c of
        None \<Rightarrow> (c, 0)
      | Some cache \<Rightarrow>
          let cleared = map (\<lambda>_. EMPTY_USERNAME) (bc_entries cache);
              (es, loaded) = fill_slots BYPASS_CACHE_SIZE (\<lambda>p. \<not> slot_used p) id prepared 0 cleared
          in (Some (cache\<lparr>bc_entries := es, bc_rows := rows, bc_overflow := overflow,
                bc_state := bypass_state_raw new_state\<rparr>), int loaded))"

record BypassStats =
  bs_capacity :: int
  bs_used :: int
  bs_rows :: int
  bs_overflow :: int
  bs_state :: int

definition bypass_stats :: "BypassCache option \<Rightarrow> BypassStats option" where
  "bypass_stats c =
     map_option (\<lambda>cache. \<lparr>bs_capacity = int BYPASS_CACHE_SIZE,
       bs_used = int (length (filter slot_used (bc_entries cache))), bs_rows = bc_rows cache,
       bs_overflow = bc_overflow cache,
       bs_state = bypass_state_raw (bypass_state_from_raw (bc_state cache))\<rparr>) c"

definition bypass_prepared_entry :: "username \<Rightarrow> byte list" where
  "bypass_prepared_entry username = encode_username username"

section \<open>Lemmas\<close>

interpretation bypass_table: slot_table "\<lambda>e. e" EMPTY_USERNAME
  by unfold_locales simp

lemma bypass_slot_for: "bypass_table.slot_for u = (\<lambda>e. slot_used e \<and> e = u)"
  by (simp add: fun_eq_iff bypass_table.slot_for_def)

lemma bypass_state_roundtrip [simp]: "bypass_state_from_raw (bypass_state_raw s) = s"
  by (cases s) (simp_all add: bypass_state_from_raw_def)

lemma bypass_lookup_bypassed:
  "bypass_lookup username (Some cache) = Bypassed \<longleftrightarrow>
    bypass_state (Some cache) = BypassReady \<and> slot_used (encode_username username)
    \<and> encode_username username \<in> set (bc_entries cache)"
  by (auto simp: bypass_lookup_def bypass_state_def Let_def find_None_iff)

lemma apply_refreshed_entries:
  assumes "length (bc_entries cache) = BYPASS_CACHE_SIZE" and "length prepared \<le> BYPASS_CACHE_SIZE"
  shows "apply_refreshed prepared rows over st (Some cache) =
    (Some (cache\<lparr>bc_entries := filter slot_used prepared
        @ replicate (BYPASS_CACHE_SIZE - length (filter slot_used prepared)) EMPTY_USERNAME,
      bc_rows := rows, bc_overflow := over, bc_state := bypass_state_raw st\<rparr>),
     int (length (filter slot_used prepared)))"
proof -
  have "length (filter slot_used prepared) \<le> BYPASS_CACHE_SIZE"
    using assms(2) length_filter_le le_trans by blast
  moreover have "map (\<lambda>_. EMPTY_USERNAME) (bc_entries cache) = replicate BYPASS_CACHE_SIZE EMPTY_USERNAME"
    using assms(1) by (simp add: map_replicate_const)
  ultimately show ?thesis by (simp add: apply_refreshed_def fill_slots_empty Let_def)
qed

text \<open>After a refresh that fits, a role is reported as exempt if and only if the refresh listed it.\<close>

lemma bypass_lookup_after_refresh:
  assumes "length (bc_entries cache) = BYPASS_CACHE_SIZE"
    and "length names \<le> BYPASS_CACHE_SIZE" and "\<forall>n \<in> set names. representable n"
    and "representable u"
    and "apply_refreshed (map bypass_prepared_entry names) rows over st (Some cache) = (c, loaded)"
  shows "bypass_lookup u c =
    (if st \<noteq> BypassReady then BypassUnavailable else if u \<in> set names then Bypassed else NotBypassed)"
proof -
  let ?enc = "map bypass_prepared_entry names"
  have used: "filter slot_used ?enc = ?enc"
    using assms(3) by (auto simp: bypass_prepared_entry_def encode_used intro!: filter_True)
  have c: "c = Some (cache\<lparr>bc_entries := ?enc @ replicate (BYPASS_CACHE_SIZE - length ?enc) EMPTY_USERNAME,
      bc_rows := rows, bc_overflow := over, bc_state := bypass_state_raw st\<rparr>)"
    using apply_refreshed_entries [OF assms(1), of ?enc rows over st] assms(2,5) unfolding used by simp
  have mem: "encode_username u \<in> set ?enc \<longleftrightarrow> u \<in> set names"
    using encode_username_inj [OF assms(4)] assms(3) by (auto simp: bypass_prepared_entry_def)
  have "slot_used (encode_username u)" using encode_used [OF assms(4)] .
  moreover have "encode_username u \<noteq> EMPTY_USERNAME" using calculation EMPTY_USERNAME_free by metis
  ultimately show ?thesis
    using mem unfolding c by (auto simp: bypass_lookup_def Let_def find_None_iff)
qed

end
