(* ===== verification/Pending_Ops.thy ===== *)
theory Pending_Ops
  imports Keyed_Cache Bypass_Cache
begin

text \<open>
  The commit-time staging area of \<^verbatim>\<open>pending_cache_op.rs\<close>: a bounded array of cache operations with the
  subtransaction that staged them, the savepoint algebra, and the transaction callbacks that apply or
  discard them. Shared memory is the record \<open>shm\<close> of the queue and the three caches.
\<close>

section \<open>Data\<close>

record shm =
  sh_auth :: auth_shm
  sh_lock :: "LockCache option"
  sh_expiry :: "ExpiryCache option"
  sh_bypass :: "BypassCache option"

definition MAX_PENDING_OPS :: nat where "MAX_PENDING_OPS = 16"

datatype PendingExpiry = ExpiryNone | ExpirySet timestamp timestamp int | ExpiryClear

type_synonym subid = nat

record PendingEntry =
  pe_username :: "byte list"
  pe_decision :: "CacheDecision option"
  pe_expiry :: PendingExpiry
  pe_subid :: subid

record PendingAck =
  pa_token :: ClaimToken
  pa_subid :: subid

record PendingState =
  pn_entries :: "PendingEntry option list"
  pn_len :: nat
  pn_ack :: "PendingAck option"

datatype StageCapacityExceeded = StageCapacityExceeded

datatype XactEvent = XactCommit | XactParallelCommit | XactAbort | XactParallelAbort
  | XactPrePrepare | XactPrepare | XactPreCommit | XactParallelPreCommit

datatype SubXactEvent = SubStart | SubCommit | SubAbort | SubPreCommit

section \<open>The staging area\<close>

definition pending_new :: PendingState where
  "pending_new = \<lparr>pn_entries = replicate MAX_PENDING_OPS None, pn_len = 0, pn_ack = None\<rparr>"

definition live :: "PendingState \<Rightarrow> nat" where
  "live st = (if MAX_PENDING_OPS < pn_len st then MAX_PENDING_OPS else pn_len st)"

definition pending_is_empty :: "PendingState \<Rightarrow> bool" where
  "pending_is_empty st \<longleftrightarrow> live st = 0 \<and> pn_ack st = None"

definition pending_reset :: "PendingState \<Rightarrow> PendingState" where
  "pending_reset st = \<lparr>pn_entries = map (\<lambda>_. None) (pn_entries st), pn_len = 0, pn_ack = None\<rparr>"

text \<open>The backward search \<^verbatim>\<open>for idx in (0..live).rev()\<close>: the largest index below \<open>n\<close> that matches.\<close>

fun find_last :: "('a \<Rightarrow> bool) \<Rightarrow> 'a option list \<Rightarrow> nat \<Rightarrow> nat option" where
  "find_last p es 0 = None"
| "find_last p es (Suc n) =
     (case es ! n of Some e \<Rightarrow> if p e then Some n else find_last p es n | None \<Rightarrow> find_last p es n)"

definition stage_entry :: "byte list \<Rightarrow> CacheDecision option \<Rightarrow> PendingExpiry \<Rightarrow> subid
    \<Rightarrow> PendingState \<Rightarrow> PendingState \<times> (StageCapacityExceeded + unit)" where
  "stage_entry username decision expiry subid st =
     (let n = live st in
      case find_last (\<lambda>e. pe_subid e = subid \<and> pe_username e = username) (pn_entries st) n of
        Some idx \<Rightarrow>
          (st\<lparr>pn_entries := (pn_entries st)[idx :=
             map_option (\<lambda>e. e\<lparr>pe_decision := decision, pe_expiry := expiry\<rparr>) (pn_entries st ! idx)]\<rparr>,
           Inr ())
      | None \<Rightarrow>
          if MAX_PENDING_OPS \<le> n then (st, Inl StageCapacityExceeded)
          else (st\<lparr>pn_entries := (pn_entries st)[n := Some \<lparr>pe_username = username,
                     pe_decision = decision, pe_expiry = expiry, pe_subid = subid\<rparr>],
                   pn_len := n + 1\<rparr>, Inr ()))"

text \<open>
  The compaction loop shared by the two callbacks: the surviving entries move down to the write index,
  the slots between the last survivor and \<open>n\<close> are emptied.
\<close>

definition compact :: "(nat \<Rightarrow> 'a option list \<Rightarrow> bool) \<Rightarrow> nat \<Rightarrow> 'a option list \<Rightarrow> 'a option list \<times> nat" where
  "compact keep n es =
     (let (es1, write) = foldl (\<lambda>(xs, w) read. if keep read xs then (xs[w := xs ! read], w + 1) else (xs, w))
            (es, 0) [0..<n]
      in (foldl (\<lambda>xs i. xs[i := None]) es1 [write..<min n (length es1)], write))"

definition keep_other :: "subid \<Rightarrow> nat \<Rightarrow> PendingEntry option list \<Rightarrow> bool" where
  "keep_other my_subid read es = (case es ! read of Some e \<Rightarrow> pe_subid e \<noteq> my_subid | None \<Rightarrow> False)"

definition on_sub_abort :: "subid \<Rightarrow> PendingState \<Rightarrow> PendingState" where
  "on_sub_abort my_subid st =
     (let ack = (case pn_ack st of
            Some a \<Rightarrow> if pa_subid a = my_subid then None else Some a | None \<Rightarrow> None);
          (es, write) = compact (keep_other my_subid) (live st) (pn_entries st)
      in \<lparr>pn_entries = es, pn_len = write, pn_ack = ack\<rparr>)"

definition not_superseded :: "nat \<Rightarrow> nat \<Rightarrow> PendingEntry option list \<Rightarrow> bool" where
  "not_superseded n read es =
     (case es ! read of
        Some e \<Rightarrow> \<not> list_ex (\<lambda>later. case es ! later of
            Some x \<Rightarrow> pe_subid x = pe_subid e \<and> pe_username x = pe_username e | None \<Rightarrow> False)
          [read + 1..<n]
      | None \<Rightarrow> False)"

definition compact_duplicates :: "PendingState \<Rightarrow> PendingState" where
  "compact_duplicates st =
     (let (es, write) = compact (not_superseded (live st)) (live st) (pn_entries st)
      in st\<lparr>pn_entries := es, pn_len := write\<rparr>)"

definition reparent :: "subid \<Rightarrow> subid \<Rightarrow> PendingEntry \<Rightarrow> PendingEntry" where
  "reparent my_subid parent_subid e =
     (if pe_subid e = my_subid then e\<lparr>pe_subid := parent_subid\<rparr> else e)"

definition on_sub_commit :: "subid \<Rightarrow> subid \<Rightarrow> PendingState \<Rightarrow> PendingState" where
  "on_sub_commit my_subid parent_subid st =
     (let ack = map_option (\<lambda>a. if pa_subid a = my_subid then a\<lparr>pa_subid := parent_subid\<rparr> else a) (pn_ack st);
          n = live st;
          es = map (map_option (reparent my_subid parent_subid)) (take n (pn_entries st))
               @ drop n (pn_entries st)
      in compact_duplicates (st\<lparr>pn_ack := ack, pn_entries := es\<rparr>))"

text \<open>
  \<^verbatim>\<open>resolved\<close>: the decision of the latest surviving entry. Used by the source's own tests as the
  definition of what a commit applies.
\<close>

definition resolved :: "byte list \<Rightarrow> PendingState \<Rightarrow> CacheDecision option option" where
  "resolved username st =
     foldl (\<lambda>found slot. case slot of
         Some e \<Rightarrow> if pe_username e = username then Some (pe_decision e) else found
       | None \<Rightarrow> found) None (take (live st) (pn_entries st))"

section \<open>Staging and applying\<close>

definition stage_inner :: "subid \<Rightarrow> byte list \<Rightarrow> CacheDecision option \<Rightarrow> PendingExpiry
    \<Rightarrow> PendingState \<Rightarrow> PendingState \<times> (string + unit)" where
  "stage_inner subid username_bytes decision expiry st =
     (case stage_entry username_bytes decision expiry subid st of
        (st1, Inr _) \<Rightarrow> (st1, Inr ())
      | (st1, Inl StageCapacityExceeded) \<Rightarrow>
          (st1, Inl ''password_profile: more than 16 pending lock cache operations in one transaction; aborting the transaction rather than dropping a lockout update''))"

definition stage :: "subid \<Rightarrow> byte list \<Rightarrow> CacheDecision \<Rightarrow> PendingState \<Rightarrow> PendingState \<times> (string + unit)" where
  "stage subid username_bytes decision st = stage_inner subid username_bytes (Some decision) ExpiryNone st"

definition stage_expiry :: "subid \<Rightarrow> byte list \<Rightarrow> PendingExpiry \<Rightarrow> PendingState \<Rightarrow> PendingState \<times> (string + unit)" where
  "stage_expiry subid username_bytes expiry st = stage_inner subid username_bytes None expiry st"

definition stage_combined :: "subid \<Rightarrow> byte list \<Rightarrow> CacheDecision \<Rightarrow> PendingExpiry
    \<Rightarrow> PendingState \<Rightarrow> PendingState \<times> (string + unit)" where
  "stage_combined subid username_bytes decision expiry st =
     stage_inner subid username_bytes (Some decision) expiry st"

definition stage_ack :: "subid \<Rightarrow> ClaimToken \<Rightarrow> PendingState \<Rightarrow> PendingState" where
  "stage_ack subid token st = st\<lparr>pn_ack := Some \<lparr>pa_token = token, pa_subid = subid\<rparr>\<rparr>"

text \<open>The effect of one committed entry on the two caches; \<open>now\<close> is the clock \<^verbatim>\<open>lock_cache::set\<close> reads.\<close>

definition apply_entry :: "timestamp \<Rightarrow> PendingEntry \<Rightarrow> shm \<Rightarrow> shm" where
  "apply_entry now entry s =
     (let s1 = (case pe_decision entry of
            None \<Rightarrow> s
          | Some (SetLock expires_at) \<Rightarrow>
              s\<lparr>sh_lock := fst (lock_set now (pe_username entry) expires_at (sh_lock s))\<rparr>
          | Some ClearLock \<Rightarrow> s\<lparr>sh_lock := fst (lock_clear (pe_username entry) (sh_lock s))\<rparr>)
      in case pe_expiry entry of
           ExpiryNone \<Rightarrow> s1
         | ExpirySet must_change_by generation grace_remaining \<Rightarrow>
             s1\<lparr>sh_expiry := fst (set_entry (pe_username entry) must_change_by generation
                   grace_remaining (sh_expiry s1))\<rparr>
         | ExpiryClear \<Rightarrow> s1\<lparr>sh_expiry := fst (clear_entry (pe_username entry) (sh_expiry s1))\<rparr>)"

fun apply_entries :: "(nat \<Rightarrow> timestamp) \<Rightarrow> nat \<Rightarrow> PendingEntry option list \<Rightarrow> shm \<Rightarrow> shm" where
  "apply_entries clock i [] s = s"
| "apply_entries clock i (None # es) s = apply_entries clock (Suc i) es s"
| "apply_entries clock i (Some e # es) s = apply_entries clock (Suc i) es (apply_entry (clock i) e s)"

definition apply_all :: "(nat \<Rightarrow> timestamp) \<Rightarrow> PendingState \<Rightarrow> shm \<Rightarrow> shm" where
  "apply_all clock st s = apply_entries clock 0 (take (live st) (pn_entries st)) s"

text \<open>The transaction callback: \<open>Inl\<close> is the error raised at \<^verbatim>\<open>PRE_PREPARE\<close>.\<close>

fun xact_callback :: "(nat \<Rightarrow> timestamp) \<Rightarrow> XactEvent \<Rightarrow> PendingState \<times> shm
    \<Rightarrow> string + (PendingState \<times> shm)" where
  "xact_callback clock event (st, s) =
     (if event = XactCommit \<or> event = XactParallelCommit then
        let s1 = apply_all clock st s;
            s2 = (case pn_ack st of
                None \<Rightarrow> s1
              | Some a \<Rightarrow> s1\<lparr>sh_auth := fst (ack_claim (pa_token a) (sh_auth s1))\<rparr>)
        in Inr (pending_reset st, s2)
      else if event = XactAbort \<or> event = XactParallelAbort then Inr (pending_reset st, s)
      else if event = XactPrePrepare then
        if \<not> pending_is_empty st
        then Inl ''password_profile: PREPARE TRANSACTION is not supported while lock cache updates are pending; commit or roll back this transaction instead''
        else Inr (st, s)
      else if event = XactPrepare then Inr (pending_reset st, s)
      else Inr (st, s))"

fun subxact_callback :: "SubXactEvent \<Rightarrow> subid \<Rightarrow> subid \<Rightarrow> PendingState \<Rightarrow> PendingState" where
  "subxact_callback SubAbort my_subid parent_subid st = on_sub_abort my_subid st"
| "subxact_callback SubCommit my_subid parent_subid st = on_sub_commit my_subid parent_subid st"
| "subxact_callback SubStart my_subid parent_subid st = st"
| "subxact_callback SubPreCommit my_subid parent_subid st = st"

section \<open>The array refines a list\<close>

definition pend_rel :: "PendingState \<Rightarrow> PendingEntry list \<Rightarrow> bool" where
  "pend_rel st xs \<longleftrightarrow> length xs \<le> MAX_PENDING_OPS \<and> pn_len st = length xs
     \<and> pn_entries st = map Some xs @ replicate (MAX_PENDING_OPS - length xs) None"

lemma pend_rel_live [simp]: "pend_rel st xs \<Longrightarrow> live st = length xs"
  by (simp add: pend_rel_def live_def)

lemma pend_rel_take [simp]: "pend_rel st xs \<Longrightarrow> take (length xs) (pn_entries st) = map Some xs"
  by (simp add: pend_rel_def)

lemma pend_rel_new: "pend_rel pending_new []"
  by (simp add: pend_rel_def pending_new_def)

lemma pend_rel_reset: "pend_rel st xs \<Longrightarrow> pend_rel (pending_reset st) []"
  by (simp add: pend_rel_def pending_reset_def map_const_replicate flip: replicate_add)

text \<open>The backward search is a forward search in the reversed list.\<close>

lemma find_last_update:
  "update_first p f (rev xs) = (case find_last p (map Some xs @ rest) (length xs) of
     None \<Rightarrow> None | Some i \<Rightarrow> Some (rev (xs[i := f (xs ! i)])))
   \<and> (\<forall>i. find_last p (map Some xs @ rest) (length xs) = Some i \<longrightarrow> i < length xs)"
proof (induction xs arbitrary: rest rule: rev_induct)
  case (snoc y ys)
  have split: "map Some (ys @ [y]) @ rest = map Some ys @ (Some y # rest)" by simp
  have nth: "(map Some ys @ Some y # rest) ! length ys = Some y" by (simp add: nth_append)
  note ih = snoc.IH [of "Some y # rest"]
  show ?case
  proof (cases "p y")
    case True
    then show ?thesis unfolding split by (simp add: nth nth_append)
  next
    case False
    then show ?thesis
      using ih unfolding split
      by (auto simp: nth nth_append list_update_append less_Suc_eq split: option.splits)
  qed
qed simp

definition stage_list :: "byte list \<Rightarrow> CacheDecision option \<Rightarrow> PendingExpiry \<Rightarrow> subid
    \<Rightarrow> PendingEntry list \<Rightarrow> PendingEntry list option" where
  "stage_list u d x sub xs =
     (case update_first (\<lambda>e. pe_subid e = sub \<and> pe_username e = u)
             (\<lambda>e. e\<lparr>pe_decision := d, pe_expiry := x\<rparr>) (rev xs) of
        Some ys \<Rightarrow> Some (rev ys)
      | None \<Rightarrow> if MAX_PENDING_OPS \<le> length xs then None
                else Some (xs @ [\<lparr>pe_username = u, pe_decision = d, pe_expiry = x, pe_subid = sub\<rparr>]))"

lemma stage_entry_refines:
  assumes "pend_rel st xs"
  shows "case stage_list u d x sub xs of
      Some ys \<Rightarrow> snd (stage_entry u d x sub st) = Inr () \<and> pend_rel (fst (stage_entry u d x sub st)) ys
    | None \<Rightarrow> stage_entry u d x sub st = (st, Inl StageCapacityExceeded)"
proof -
  let ?p = "\<lambda>e. pe_subid e = sub \<and> pe_username e = u"
  let ?f = "\<lambda>e. e\<lparr>pe_decision := d, pe_expiry := x\<rparr>"
  let ?rest = "replicate (MAX_PENDING_OPS - length xs) None"
  have es: "pn_entries st = map Some xs @ ?rest" and len: "pn_len st = length xs"
    and le: "length xs \<le> MAX_PENDING_OPS" using assms by (simp_all add: pend_rel_def)
  note fl = find_last_update [of ?p ?f xs ?rest]
  show ?thesis
  proof (cases "find_last ?p (map Some xs @ ?rest) (length xs)")
    case (Some i)
    then have i: "i < length xs" using fl by blast
    then have upd: "(map Some xs @ ?rest)[i := map_option ?f ((map Some xs @ ?rest) ! i)] =
        map Some (xs[i := ?f (xs ! i)]) @ ?rest"
      by (simp add: nth_append list_update_append map_update)
    show ?thesis
      using fl Some upd assms len le es
      by (simp add: stage_list_def stage_entry_def pend_rel_def)
  next
    case None
    have upd: "(map Some xs @ ?rest)[length xs := Some e] =
        map Some (xs @ [e]) @ replicate (MAX_PENDING_OPS - Suc (length xs)) None"
      if "length xs < MAX_PENDING_OPS" for e :: PendingEntry
    proof -
      have r: "?rest = None # replicate (MAX_PENDING_OPS - Suc (length xs)) None"
        using that by (metis Suc_diff_Suc replicate_Suc)
      show ?thesis unfolding r by (simp add: list_update_append)
    qed
    have lv: "live st = length xs" using assms by simp
    show ?thesis
      using fl None upd le len
      unfolding stage_list_def stage_entry_def Let_def lv es
      by (auto simp: pend_rel_def es)
  qed
qed

section \<open>Compaction\<close>

text \<open>The entries whose index satisfies a predicate.\<close>

fun pick :: "(nat \<Rightarrow> bool) \<Rightarrow> 'a list \<Rightarrow> 'a list" where
  "pick k [] = []"
| "pick k (x # xs) = (if k 0 then x # pick (\<lambda>i. k (Suc i)) xs else pick (\<lambda>i. k (Suc i)) xs)"

lemma pick_length: "length (pick k xs) \<le> length xs"
proof (induction xs arbitrary: k)
  case (Cons x xs)
  then show ?case using Cons.IH [of "\<lambda>i. k (Suc i)"] by (simp add: le_SucI)
qed simp

lemma pick_append: "pick k (xs @ ys) = pick k xs @ pick (\<lambda>i. k (i + length xs)) ys"
  by (induction xs arbitrary: k) simp_all

lemma pick_cong: "(\<And>i. i < length xs \<Longrightarrow> k i = l i) \<Longrightarrow> pick k xs = pick l xs"
proof (induction xs arbitrary: k l)
  case (Cons x xs)
  have "pick (\<lambda>i. k (Suc i)) xs = pick (\<lambda>i. l (Suc i)) xs" by (rule Cons.IH) (use Cons.prems in simp)
  then show ?case using Cons.prems [of 0] by simp
qed simp

text \<open>The loop after \<open>r\<close> iterations: survivors packed at the front, the unread part untouched.\<close>

lemma compact_loop:
  assumes keep: "\<And>i ys. i < length xs \<Longrightarrow> drop i ys = drop i (map Some xs @ rest) \<Longrightarrow> keep i ys = k i"
    and "r \<le> length xs"
  shows "\<exists>mid. foldl (\<lambda>(ys, w) i. if keep i ys then (ys[w := ys ! i], w + 1) else (ys, w))
      (map Some xs @ rest, 0) [0..<r] =
      (map Some (pick k (take r xs)) @ mid @ drop r (map Some xs @ rest), length (pick k (take r xs)))
    \<and> length (pick k (take r xs)) + length mid = r"
  using assms(2)
proof (induction r)
  case (Suc r)
  let ?P = "pick k (take r xs)" and ?all = "map Some xs @ rest"
  from Suc obtain mid where
    m: "foldl (\<lambda>(ys, w) i. if keep i ys then (ys[w := ys ! i], w + 1) else (ys, w)) (?all, 0) [0..<r] =
      (map Some ?P @ mid @ drop r ?all, length ?P)" "length ?P + length mid = r"
    by auto
  let ?ys = "map Some ?P @ mid @ drop r ?all"
  have r: "r < length xs" using Suc.prems by simp
  have d: "drop r ?all = Some (xs ! r) # drop (Suc r) ?all"
    using r by (simp add: Cons_nth_drop_Suc [symmetric])
  have "drop r ?ys = drop r ?all" using m(2) by simp
  then have kr: "keep r ?ys = k r" using keep [OF r] by blast
  have t: "take (Suc r) xs = take r xs @ [xs ! r]" using r by (simp add: take_Suc_conv_app_nth)
  have p: "pick k (take (Suc r) xs) = ?P @ (if k r then [xs ! r] else [])"
    using r unfolding t by (simp add: pick_append)
  have "?ys = (map Some ?P @ mid) @ Some (xs ! r) # drop (Suc r) ?all" using d by simp
  moreover have "length (map Some ?P @ mid) = r" using m(2) by simp
  ultimately have at_r: "?ys ! r = Some (xs ! r)" by (metis nth_append_length)
  show ?case
  proof (cases "k r")
    case True
    have "?ys[length ?P := Some (xs ! r)] =
        map Some (?P @ [xs ! r]) @ tl (mid @ [Some (xs ! r)]) @ drop (Suc r) ?all"
      unfolding d by (cases mid) (simp_all add: list_update_append)
    then show ?thesis
      using True m kr p at_r by (intro exI [of _ "tl (mid @ [Some (xs ! r)])"]) simp
  next
    case False
    then show ?thesis
      using m kr p unfolding d by (intro exI [of _ "mid @ [Some (xs ! r)]"]) simp
  qed
qed simp

lemma foldl_clear:
  "foldl (\<lambda>ys i. ys[i := None]) (as @ bs @ cs) [length as ..< length as + length bs] =
     as @ replicate (length bs) None @ cs"
proof (induction bs arbitrary: as)
  case (Cons b bs)
  have "[length as ..< length as + length (b # bs)] =
      length as # [length (as @ [None]) ..< length (as @ [None]) + length bs]"
    by (subst upt_conv_Cons) simp_all
  then show ?case using Cons.IH [of "as @ [None]"] by simp
qed simp

lemma compact_pick:
  assumes "\<And>i ys. i < length xs \<Longrightarrow> drop i ys = drop i (map Some xs @ rest) \<Longrightarrow> keep i ys = k i"
  shows "compact keep (length xs) (map Some xs @ rest) =
    (map Some (pick k xs) @ replicate (length xs - length (pick k xs)) None @ rest, length (pick k xs))"
proof -
  from compact_loop [of xs rest keep k "length xs", OF assms order_refl] obtain mid where
    m: "foldl (\<lambda>(ys, w) i. if keep i ys then (ys[w := ys ! i], w + 1) else (ys, w))
        (map Some xs @ rest, 0) [0..<length xs] =
      (map Some (pick k xs) @ mid @ rest, length (pick k xs))"
    "length (pick k xs) + length mid = length xs"
    by auto
  have n: "min (length xs) (length (map Some (pick k xs) @ mid @ rest)) =
      length (map Some (pick k xs)) + length mid"
    using m(2) by simp
  show ?thesis
    unfolding compact_def m(1) Let_def prod.case n
    using foldl_clear [of "map Some (pick k xs)" mid rest] m(2) by simp
qed

definition same_slot :: "PendingEntry \<Rightarrow> PendingEntry \<Rightarrow> bool" where
  "same_slot a b \<longleftrightarrow> pe_subid a = pe_subid b \<and> pe_username a = pe_username b"

text \<open>Every entry superseded by a later one of the same slot is dropped.\<close>

fun keep_latest :: "PendingEntry list \<Rightarrow> PendingEntry list" where
  "keep_latest [] = []"
| "keep_latest (x # xs) = (if list_ex (\<lambda>y. same_slot y x) xs then keep_latest xs else x # keep_latest xs)"

lemma pick_filter: "(\<And>i. i < length xs \<Longrightarrow> k i = p (xs ! i)) \<Longrightarrow> pick k xs = filter p xs"
proof (induction xs arbitrary: k)
  case (Cons x xs)
  have "pick (\<lambda>i. k (Suc i)) xs = filter p xs"
  proof (rule Cons.IH)
    fix i assume "i < length xs"
    then show "k (Suc i) = p (xs ! i)" using Cons.prems [of "Suc i"] by simp
  qed
  then show ?case using Cons.prems [of 0] by simp
qed simp

lemma pick_keep_latest:
  "(\<And>i. i < length xs \<Longrightarrow> k i = (\<not> list_ex (\<lambda>y. same_slot y (xs ! i)) (drop (Suc i) xs)))
    \<Longrightarrow> pick k xs = keep_latest xs"
proof (induction xs arbitrary: k)
  case (Cons x xs)
  have "pick (\<lambda>i. k (Suc i)) xs = keep_latest xs"
  proof (rule Cons.IH)
    fix i assume "i < length xs"
    then show "k (Suc i) = (\<not> list_ex (\<lambda>y. same_slot y (xs ! i)) (drop (Suc i) xs))"
      using Cons.prems [of "Suc i"] by simp
  qed
  then show ?case using Cons.prems [of 0] by simp
qed simp

lemma nth_of_drop:
  "drop i ys = drop i zs \<Longrightarrow> i \<le> j \<Longrightarrow> j < length zs \<Longrightarrow> ys ! j = zs ! j"
proof -
  assume d: "drop i ys = drop i zs" and ij: "i \<le> j" and j: "j < length zs"
  have "length ys - i = length zs - i" using d by (metis length_drop)
  then have "i + (j - i) \<le> length ys" "i \<le> length ys" using ij j by auto
  then have "drop i ys ! (j - i) = ys ! j" using ij by simp
  moreover have "drop i zs ! (j - i) = zs ! j" using ij j by simp
  ultimately show ?thesis using d by simp
qed

lemma keep_other_pick:
  assumes "i < length xs" and "drop i ys = drop i (map Some xs @ rest)"
  shows "keep_other sub i ys = (pe_subid (xs ! i) \<noteq> sub)"
  using nth_of_drop [OF assms(2) order_refl] assms(1) by (simp add: keep_other_def nth_append)

lemma not_superseded_pick:
  assumes "i < length xs" and "drop i ys = drop i (map Some xs @ rest)"
  shows "not_superseded (length xs) i ys = (\<not> list_ex (\<lambda>y. same_slot y (xs ! i)) (drop (Suc i) xs))"
proof -
  have nth: "ys ! j = Some (xs ! j)" if "i \<le> j" "j < length xs" for j
    using nth_of_drop [OF assms(2) that(1)] that by (simp add: nth_append)
  have "list_ex (\<lambda>later. case ys ! later of Some x \<Rightarrow> pe_subid x = pe_subid (xs ! i)
      \<and> pe_username x = pe_username (xs ! i) | None \<Rightarrow> False) [i + 1..<length xs] \<longleftrightarrow>
      (\<exists>j \<in> {Suc i..<length xs}. same_slot (xs ! j) (xs ! i))"
    by (auto simp: list_ex_iff nth same_slot_def)
  also have "\<dots> \<longleftrightarrow> list_ex (\<lambda>y. same_slot y (xs ! i)) (drop (Suc i) xs)"
  proof -
    have "drop (Suc i) xs = map (nth xs) [Suc i..<length xs]"
      by (rule nth_equalityI) simp_all
    then show ?thesis unfolding list_ex_iff by auto
  qed
  finally show ?thesis using nth assms(1) by (simp add: not_superseded_def)
qed

lemma keep_latest_length: "length (keep_latest xs) \<le> length xs"
  by (induction xs) auto

lemma on_sub_abort_refines:
  assumes "pend_rel st xs"
  shows "pend_rel (on_sub_abort sub st) (filter (\<lambda>e. pe_subid e \<noteq> sub) xs)"
    and "pn_ack (on_sub_abort sub st) = (case pn_ack st of
      Some a \<Rightarrow> if pa_subid a = sub then None else Some a | None \<Rightarrow> None)"
proof -
  let ?rest = "replicate (MAX_PENDING_OPS - length xs) None"
  have c: "compact (keep_other sub) (length xs) (map Some xs @ ?rest) =
      (map Some (pick (\<lambda>i. pe_subid (xs ! i) \<noteq> sub) xs)
        @ replicate (length xs - length (pick (\<lambda>i. pe_subid (xs ! i) \<noteq> sub) xs)) None @ ?rest,
       length (pick (\<lambda>i. pe_subid (xs ! i) \<noteq> sub) xs))"
    using keep_other_pick by (rule compact_pick)
  have p: "pick (\<lambda>i. pe_subid (xs ! i) \<noteq> sub) xs = filter (\<lambda>e. pe_subid e \<noteq> sub) xs"
    by (rule pick_filter) simp
  have le: "length (filter (\<lambda>e. pe_subid e \<noteq> sub) xs) \<le> length xs"
    "length (filter (\<lambda>e. pe_subid e \<noteq> sub) xs) \<le> MAX_PENDING_OPS"
    using assms le_trans [OF length_filter_le] by (auto simp: pend_rel_def)
  show "pend_rel (on_sub_abort sub st) (filter (\<lambda>e. pe_subid e \<noteq> sub) xs)"
    using assms c le unfolding p
    by (simp add: on_sub_abort_def pend_rel_def live_def flip: replicate_add)
  show "pn_ack (on_sub_abort sub st) = (case pn_ack st of
      Some a \<Rightarrow> if pa_subid a = sub then None else Some a | None \<Rightarrow> None)"
    by (simp add: on_sub_abort_def Let_def case_prod_beta)
qed

lemma on_sub_commit_refines:
  assumes "pend_rel st xs"
  shows "pend_rel (on_sub_commit sub par st) (keep_latest (map (reparent sub par) xs))"
    and "pn_ack (on_sub_commit sub par st) =
      map_option (\<lambda>a. if pa_subid a = sub then a\<lparr>pa_subid := par\<rparr> else a) (pn_ack st)"
proof -
  let ?ys = "map (reparent sub par) xs"
  let ?rest = "replicate (MAX_PENDING_OPS - length xs) None"
  let ?k = "\<lambda>i. \<not> list_ex (\<lambda>y. same_slot y (?ys ! i)) (drop (Suc i) ?ys)"
  have c: "compact (not_superseded (length ?ys)) (length ?ys) (map Some ?ys @ ?rest) =
      (map Some (pick ?k ?ys) @ replicate (length ?ys - length (pick ?k ?ys)) None @ ?rest,
       length (pick ?k ?ys))"
    using not_superseded_pick by (rule compact_pick)
  have p: "pick ?k ?ys = keep_latest ?ys" by (rule pick_keep_latest) simp
  have le: "length (keep_latest ?ys) \<le> length xs" using keep_latest_length [of ?ys] by simp
  have es: "map_option (reparent sub par) \<circ> Some = Some \<circ> reparent sub par" by auto
  show "pend_rel (on_sub_commit sub par st) (keep_latest ?ys)"
    using assms c le es unfolding p
    by (simp add: on_sub_commit_def compact_duplicates_def pend_rel_def live_def Let_def
        flip: replicate_add)
  show "pn_ack (on_sub_commit sub par st) =
      map_option (\<lambda>a. if pa_subid a = sub then a\<lparr>pa_subid := par\<rparr> else a) (pn_ack st)"
    by (simp add: on_sub_commit_def compact_duplicates_def Let_def case_prod_beta)
qed

end
