(* ===== verification/Transactions.thy ===== *)
theory Transactions
  imports Pending_Ops
begin

text \<open>
  What a whole transaction does to the staging area: the statements stage operations, PostgreSQL opens,
  releases and rolls back savepoints and calls the callbacks of \<open>Pending_Ops\<close>. The abstract
  specification is a stack of maps from users to staged operations, one per open savepoint; the array
  with its subtransaction identifiers refines it, and a commit applies exactly the map that is left.
\<close>

section \<open>Specification and implementation\<close>

datatype txn_op = TStage "byte list" "CacheDecision option" PendingExpiry | TSavepoint | TRelease | TRollback

type_synonym staged = "CacheDecision option \<times> PendingExpiry"
type_synonym frame = "byte list \<rightharpoonup> staged"

fun spec_step :: "txn_op \<Rightarrow> frame list \<Rightarrow> frame list option" where
  "spec_step (TStage u d x) (f # fs) = Some (f(u \<mapsto> (d, x)) # fs)"
| "spec_step TSavepoint fs = Some (Map.empty # fs)"
| "spec_step TRelease (f # g # fs) = Some ((g ++ f) # fs)"
| "spec_step TRollback (f # g # fs) = Some (g # fs)"
| "spec_step _ _ = None"

text \<open>
  PostgreSQL numbers the subtransactions of a transaction upwards; the open ones form a stack. \<open>None\<close>
  is an error that aborts the transaction: a full staging area, or a savepoint that does not exist.
\<close>

record txn =
  tx_stack :: "subid list"
  tx_next :: subid
  tx_pending :: PendingState

definition txn_start :: txn where
  "txn_start = \<lparr>tx_stack = [1], tx_next = 2, tx_pending = pending_new\<rparr>"

fun txn_step :: "txn_op \<Rightarrow> txn \<Rightarrow> txn option" where
  "txn_step (TStage u d x) t =
     (case tx_stack t of
        [] \<Rightarrow> None
      | sub # _ \<Rightarrow>
          (case stage_entry u d x sub (tx_pending t) of
             (st, Inr _) \<Rightarrow> Some (t\<lparr>tx_pending := st\<rparr>)
           | (st, Inl _) \<Rightarrow> None))"
| "txn_step TSavepoint t =
     Some \<lparr>tx_stack = tx_next t # tx_stack t, tx_next = tx_next t + 1,
       tx_pending = subxact_callback SubStart (tx_next t) (hd (tx_stack t)) (tx_pending t)\<rparr>"
| "txn_step TRelease t =
     (case tx_stack t of
        sub # par # rest \<Rightarrow> Some (t\<lparr>tx_stack := par # rest,
          tx_pending := subxact_callback SubCommit sub par (tx_pending t)\<rparr>)
      | _ \<Rightarrow> None)"
| "txn_step TRollback t =
     (case tx_stack t of
        sub # par # rest \<Rightarrow> Some (t\<lparr>tx_stack := par # rest,
          tx_pending := subxact_callback SubAbort sub par (tx_pending t)\<rparr>)
      | _ \<Rightarrow> None)"

fun run_steps :: "('o \<Rightarrow> 's \<Rightarrow> 's option) \<Rightarrow> 'o list \<Rightarrow> 's \<Rightarrow> 's option" where
  "run_steps step [] s = Some s"
| "run_steps step (x # xs) s = (case step x s of None \<Rightarrow> None | Some s1 \<Rightarrow> run_steps step xs s1)"

section \<open>Entries of a slot\<close>

definition in_slot :: "subid \<Rightarrow> byte list \<Rightarrow> PendingEntry \<Rightarrow> bool" where
  "in_slot sub u e \<longleftrightarrow> pe_subid e = sub \<and> pe_username e = u"

definition frame_of :: "PendingEntry list \<Rightarrow> subid \<Rightarrow> frame" where
  "frame_of xs sub u = map_option (\<lambda>e. (pe_decision e, pe_expiry e)) (List.find (in_slot sub u) xs)"

text \<open>Entries of one user are ordered by the nesting level that staged them.\<close>

definition level_ordered :: "PendingEntry list \<Rightarrow> bool" where
  "level_ordered xs \<longleftrightarrow> sorted_wrt (\<lambda>a b. pe_username a = pe_username b \<longrightarrow> pe_subid a < pe_subid b) xs"

lemma level_ordered_unique:
  assumes "level_ordered xs"
  shows "List.find (in_slot sub u) xs = Some e \<longleftrightarrow> e \<in> set xs \<and> in_slot sub u e"
proof
  assume "e \<in> set xs \<and> in_slot sub u e"
  moreover then obtain as bs where xs: "xs = as @ e # bs" by (meson split_list)
  moreover have "\<forall>a \<in> set as. \<not> in_slot sub u a"
    using assms calculation(1) unfolding xs level_ordered_def sorted_wrt_append
    by (auto simp: in_slot_def)
  ultimately show "List.find (in_slot sub u) xs = Some e" by (simp add: find_append_Cons)
qed (auto simp: find_Some_iff)

lemma find_rev_unique:
  assumes "level_ordered xs"
  shows "List.find (in_slot sub u) (rev xs) = List.find (in_slot sub u) xs"
proof (cases "List.find (in_slot sub u) xs")
  case None
  then have "List.find (in_slot sub u) (rev xs) = None" by (auto simp: find_None_iff)
  with None show ?thesis by simp
next
  case (Some e)
  obtain y where y: "List.find (in_slot sub u) (rev xs) = Some y"
    using Some by (cases "List.find (in_slot sub u) (rev xs)") (auto simp: find_None_iff find_Some_iff)
  then have "y \<in> set xs \<and> in_slot sub u y" using find_SomeD by fastforce
  then have "List.find (in_slot sub u) xs = Some y" using level_ordered_unique [OF assms] by blast
  with y show ?thesis by simp
qed

lemma find_keep_latest: "List.find (in_slot sub u) (keep_latest zs) = List.find (in_slot sub u) (rev zs)"
proof (induction zs)
  case (Cons z zs)
  show ?case
  proof (cases "list_ex (\<lambda>y. same_slot y z) zs")
    case True
    then show ?thesis
    proof (cases "in_slot sub u z")
      case inz: True
      from True obtain y where "y \<in> set zs" "same_slot y z" by (auto simp: list_ex_iff)
      then have "in_slot sub u y" using inz by (simp add: in_slot_def same_slot_def)
      then have "List.find (in_slot sub u) (rev zs) \<noteq> None"
        using \<open>y \<in> set zs\<close> by (auto simp: find_None_iff)
      then show ?thesis using True Cons.IH by (auto simp: find_append)
    qed (use True Cons.IH in \<open>simp add: find_append split: option.split\<close>)
  next
    case False
    then show ?thesis
    proof (cases "in_slot sub u z")
      case inz: True
      have "List.find (in_slot sub u) (rev zs) = None"
        using False inz by (auto simp: find_None_iff list_ex_iff same_slot_def in_slot_def)
      then show ?thesis using False inz by (simp add: find_append)
    qed (use False Cons.IH in \<open>simp add: find_append split: option.split\<close>)
  qed
qed simp

lemma keep_latest_sorted:
  "sorted_wrt P zs \<Longrightarrow> sorted_wrt (\<lambda>a b. P a b \<and> \<not> same_slot b a) (keep_latest zs)"
proof (induction zs)
  case (Cons z zs)
  have "set (keep_latest zs) \<subseteq> set zs" by (induction zs) auto
  then show ?case using Cons by (auto simp: list_ex_iff)
qed simp

section \<open>Simulation\<close>

definition txn_sim :: "txn \<Rightarrow> frame list \<Rightarrow> bool" where
  "txn_sim t fs \<longleftrightarrow> (\<exists>xs. pend_rel (tx_pending t) xs \<and> level_ordered xs
     \<and> tx_stack t \<noteq> [] \<and> sorted_wrt (>) (tx_stack t) \<and> (\<forall>sub \<in> set (tx_stack t). sub < tx_next t)
     \<and> (\<forall>e \<in> set xs. pe_subid e \<in> set (tx_stack t))
     \<and> fs = map (frame_of xs) (tx_stack t))"

lemma stage_list_cases:
  assumes "stage_list u d x sub xs = Some ys" and "level_ordered xs"
  obtains
    (overwrite) as e bs where "xs = as @ e # bs" "in_slot sub u e"
      "ys = as @ e\<lparr>pe_decision := d, pe_expiry := x\<rparr> # bs"
  | (append) "\<forall>e \<in> set xs. \<not> in_slot sub u e"
      "ys = xs @ [\<lparr>pe_username = u, pe_decision = d, pe_expiry = x, pe_subid = sub\<rparr>]"
proof (cases "update_first (in_slot sub u) (\<lambda>e. e\<lparr>pe_decision := d, pe_expiry := x\<rparr>) (rev xs)")
  case None
  then have "\<forall>e \<in> set xs. \<not> in_slot sub u e" by (simp add: update_first_None_iff)
  moreover have "ys = xs @ [\<lparr>pe_username = u, pe_decision = d, pe_expiry = x, pe_subid = sub\<rparr>]"
    using assms(1) None by (simp add: stage_list_def in_slot_def [abs_def] split: if_splits)
  ultimately show ?thesis by (rule append)
next
  case (Some zs)
  from Some obtain as e bs where z: "rev xs = as @ e # bs"
    "zs = as @ e\<lparr>pe_decision := d, pe_expiry := x\<rparr> # bs" "in_slot sub u e"
    by (rule update_first_split)
  have "xs = rev bs @ e # rev as" using z(1) by (metis append.assoc append_Cons append_Nil rev.simps(2) rev_append rev_rev_ident)
  moreover have "ys = rev zs" using assms(1) Some by (simp add: stage_list_def in_slot_def [abs_def])
  ultimately show ?thesis using overwrite [of "rev bs" e "rev as"] z(2,3) by simp
qed

lemma frame_of_stage:
  assumes "stage_list u d x sub xs = Some ys" and "level_ordered xs"
  shows "frame_of ys sub = (frame_of xs sub)(u \<mapsto> (d, x))"
    and "other \<noteq> sub \<Longrightarrow> frame_of ys other = frame_of xs other"
  using assms
proof (atomize (full), cases rule: stage_list_cases)
  case (overwrite as e bs)
  have as: "\<forall>a \<in> set as. \<not> in_slot sub u a"
    using assms(2) overwrite(2) unfolding overwrite(1) level_ordered_def sorted_wrt_append
    by (auto simp: in_slot_def)
  then have "List.find (in_slot sub u) as = None" by (auto simp: find_None_iff)
  then show "frame_of ys sub = (frame_of xs sub)(u \<mapsto> (d, x)) \<and> (other \<noteq> sub \<longrightarrow> frame_of ys other = frame_of xs other)"
    using overwrite(2) unfolding overwrite(1,3)
    by (auto simp: fun_eq_iff frame_of_def find_append in_slot_def split: option.split)
next
  case append
  then have "List.find (in_slot sub u) xs = None" by (auto simp: find_None_iff)
  then show "frame_of ys sub = (frame_of xs sub)(u \<mapsto> (d, x)) \<and> (other \<noteq> sub \<longrightarrow> frame_of ys other = frame_of xs other)"
    unfolding append(2)
    by (auto simp: fun_eq_iff frame_of_def find_append in_slot_def split: option.split)
qed

lemma level_ordered_stage:
  assumes "stage_list u d x sub xs = Some ys" and "level_ordered xs"
    and "\<forall>e \<in> set xs. pe_subid e \<le> sub"
  shows "level_ordered ys" and "\<forall>e \<in> set ys. pe_subid e = sub \<or> pe_subid e \<in> pe_subid ` set xs"
  using assms(1,2)
proof (atomize (full), cases rule: stage_list_cases)
  case (overwrite as e bs)
  then show "level_ordered ys \<and> (\<forall>e \<in> set ys. pe_subid e = sub \<or> pe_subid e \<in> pe_subid ` set xs)"
    using assms(2) by (auto simp: level_ordered_def sorted_wrt_append in_slot_def)
next
  case append
  then show "level_ordered ys \<and> (\<forall>e \<in> set ys. pe_subid e = sub \<or> pe_subid e \<in> pe_subid ` set xs)"
    using assms(2,3) by (fastforce simp: level_ordered_def sorted_wrt_append in_slot_def)
qed

text \<open>Releasing a savepoint merges its map into its parent's.\<close>

lemma find_reparent:
  assumes "level_ordered xs" and "par < sub"
  shows "List.find (in_slot par u) (rev (map (reparent sub par) xs)) =
    (case List.find (in_slot sub u) xs of
       Some e \<Rightarrow> Some (reparent sub par e) | None \<Rightarrow> List.find (in_slot par u) xs)"
  using assms(1)
proof (induction xs rule: rev_induct)
  case (snoc e es)
  have o: "level_ordered es" and last: "\<forall>a \<in> set es. pe_username a = pe_username e \<longrightarrow> pe_subid a < pe_subid e"
    using snoc.prems by (auto simp: level_ordered_def sorted_wrt_append)
  show ?case
  proof (cases "in_slot sub u e")
    case True
    then have "List.find (in_slot sub u) es = None"
      using last by (auto simp: find_None_iff in_slot_def)
    moreover have "in_slot par u (reparent sub par e)" using True by (simp add: in_slot_def reparent_def)
    ultimately show ?thesis using True by (simp add: find_append)
  next
    case notsub: False
    show ?thesis
    proof (cases "in_slot par u e")
      case True
      then have "List.find (in_slot sub u) es = None" "List.find (in_slot par u) es = None"
        using last assms(2) by (auto simp: find_None_iff in_slot_def)
      moreover have "reparent sub par e = e"
        using True assms(2) by (simp add: in_slot_def reparent_def)
      ultimately show ?thesis using True notsub by (simp add: find_append)
    next
      case False
      have "\<not> in_slot par u (reparent sub par e)"
        using notsub False by (auto simp: in_slot_def reparent_def)
      then show ?thesis
        using notsub False snoc.IH [OF o] by (simp add: find_append split: option.split)
    qed
  qed
qed simp

lemma reparent_other: "other \<noteq> sub \<Longrightarrow> other \<noteq> par \<Longrightarrow> in_slot other u (reparent sub par e) = in_slot other u e"
  and reparent_id: "pe_subid e \<noteq> sub \<Longrightarrow> reparent sub par e = e"
  by (auto simp: in_slot_def reparent_def)

lemma find_reparent_other:
  assumes "other \<noteq> sub" and "other \<noteq> par"
  shows "List.find (in_slot other u) (map (reparent sub par) xs) = List.find (in_slot other u) xs"
  using assms reparent_other [OF assms] reparent_id
  by (induction xs) (auto simp: in_slot_def)

lemma frame_of_release:
  assumes "level_ordered xs" and "par < sub"
  defines "ys \<equiv> keep_latest (map (reparent sub par) xs)"
  shows "frame_of ys par = frame_of xs par ++ frame_of xs sub"
    and "other \<noteq> sub \<Longrightarrow> other \<noteq> par \<Longrightarrow> frame_of ys other = frame_of xs other"
proof -
  show "frame_of ys par = frame_of xs par ++ frame_of xs sub"
    unfolding ys_def
    by (simp add: fun_eq_iff frame_of_def find_keep_latest find_reparent [OF assms(1,2)] map_add_def
        reparent_def split: option.split)
  show "frame_of ys other = frame_of xs other" if "other \<noteq> sub" "other \<noteq> par"
  proof -
    have "List.find (in_slot other u) (rev (map (reparent sub par) xs)) = List.find (in_slot other u) xs" for u
      using find_reparent_other [OF that, of u "rev xs"] find_rev_unique [OF assms(1)]
      by (simp add: rev_map)
    then show ?thesis unfolding ys_def by (simp add: fun_eq_iff frame_of_def find_keep_latest)
  qed
qed

lemma level_ordered_release:
  assumes "level_ordered xs" and "par < sub" and "\<forall>e \<in> set xs. pe_subid e \<le> par \<or> pe_subid e = sub"
  shows "level_ordered (keep_latest (map (reparent sub par) xs))"
proof -
  let ?le = "\<lambda>a b. pe_username a = pe_username b \<longrightarrow> pe_subid a \<le> pe_subid b"
  have "sorted_wrt ?le (map (reparent sub par) xs)"
    unfolding sorted_wrt_map
    by (rule sorted_wrt_mono_rel [OF _ assms(1) [unfolded level_ordered_def]])
      (use assms(2,3) in \<open>fastforce simp: reparent_def split: if_splits\<close>)
  from keep_latest_sorted [OF this] show ?thesis
    unfolding level_ordered_def
    by (rule sorted_wrt_mono_rel [rotated]) (auto simp: same_slot_def order_less_le)
qed

lemma keep_latest_subset: "set (keep_latest zs) \<subseteq> set zs"
  by (induction zs) auto

lemma frame_of_rollback:
  "other \<noteq> sub \<Longrightarrow> frame_of (filter (\<lambda>e. pe_subid e \<noteq> sub) xs) other = frame_of xs other"
proof -
  assume "other \<noteq> sub"
  then have "List.find (in_slot other u) (filter (\<lambda>e. pe_subid e \<noteq> sub) xs) = List.find (in_slot other u) xs" for u
    by (induction xs) (auto simp: in_slot_def)
  then show ?thesis by (simp add: fun_eq_iff frame_of_def)
qed

lemma txn_sim_start: "txn_sim txn_start [Map.empty]"
  unfolding txn_sim_def
  by (rule exI [of _ "[]"])
    (simp add: txn_start_def pend_rel_new level_ordered_def fun_eq_iff frame_of_def)

text \<open>Every step of a transaction that succeeds is a step of the specification.\<close>

lemma txn_simE:
  assumes "txn_sim t fs"
  obtains xs sub rest where "pend_rel (tx_pending t) xs" "level_ordered xs" "tx_stack t = sub # rest"
    "sorted_wrt (>) (sub # rest)" "\<forall>s \<in> set (sub # rest). s < tx_next t"
    "\<forall>e \<in> set xs. pe_subid e \<in> set (sub # rest)" "fs = map (frame_of xs) (sub # rest)"
proof -
  from assms obtain xs where "pend_rel (tx_pending t) xs" "level_ordered xs" "tx_stack t \<noteq> []"
    "sorted_wrt (>) (tx_stack t)" "\<forall>sub \<in> set (tx_stack t). sub < tx_next t"
    "\<forall>e \<in> set xs. pe_subid e \<in> set (tx_stack t)" "fs = map (frame_of xs) (tx_stack t)"
    by (auto simp: txn_sim_def)
  then show thesis using that by (cases "tx_stack t") auto
qed

lemma txn_stage_sim:
  assumes "txn_sim t fs" and "txn_step (TStage u d x) t = Some t'"
  shows "\<exists>fs'. spec_step (TStage u d x) fs = Some fs' \<and> txn_sim t' fs'"
proof -
  from assms(1) obtain xs sub rest where r: "pend_rel (tx_pending t) xs" and o: "level_ordered xs"
    and st: "tx_stack t = sub # rest" and desc: "sorted_wrt (>) (sub # rest)"
    and bnd: "\<forall>s \<in> set (sub # rest). s < tx_next t"
    and ids: "\<forall>e \<in> set xs. pe_subid e \<in> set (sub # rest)" and fs: "fs = map (frame_of xs) (sub # rest)"
    by (rule txn_simE)
  have top: "\<forall>e \<in> set xs. pe_subid e \<le> sub" and fresh: "\<forall>s \<in> set rest. s \<noteq> sub"
    using ids desc by (auto intro: less_imp_le)
  note ref = stage_entry_refines [OF r, of u d x sub]
  obtain ys where ys: "stage_list u d x sub xs = Some ys"
    using assms(2) st ref by (cases "stage_list u d x sub xs") auto
  have t': "t' = t\<lparr>tx_pending := fst (stage_entry u d x sub (tx_pending t))\<rparr>"
    and r': "pend_rel (fst (stage_entry u d x sub (tx_pending t))) ys"
    using assms(2) st ref ys by (auto split: sum.splits prod.splits)
  have fr: "map (frame_of ys) rest = map (frame_of xs) rest"
    using frame_of_stage(2) [OF ys o] fresh by simp
  have "txn_sim t' ((frame_of xs sub)(u \<mapsto> (d, x)) # map (frame_of xs) rest)"
    unfolding txn_sim_def t'
    using r' level_ordered_stage [OF ys o top] desc bnd st ids frame_of_stage(1) [OF ys o] fr
    by (intro exI [of _ ys]) fastforce
  then show ?thesis using fs by simp
qed

lemma txn_savepoint_sim:
  assumes "txn_sim t fs" and "txn_step TSavepoint t = Some t'"
  shows "txn_sim t' (Map.empty # fs)"
proof -
  from assms(1) obtain xs sub rest where r: "pend_rel (tx_pending t) xs" and o: "level_ordered xs"
    and st: "tx_stack t = sub # rest" and desc: "sorted_wrt (>) (sub # rest)"
    and bnd: "\<forall>s \<in> set (sub # rest). s < tx_next t"
    and ids: "\<forall>e \<in> set xs. pe_subid e \<in> set (sub # rest)" and fs: "fs = map (frame_of xs) (sub # rest)"
    by (rule txn_simE)
  have "\<forall>e \<in> set xs. pe_subid e < tx_next t" using ids bnd by blast
  then have "frame_of xs (tx_next t) = Map.empty"
    by (auto simp: fun_eq_iff frame_of_def find_None_iff in_slot_def)
  moreover have "\<forall>s \<in> set (sub # rest). s < Suc (tx_next t)" using bnd less_SucI by blast
  ultimately show ?thesis
    unfolding txn_sim_def using assms(2) r o st desc bnd ids fs by (intro exI [of _ xs]) auto
qed

lemma txn_release_sim:
  assumes "txn_sim t fs" and "txn_step TRelease t = Some t'"
  shows "\<exists>fs'. spec_step TRelease fs = Some fs' \<and> txn_sim t' fs'"
proof -
  from assms(1) obtain xs sub rest where r: "pend_rel (tx_pending t) xs" and o: "level_ordered xs"
    and st: "tx_stack t = sub # rest" and desc: "sorted_wrt (>) (sub # rest)"
    and bnd: "\<forall>s \<in> set (sub # rest). s < tx_next t"
    and ids: "\<forall>e \<in> set xs. pe_subid e \<in> set (sub # rest)" and fs: "fs = map (frame_of xs) (sub # rest)"
    by (rule txn_simE)
  obtain par more where rest: "rest = par # more"
    and t': "t' = t\<lparr>tx_stack := par # more, tx_pending := on_sub_commit sub par (tx_pending t)\<rparr>"
    using assms(2) st by (cases rest) auto
  have lt: "par < sub" and low: "\<forall>s \<in> set more. s < par" using desc rest by auto
  let ?ys = "keep_latest (map (reparent sub par) xs)"
  have lo: "level_ordered ?ys" using level_ordered_release [OF o lt] ids rest low by fastforce
  have sub': "\<forall>e \<in> set ?ys. pe_subid e \<in> set (par # more)"
    using keep_latest_subset [of "map (reparent sub par) xs"] ids rest
    by (fastforce simp: reparent_def split: if_splits)
  have fr: "map (frame_of ?ys) more = map (frame_of xs) more"
    using frame_of_release(2) [OF o lt] low lt by fastforce
  have "txn_sim t' ((frame_of xs par ++ frame_of xs sub) # map (frame_of xs) more)"
    unfolding txn_sim_def t'
    using on_sub_commit_refines(1) [OF r, of sub par] lo desc bnd rest sub' fr frame_of_release(1) [OF o lt]
    by (intro exI [of _ ?ys]) simp
  then show ?thesis using fs rest by simp
qed

lemma txn_rollback_sim:
  assumes "txn_sim t fs" and "txn_step TRollback t = Some t'"
  shows "\<exists>fs'. spec_step TRollback fs = Some fs' \<and> txn_sim t' fs'"
proof -
  from assms(1) obtain xs sub rest where r: "pend_rel (tx_pending t) xs" and o: "level_ordered xs"
    and st: "tx_stack t = sub # rest" and desc: "sorted_wrt (>) (sub # rest)"
    and bnd: "\<forall>s \<in> set (sub # rest). s < tx_next t"
    and ids: "\<forall>e \<in> set xs. pe_subid e \<in> set (sub # rest)" and fs: "fs = map (frame_of xs) (sub # rest)"
    by (rule txn_simE)
  obtain par more where rest: "rest = par # more"
    and t': "t' = t\<lparr>tx_stack := par # more, tx_pending := on_sub_abort sub (tx_pending t)\<rparr>"
    using assms(2) st by (cases rest) auto
  let ?ys = "filter (\<lambda>e. pe_subid e \<noteq> sub) xs"
  have lo: "level_ordered ?ys" using o by (simp add: level_ordered_def sorted_wrt_filter)
  have fr: "map (frame_of ?ys) rest = map (frame_of xs) rest"
    using frame_of_rollback desc by (intro map_cong) auto
  have "txn_sim t' (map (frame_of xs) rest)"
    unfolding txn_sim_def t'
    using on_sub_abort_refines(1) [OF r, of sub] lo desc bnd st rest ids fr
    by (intro exI [of _ ?ys]) auto
  then show ?thesis using fs rest by simp
qed

lemma txn_step_sim:
  assumes "txn_sim t fs" and "txn_step op t = Some t'"
  shows "\<exists>fs'. spec_step op fs = Some fs' \<and> txn_sim t' fs'"
  using assms txn_stage_sim txn_savepoint_sim txn_release_sim txn_rollback_sim by (cases op) auto

lemma run_steps_sim:
  "txn_sim t fs \<Longrightarrow> run_steps txn_step ops t = Some t'
    \<Longrightarrow> \<exists>fs'. run_steps spec_step ops fs = Some fs' \<and> txn_sim t' fs'"
proof (induction ops arbitrary: t fs)
  case (Cons op ops)
  obtain t1 where t1: "txn_step op t = Some t1" "run_steps txn_step ops t1 = Some t'"
    using Cons.prems(2) by (auto split: option.splits)
  obtain fs1 where "spec_step op fs = Some fs1" "txn_sim t1 fs1"
    using txn_step_sim [OF Cons.prems(1) t1(1)] by blast
  then show ?case using Cons.IH [OF _ t1(2)] by auto
qed auto

section \<open>Applying a committed transaction\<close>

fun lock_ops :: "(nat \<Rightarrow> timestamp) \<Rightarrow> nat \<Rightarrow> PendingEntry list \<Rightarrow> lock_op list" where
  "lock_ops clock i [] = []"
| "lock_ops clock i (e # es) =
     (case pe_decision e of None \<Rightarrow> [] | Some d \<Rightarrow> [(clock i, pe_username e, d)]) @ lock_ops clock (Suc i) es"

fun expiry_ops :: "PendingEntry list \<Rightarrow> expiry_op list" where
  "expiry_ops [] = []"
| "expiry_ops (e # es) =
     (case pe_expiry e of
        ExpiryNone \<Rightarrow> []
      | ExpirySet must gen grace \<Rightarrow> [(pe_username e, Some (must, gen, grace))]
      | ExpiryClear \<Rightarrow> [(pe_username e, None)]) @ expiry_ops es"

lemma apply_entry_caches:
  "sh_lock (apply_entry now e s) =
     fold lock_apply (case pe_decision e of None \<Rightarrow> [] | Some d \<Rightarrow> [(now, pe_username e, d)]) (sh_lock s)"
  "sh_expiry (apply_entry now e s) = fold expiry_apply
     (case pe_expiry e of
        ExpiryNone \<Rightarrow> []
      | ExpirySet must gen grace \<Rightarrow> [(pe_username e, Some (must, gen, grace))]
      | ExpiryClear \<Rightarrow> [(pe_username e, None)]) (sh_expiry s)"
  "sh_auth (apply_entry now e s) = sh_auth s"
  "sh_bypass (apply_entry now e s) = sh_bypass s"
  by (auto simp: apply_entry_def Let_def split: option.split CacheDecision.split PendingExpiry.split)

lemma apply_entries_caches:
  "sh_lock (apply_entries clock i (map Some xs) s) = fold lock_apply (lock_ops clock i xs) (sh_lock s)"
  "sh_expiry (apply_entries clock i (map Some xs) s) = fold expiry_apply (expiry_ops xs) (sh_expiry s)"
  "sh_auth (apply_entries clock i (map Some xs) s) = sh_auth s"
  "sh_bypass (apply_entries clock i (map Some xs) s) = sh_bypass s"
  by (induction xs arbitrary: i s) (simp_all add: apply_entry_caches)

text \<open>The value a map of staged operations gives a user in each cache.\<close>

definition staged_lock :: "timestamp \<Rightarrow> staged option \<Rightarrow> timestamp option \<Rightarrow> timestamp option" where
  "staged_lock t st old =
     (case st of
        Some (Some (SetLock x), _) \<Rightarrow> if t < x then Some x else None
      | Some (Some ClearLock, _) \<Rightarrow> None
      | _ \<Rightarrow> old)"

definition staged_expiry :: "staged option \<Rightarrow> (timestamp \<times> timestamp \<times> int) option
    \<Rightarrow> (timestamp \<times> timestamp \<times> int) option" where
  "staged_expiry st old =
     (case st of
        Some (_, ExpirySet must gen grace) \<Rightarrow> Some (must, gen, max grace 0)
      | Some (_, ExpiryClear) \<Rightarrow> None
      | _ \<Rightarrow> old)"

text \<open>One entry per user, as after every savepoint has been closed.\<close>

definition one_per_user :: "PendingEntry list \<Rightarrow> bool" where
  "one_per_user xs \<longleftrightarrow> distinct (map pe_username xs)"

definition user_staged :: "PendingEntry list \<Rightarrow> frame" where
  "user_staged xs u = map_option (\<lambda>e. (pe_decision e, pe_expiry e)) (List.find (\<lambda>e. pe_username e = u) xs)"

lemma user_staged_simps [simp]:
  "user_staged [] u = None"
  "user_staged (e # es) u = (if pe_username e = u then Some (pe_decision e, pe_expiry e) else user_staged es u)"
  by (simp_all add: user_staged_def)

lemma user_staged_notin: "u \<notin> pe_username ` set xs \<Longrightarrow> user_staged xs u = None"
  by (induction xs) auto

lemma overlay_lock_ops:
  "one_per_user xs \<Longrightarrow>
    overlay lock_op_key (lock_op_val t) (lock_ops clock i xs) m u = staged_lock t (user_staged xs u) (m u)"
proof (induction xs arbitrary: i m)
  case (Cons e xs)
  then have d: "one_per_user xs" and notin: "pe_username e \<notin> pe_username ` set xs"
    by (simp_all add: one_per_user_def)
  note ih = Cons.IH [OF d]
  have none: "user_staged xs (pe_username e) = None" using user_staged_notin notin by blast
  show ?case
    using none
    by (auto simp: ih overlay_Cons staged_lock_def split: option.split CacheDecision.split)
qed (simp add: staged_lock_def)

lemma overlay_expiry_ops:
  "one_per_user xs \<Longrightarrow>
    overlay fst expiry_op_val (expiry_ops xs) m u = staged_expiry (user_staged xs u) (m u)"
proof (induction xs arbitrary: m)
  case (Cons e xs)
  then have d: "one_per_user xs" and notin: "pe_username e \<notin> pe_username ` set xs"
    by (simp_all add: one_per_user_def)
  note ih = Cons.IH [OF d]
  have none: "user_staged xs (pe_username e) = None" using user_staged_notin notin by blast
  show ?case
    using none
    by (auto simp: ih overlay_Cons staged_expiry_def split: PendingExpiry.split)
qed (simp add: staged_expiry_def)

text \<open>The staged locks lie in the future whenever they are applied, and every staged user is a name.\<close>

definition staged_ok :: "(nat \<Rightarrow> timestamp) \<Rightarrow> timestamp \<Rightarrow> frame \<Rightarrow> bool" where
  "staged_ok clock t m \<longleftrightarrow> (\<forall>i. clock i \<le> t) \<and> (\<forall>u st. m u = Some st \<longrightarrow> slot_used u
     \<and> (\<forall>x. fst st = Some (SetLock x) \<longrightarrow> (\<forall>i. clock i < x)))"

lemma user_staged_mem:
  "one_per_user xs \<Longrightarrow> e \<in> set xs \<Longrightarrow> user_staged xs (pe_username e) = Some (pe_decision e, pe_expiry e)"
  by (induction xs) (auto simp: one_per_user_def)

lemma staged_ops_ok:
  assumes "one_per_user xs" and "staged_ok clock t (user_staged xs)"
  shows "\<forall>x \<in> set (lock_ops clock i xs). lock_op_ok t x"
    and "\<forall>x \<in> set (expiry_ops xs). slot_used (fst x)"
proof -
  have ok: "\<forall>e \<in> set xs. slot_used (pe_username e)
      \<and> (\<forall>x i. pe_decision e = Some (SetLock x) \<longrightarrow> clock i < x \<and> clock i \<le> t)"
    using user_staged_mem [OF assms(1)] assms(2) unfolding staged_ok_def by fastforce
  show "\<forall>x \<in> set (lock_ops clock i xs). lock_op_ok t x"
    using ok
  proof (induction xs arbitrary: i)
    case (Cons e es)
    have "\<forall>x \<in> set (lock_ops clock (Suc i) es). lock_op_ok t x"
      using Cons.IH Cons.prems by simp
    moreover have "case pe_decision e of None \<Rightarrow> True | Some d \<Rightarrow> lock_op_ok t (clock i, pe_username e, d)"
      using Cons.prems by (auto split: option.split) (metis CacheDecision.exhaust lock_op_ok.simps)
    ultimately show ?case by (auto split: option.splits)
  qed simp
  show "\<forall>x \<in> set (expiry_ops xs). slot_used (fst x)"
    using ok by (induction xs) (auto split: PendingExpiry.splits)
qed

lemma one_level_per_user:
  assumes "level_ordered xs" and "\<forall>e \<in> set xs. pe_subid e = sub"
  shows "one_per_user xs" and "user_staged xs = frame_of xs sub"
proof -
  show "one_per_user xs"
    using assms by (induction xs) (auto simp: one_per_user_def level_ordered_def)
  have "List.find (in_slot sub u) xs = List.find (\<lambda>e. pe_username e = u) xs" for u
    using assms(2) by (induction xs) (auto simp: in_slot_def)
  then show "user_staged xs = frame_of xs sub" by (simp add: fun_eq_iff user_staged_def frame_of_def)
qed

lemma txn_sim_single:
  assumes "txn_sim t [m]"
  obtains xs where "pend_rel (tx_pending t) xs" "one_per_user xs" "user_staged xs = m"
proof -
  from assms obtain xs sub where x: "pend_rel (tx_pending t) xs" "level_ordered xs"
    "tx_stack t = [sub]" "\<forall>e \<in> set xs. pe_subid e = sub" "m = frame_of xs sub"
    by (auto simp: txn_sim_def)
  from one_level_per_user [OF x(2,4)] x(1,5) that show ?thesis by simp
qed

definition caches_inv :: "shm \<Rightarrow> bool" where
  "caches_inv s \<longleftrightarrow> lock_opt_inv (sh_lock s) \<and> expiry_opt_inv (sh_expiry s)"

lemma apply_all_caches:
  assumes "pend_rel st xs" and "one_per_user xs" and "caches_inv s"
    and "staged_ok clock t (user_staged xs)"
  shows "caches_inv (apply_all clock st s)"
    and "lock_degraded (sh_lock (apply_all clock st s)) \<or> lock_opt_view t (sh_lock (apply_all clock st s)) u
      = staged_lock t (user_staged xs u) (lock_opt_view t (sh_lock s) u)"
    and "expiry_degraded (sh_expiry (apply_all clock st s)) \<or> expiry_opt_view (sh_expiry (apply_all clock st s)) u
      = staged_expiry (user_staged xs u) (expiry_opt_view (sh_expiry s) u)"
    and "sh_auth (apply_all clock st s) = sh_auth s"
proof -
  have a: "apply_all clock st s = apply_entries clock 0 (map Some xs) s"
    using assms(1) by (simp add: apply_all_def)
  note ok = staged_ops_ok [OF assms(2,4)]
  have li: "lock_opt_inv (sh_lock s)" and xi: "expiry_opt_inv (sh_expiry s)"
    using assms(3) by (simp_all add: caches_inv_def)
  note l = lock_cache.apply_ops [OF li ok(1)] and x = expiry_cache.apply_ops [OF xi ok(2)]
  show "caches_inv (apply_all clock st s)"
    using l x unfolding a caches_inv_def apply_entries_caches by blast
  show "lock_degraded (sh_lock (apply_all clock st s)) \<or> lock_opt_view t (sh_lock (apply_all clock st s)) u
      = staged_lock t (user_staged xs u) (lock_opt_view t (sh_lock s) u)"
    using l unfolding a apply_entries_caches by (metis overlay_lock_ops [OF assms(2)])
  show "expiry_degraded (sh_expiry (apply_all clock st s)) \<or> expiry_opt_view (sh_expiry (apply_all clock st s)) u
      = staged_expiry (user_staged xs u) (expiry_opt_view (sh_expiry s) u)"
    using x unfolding a apply_entries_caches by (metis overlay_expiry_ops [OF assms(2)])
  show "sh_auth (apply_all clock st s) = sh_auth s" unfolding a apply_entries_caches ..
qed

lemma commit_final:
  assumes "run_steps txn_step ops txn_start = Some tx"
    and "run_steps spec_step ops [Map.empty] = Some [m]"
    and "caches_inv s" and "staged_ok clock t m"
    and "xact_callback clock XactCommit (tx_pending tx, s) = Inr (st, s1)"
  shows "pending_is_empty st \<and> caches_inv s1
    \<and> (lock_state (sh_lock s1) = Overflow
       \<or> lock_opt_view t (sh_lock s1) u = staged_lock t (m u) (lock_opt_view t (sh_lock s) u))
    \<and> (expiry_state (sh_expiry s1) = ExpiryOverflow
       \<or> expiry_opt_view (sh_expiry s1) u = staged_expiry (m u) (expiry_opt_view (sh_expiry s) u))
    \<and> sh_auth s1 = (case pn_ack (tx_pending tx) of None \<Rightarrow> sh_auth s
         | Some a \<Rightarrow> fst (ack_claim (pa_token a) (sh_auth s)))
    \<and> (\<exists>st2. xact_callback clock XactAbort (tx_pending tx, s) = Inr (st2, s) \<and> pending_is_empty st2)"
proof -
  obtain fs where "run_steps spec_step ops [Map.empty] = Some fs" "txn_sim tx fs"
    using run_steps_sim [OF txn_sim_start assms(1)] by blast
  then have "txn_sim tx [m]" using assms(2) by simp
  then obtain xs where x: "pend_rel (tx_pending tx) xs" "one_per_user xs" "user_staged xs = m"
    by (rule txn_sim_single)
  note a = apply_all_caches [OF x(1,2) assms(3), of clock t, unfolded x(3), OF assms(4)]
  have e: "pending_is_empty (pending_reset (tx_pending tx))"
    by (simp add: pending_is_empty_def pending_reset_def live_def)
  show ?thesis
    using a(1,4) a(2,3) [of u] e assms(5)
    by (auto simp: Let_def caches_inv_def lock_degraded_def expiry_degraded_def split: option.splits)
qed

section \<open>Properties of transactions\<close>

text \<open>
  The bounded array of staged operations implements savepoints. Whatever sequence of
  staging, savepoints, releases and rollbacks a transaction performs, as long as it does not fail, the
  array represents the stack of maps of the specification: each open savepoint has its own latest
  operation per user, a release merges it into its parent, and a rollback restores exactly what the
  parent had. A transaction that closed all its savepoints has one operation per user.
\<close>

theorem savepoints_refine_stack_of_maps:
  assumes "run_steps txn_step ops txn_start = Some t"
  shows "\<exists>fs xs. run_steps spec_step ops [Map.empty] = Some fs \<and> pend_rel (tx_pending t) xs
    \<and> length fs = length (tx_stack t)
    \<and> (\<forall>k < length fs. \<forall>u. (fs ! k) u = frame_of xs (tx_stack t ! k) u)
    \<and> (length fs = 1 \<longrightarrow> one_per_user xs \<and> user_staged xs = hd fs)"
proof -
  obtain fs where fs: "run_steps spec_step ops [Map.empty] = Some fs" "txn_sim t fs"
    using run_steps_sim [OF txn_sim_start assms] by blast
  from fs(2) obtain xs where x: "pend_rel (tx_pending t) xs" "level_ordered xs"
    "\<forall>e \<in> set xs. pe_subid e \<in> set (tx_stack t)" "fs = map (frame_of xs) (tx_stack t)"
    by (auto simp: txn_sim_def)
  have "one_per_user xs \<and> user_staged xs = hd fs" if one: "length fs = 1"
  proof -
    obtain sub where "tx_stack t = [sub]" using one x(4) by (cases "tx_stack t") auto
    then show ?thesis using one_level_per_user [OF x(2), of sub] x(3,4) by simp
  qed
  with fs(1) x show ?thesis by (intro exI [of _ fs] exI [of _ xs]) auto
qed

definition user_a :: "byte list" where "user_a = encode_username [0x61]"

lemma user_a_used: "slot_used user_a"
  unfolding user_a_def by (rule encode_used) (simp add: representable_def LOCK_USERNAME_BYTES_def)

text \<open>The sequence of the source's first savepoint test.\<close>

definition sample_txn :: "txn_op list" where
  "sample_txn = [TStage user_a (Some (SetLock 1000000)) ExpiryNone, TSavepoint,
     TStage user_a (Some ClearLock) ExpiryNone, TRelease, TStage user_a (Some (SetLock 2000000)) ExpiryNone]"

lemma sample_txn_runs: "\<exists>t. run_steps txn_step sample_txn txn_start = Some t"
  by (simp add: sample_txn_def txn_start_def pending_new_def stage_entry_def live_def
      MAX_PENDING_OPS_def on_sub_commit_def compact_duplicates_def compact_def not_superseded_def
      reparent_def Let_def upt_rec numeral_eq_Suc)

lemma sample_txn_spec:
  "run_steps spec_step sample_txn [Map.empty] = Some [[user_a \<mapsto> (Some (SetLock 2000000), ExpiryNone)]]"
  by (simp add: sample_txn_def fun_eq_iff)

theorem savepoints_refine_stack_of_maps_witness:
  "\<exists>t xs. run_steps txn_step sample_txn txn_start = Some t \<and> pend_rel (tx_pending t) xs
     \<and> user_staged xs user_a = Some (Some (SetLock 2000000), ExpiryNone)"
proof -
  obtain t where t: "run_steps txn_step sample_txn txn_start = Some t" using sample_txn_runs by blast
  from savepoints_refine_stack_of_maps [OF t] sample_txn_spec t show ?thesis by auto
qed


definition fresh_shm :: shm where
  "fresh_shm = \<lparr>sh_auth = fresh_auth, sh_lock = Some lock_cache_new, sh_expiry = Some expiry_cache_new,
     sh_bypass = Some bypass_cache_new\<rparr>"

lemma fresh_shm_inv: "caches_inv fresh_shm"
  by (simp add: caches_inv_def fresh_shm_def lock_opt_inv_def expiry_opt_inv_def lock_cache_new_inv
      expiry_cache_new_inv)


text \<open>
  Property C40: staging replaces both halves of an earlier operation. After a lock decision has
  been staged for a user, staging an expiry decision for the same user at the same level makes the
  commit leave that user's lock untouched: the lock decision is lost, and so is an expiry update when
  a lock decision follows it.
\<close>

theorem restaging_loses_other_half:
  assumes "staged_ok clock t [u \<mapsto> (None, x)]" and "staged_ok clock t [u \<mapsto> (Some d, ExpiryNone)]"
    and "caches_inv s"
  shows "\<exists>t1 st1 s1 t2 st2 s2.
      run_steps txn_step [TStage u (Some d) ExpiryNone, TStage u None x] txn_start = Some t1
    \<and> xact_callback clock XactCommit (tx_pending t1, s) = Inr (st1, s1)
    \<and> (lock_state (sh_lock s1) = Overflow \<or> lock_opt_view t (sh_lock s1) u = lock_opt_view t (sh_lock s) u)
    \<and> run_steps txn_step [TStage u None x, TStage u (Some d) ExpiryNone] txn_start = Some t2
    \<and> xact_callback clock XactCommit (tx_pending t2, s) = Inr (st2, s2)
    \<and> (expiry_state (sh_expiry s2) = ExpiryOverflow
       \<or> expiry_opt_view (sh_expiry s2) u = expiry_opt_view (sh_expiry s) u)"
proof -
  let ?o1 = "[TStage u (Some d) ExpiryNone, TStage u None x]"
  let ?o2 = "[TStage u None x, TStage u (Some d) ExpiryNone]"
  obtain t1 where t1: "run_steps txn_step ?o1 txn_start = Some t1"
    by (simp add: txn_start_def pending_new_def stage_entry_def live_def MAX_PENDING_OPS_def Let_def
        numeral_eq_Suc)
  obtain t2 where t2: "run_steps txn_step ?o2 txn_start = Some t2"
    by (simp add: txn_start_def pending_new_def stage_entry_def live_def MAX_PENDING_OPS_def Let_def
        numeral_eq_Suc)
  have s1: "run_steps spec_step ?o1 [Map.empty] = Some [[u \<mapsto> (None, x)]]" by simp
  have s2: "run_steps spec_step ?o2 [Map.empty] = Some [[u \<mapsto> (Some d, ExpiryNone)]]" by simp
  obtain st1 c1 where c1: "xact_callback clock XactCommit (tx_pending t1, s) = Inr (st1, c1)"
    by (simp add: Let_def)
  obtain st2 c2 where c2: "xact_callback clock XactCommit (tx_pending t2, s) = Inr (st2, c2)"
    by (simp add: Let_def)
  from commit_final [OF t1 s1 assms(3,1) c1, of u] commit_final [OF t2 s2 assms(3,2) c2, of u]
  show ?thesis using t1 t2 c1 c2 by (auto simp: staged_lock_def staged_expiry_def)
qed

theorem restaging_loses_other_half_witness:
  "\<exists>t1 st1 s1.
      run_steps txn_step [TStage user_a (Some (SetLock 9)) ExpiryNone, TStage user_a None ExpiryClear] txn_start = Some t1
    \<and> xact_callback (\<lambda>_. 0) XactCommit (tx_pending t1, fresh_shm) = Inr (st1, s1)
    \<and> (lock_state (sh_lock s1) = Overflow \<or> lock_opt_view 5 (sh_lock s1) user_a = lock_opt_view 5 (sh_lock fresh_shm) user_a)"
proof -
  have "staged_ok (\<lambda>_. 0) 5 [user_a \<mapsto> (None, ExpiryClear)]"
    and "staged_ok (\<lambda>_. 0) 5 [user_a \<mapsto> (Some (SetLock 9), ExpiryNone)]"
    by (auto simp: staged_ok_def user_a_used split: if_splits)
  from restaging_loses_other_half [OF this fresh_shm_inv] show ?thesis by blast
qed

end
