(* ===== verification/Config.thy ===== *)
theory Config
  imports Prelude
begin

text \<open>
  The configuration of the extension: the settings of \<^verbatim>\<open>lib.rs\<close> with their defaults, the table of
  their registrations in \<^verbatim>\<open>_PG_init\<close> (kind, range and who may change them), and the derived switches
  the hook and the worker share.
\<close>

record guc =
  PASSWORD_MIN_LENGTH :: int
  REQUIRE_UPPERCASE :: bool
  REQUIRE_LOWERCASE :: bool
  REQUIRE_DIGIT :: bool
  REQUIRE_SPECIAL :: bool
  PREVENT_USERNAME :: bool
  PASSWORD_HISTORY_COUNT :: int
  PASSWORD_REUSE_DAYS :: int
  PASSWORD_EXPIRY_DAYS :: int
  PASSWORD_GRACE_LOGINS :: int
  FAILED_LOGIN_MAX :: int
  LOCKOUT_MINUTES :: int
  BCRYPT_COST :: int
  BYPASS_PASSWORD_PROFILE :: bool
  LOCKOUT_ENFORCEMENT :: bool
  EXPIRY_ENFORCEMENT :: bool

definition guc_default :: guc where
  "guc_default = \<lparr>PASSWORD_MIN_LENGTH = 8, REQUIRE_UPPERCASE = False, REQUIRE_LOWERCASE = False,
     REQUIRE_DIGIT = False, REQUIRE_SPECIAL = False, PREVENT_USERNAME = True,
     PASSWORD_HISTORY_COUNT = 5, PASSWORD_REUSE_DAYS = 90, PASSWORD_EXPIRY_DAYS = 90,
     PASSWORD_GRACE_LOGINS = 3, FAILED_LOGIN_MAX = 3, LOCKOUT_MINUTES = 2, BCRYPT_COST = 10,
     BYPASS_PASSWORD_PROFILE = False, LOCKOUT_ENFORCEMENT = True, EXPIRY_ENFORCEMENT = True\<rparr>"

datatype guc_context = Suset | Sighup

text \<open>A registration: the setting it reads as an integer with its range, or as a boolean.\<close>

datatype guc_kind = GucInt "guc \<Rightarrow> int" int int | GucBool "guc \<Rightarrow> bool"

definition guc_table :: "(string \<times> guc_kind \<times> guc_context) list" where
  "guc_table =
     [(''password_profile.min_length'', GucInt PASSWORD_MIN_LENGTH 1 128, Suset),
      (''password_profile.require_uppercase'', GucBool REQUIRE_UPPERCASE, Suset),
      (''password_profile.require_lowercase'', GucBool REQUIRE_LOWERCASE, Suset),
      (''password_profile.require_digit'', GucBool REQUIRE_DIGIT, Suset),
      (''password_profile.require_special'', GucBool REQUIRE_SPECIAL, Suset),
      (''password_profile.prevent_username'', GucBool PREVENT_USERNAME, Suset),
      (''password_profile.password_history_count'', GucInt PASSWORD_HISTORY_COUNT 0 24, Suset),
      (''password_profile.password_reuse_days'', GucInt PASSWORD_REUSE_DAYS 0 3650, Suset),
      (''password_profile.password_expiry_days'', GucInt PASSWORD_EXPIRY_DAYS 0 3650, Suset),
      (''password_profile.password_grace_logins'', GucInt PASSWORD_GRACE_LOGINS 0 10, Suset),
      (''password_profile.failed_login_max'', GucInt FAILED_LOGIN_MAX 1 100, Suset),
      (''password_profile.lockout_minutes'', GucInt LOCKOUT_MINUTES 1 1440, Suset),
      (''password_profile.bcrypt_cost'', GucInt BCRYPT_COST 4 31, Suset),
      (''password_profile.lockout_enforcement'', GucBool LOCKOUT_ENFORCEMENT, Sighup),
      (''password_profile.expiry_enforcement'', GucBool EXPIRY_ENFORCEMENT, Sighup),
      (''password_profile.bypass_password_profile'', GucBool BYPASS_PASSWORD_PROFILE, Suset)]"

definition guc_valid :: "guc \<Rightarrow> bool" where
  "guc_valid g \<longleftrightarrow> (\<forall>(name, kind, ctx) \<in> set guc_table.
     case kind of GucInt get lo hi \<Rightarrow> lo \<le> get g \<and> get g \<le> hi | GucBool get \<Rightarrow> True)"

definition lockout_enforcement_enabled :: "guc \<Rightarrow> bool" where
  "lockout_enforcement_enabled g = LOCKOUT_ENFORCEMENT g"

definition expiry_login_enforcement_active :: "guc \<Rightarrow> bool" where
  "expiry_login_enforcement_active g \<longleftrightarrow> EXPIRY_ENFORCEMENT g \<and> 0 < PASSWORD_EXPIRY_DAYS g"

lemma guc_valid_iff:
  "guc_valid g \<longleftrightarrow> PASSWORD_MIN_LENGTH g \<in> {1..128} \<and> PASSWORD_HISTORY_COUNT g \<in> {0..24}
     \<and> PASSWORD_REUSE_DAYS g \<in> {0..3650} \<and> PASSWORD_EXPIRY_DAYS g \<in> {0..3650}
     \<and> PASSWORD_GRACE_LOGINS g \<in> {0..10} \<and> FAILED_LOGIN_MAX g \<in> {1..100}
     \<and> LOCKOUT_MINUTES g \<in> {1..1440} \<and> BCRYPT_COST g \<in> {4..31}"
  by (auto simp: guc_valid_def guc_table_def)

lemma guc_default_valid: "guc_valid guc_default"
  by (simp add: guc_valid_iff guc_default_def)

end
