(* ===== verification/Database.thy ===== *)
theory Database
  imports Transactions Config "HOL-Library.AList"
begin

text \<open>
  The authoritative tables of the extension (\<^verbatim>\<open>sql/password_profile_schema.sql\<close>) and how the code
  reaches them. A table with a primary key is an association list over that key; a nullable column
  the code tests for NULL is an option. A session is the database as the current transaction sees it,
  together with the cache operations it has staged. Statements run through SPI; whether a statement
  raises is an argument, and a raised error stops the operation at that statement. The catalogue
  (\<^verbatim>\<open>pg_user\<close>, \<^verbatim>\<open>pg_roles\<close>), the clocks and PostgreSQL's calendar arithmetic are arguments too.
\<close>

section \<open>Tables\<close>

record LoginAttempt =
  la_fail_count :: int
  la_last_fail :: timestamp
  la_lockout_until :: "timestamp option"

record ExpiryRow =
  er_last_changed :: "timestamp option"
  er_must_change_by :: "timestamp option"
  er_grace_logins_remaining :: "int option"

record HistoryRow =
  hr_id :: nat
  hr_username :: username
  hr_password_hash :: rust_str
  hr_changed_at :: timestamp

record BlacklistRow =
  bl_added_at :: timestamp
  bl_reason :: rust_str

record database =
  db_login_attempts :: "(username \<times> LoginAttempt) list"
  db_password_history :: "HistoryRow list"
  db_password_expiry :: "(username \<times> ExpiryRow) list"
  db_blacklist :: "(rust_str \<times> BlacklistRow) list"
  db_auth_event_receipts :: "(byte list \<times> timestamp) list"
  db_history_next_id :: nat

definition empty_database :: database where
  "empty_database = \<lparr>db_login_attempts = [], db_password_history = [], db_password_expiry = [],
     db_blacklist = [], db_auth_event_receipts = [], db_history_next_id = 1\<rparr>"

text \<open>Primary keys are unique, and new history identifiers are larger than the existing ones.\<close>

definition db_ok :: "database \<Rightarrow> bool" where
  "db_ok d \<longleftrightarrow> distinct (map fst (db_login_attempts d)) \<and> distinct (map fst (db_password_expiry d))
     \<and> distinct (map fst (db_blacklist d)) \<and> distinct (map fst (db_auth_event_receipts d))
     \<and> distinct (map hr_id (db_password_history d))
     \<and> (\<forall>h \<in> set (db_password_history d). hr_id h < db_history_next_id d)"

lemma empty_database_ok: "db_ok empty_database"
  by (simp add: db_ok_def empty_database_def)

section \<open>Sessions and statements\<close>

record pg_user_row =
  us_super :: bool
  us_config :: "string list"

record pg_catalog =
  ct_user :: "username \<Rightarrow> pg_user_row option"
  ct_role_exists :: "username \<Rightarrow> bool"

datatype db_error = SpiError string | DbError string

text \<open>The ways a single SPI call can end, where the caller tells a returned error from a raised one.\<close>

datatype spi_outcome = SpiReturnsOk | SpiReturnsErr | SpiRaises

record db_env =
  de_database :: bool
  de_now :: timestamp
  de_clock :: timestamp
  de_subid :: subid
  de_spi :: "string \<Rightarrow> bool"

record session =
  ss_db :: database
  ss_pending :: PendingState

type_synonym 'a db_result = "session \<times> (db_error + 'a)"

text \<open>A statement that may raise, followed by the rest of the operation.\<close>

definition spi :: "db_env \<Rightarrow> string \<Rightarrow> (session \<Rightarrow> 'a db_result) \<Rightarrow> session \<Rightarrow> 'a db_result" where
  "spi env statement rest s = (if de_spi env statement then rest s else (s, Inl (SpiError statement)))"

text \<open>Staging a cache operation; a full staging area is an error that aborts the transaction.\<close>

definition stage_then :: "PendingState \<times> (string + unit) \<Rightarrow> (session \<Rightarrow> 'a db_result)
    \<Rightarrow> session \<Rightarrow> 'a db_result" where
  "stage_then staged rest s =
     (case staged of
        (st, Inr _) \<Rightarrow> rest (s\<lparr>ss_pending := st\<rparr>)
      | (st, Inl msg) \<Rightarrow> (s\<lparr>ss_pending := st\<rparr>, Inl (DbError msg)))"

section \<open>Role settings\<close>

text \<open>\<^verbatim>\<open>LIKE\<close> with a trailing percent sign: an underscore of the pattern matches any character.\<close>

fun like_prefix :: "string \<Rightarrow> string \<Rightarrow> bool" where
  "like_prefix [] s = True"
| "like_prefix (p # ps) [] = False"
| "like_prefix (p # ps) (c # cs) = ((p = CHR ''_'' \<or> p = c) \<and> like_prefix ps cs)"

definition is_digit_char :: "char \<Rightarrow> bool" where
  "is_digit_char c \<longleftrightarrow> 48 \<le> (of_char c :: nat) \<and> (of_char c :: nat) \<le> 57"

text \<open>\<^verbatim>\<open>substring(s FROM 'lit([0-9]+)')\<close>: the digits after the leftmost match.\<close>

fun regex_digits :: "string \<Rightarrow> string \<Rightarrow> string option" where
  "regex_digits lit s =
     (let ds = takeWhile is_digit_char (drop (length lit) s)
      in if prefix lit s \<and> ds \<noteq> [] then Some ds
         else case s of [] \<Rightarrow> None | c # cs \<Rightarrow> regex_digits lit cs)"

declare regex_digits.simps [simp del]

definition digits_value :: "string \<Rightarrow> int" where
  "digits_value ds = foldl (\<lambda>n c. 10 * n + (int (of_char c) - 48)) 0 ds"

text \<open>
  A per-role override of an integer setting as \<^verbatim>\<open>record_failed_login\<close> reads it: the scalar subquery
  raises for more than one matching entry, and the cast raises when the value exceeds an \<^verbatim>\<open>int4\<close>.
\<close>

definition role_override :: "string \<Rightarrow> int \<Rightarrow> string list \<Rightarrow> db_error + int" where
  "role_override name global config =
     (case filter (like_prefix (name @ ''='')) config of
        [] \<Rightarrow> Inr global
      | [cfg] \<Rightarrow>
          (case regex_digits (name @ ''='') cfg of
             None \<Rightarrow> Inr global
           | Some ds \<Rightarrow> if digits_value ds \<le> I32_MAX then Inr (digits_value ds)
                        else Inl (SpiError ''integer out of range''))
      | _ \<Rightarrow> Inl (SpiError ''more than one row returned by a subquery''))"

definition user_config :: "pg_catalog \<Rightarrow> username \<Rightarrow> string list" where
  "user_config cat u = (case ct_user cat u of None \<Rightarrow> [] | Some r \<Rightarrow> us_config r)"

definition user_is_super :: "pg_catalog \<Rightarrow> username \<Rightarrow> bool" where
  "user_is_super cat u = (case ct_user cat u of None \<Rightarrow> False | Some r \<Rightarrow> us_super r)"

text \<open>The exemption test of the SQL-level paths: exactly the spelling \<^verbatim>\<open>true\<close>.\<close>

definition user_bypass :: "pg_catalog \<Rightarrow> username \<Rightarrow> bool" where
  "user_bypass cat u \<longleftrightarrow> ''password_profile.bypass_password_profile=true'' \<in> set (user_config cat u)"

section \<open>Shared lemmas\<close>

lemma map_of_update_alist [simp]: "map_of (AList.update k v t) = (map_of t)(k \<mapsto> v)"
  by (rule AList.update_conv')

lemma map_of_delete_alist [simp]: "map_of (AList.delete k t) = (map_of t)(k := None)"
  by (rule AList.delete_conv')

text \<open>Staging into an empty transaction, at its top level.\<close>

lemma stage_start:
  "\<exists>t. txn_step (TStage u d x) txn_start = Some t
     \<and> stage_inner 1 u d x pending_new = (tx_pending t, Inr ())
     \<and> run_steps txn_step [TStage u d x] txn_start = Some t"
  by (simp add: txn_start_def pending_new_def stage_inner_def stage_entry_def live_def
      MAX_PENDING_OPS_def Let_def numeral_eq_Suc)

text \<open>What the commit of a transaction does that staged one operation.\<close>

lemma commit_one:
  assumes "stage_inner 1 u d x pending_new = (st, Inr ())"
    and "caches_inv s" and "slot_used u" and "\<forall>i. clock i \<le> t"
    and "\<forall>y. d = Some (SetLock y) \<longrightarrow> (\<forall>i. clock i < y)"
    and "xact_callback clock XactCommit (st, s) = Inr (st1, s1)"
  shows "caches_inv s1"
    and "lock_state (sh_lock s1) = Overflow \<or> lock_opt_view t (sh_lock s1) v =
      (if v = u then staged_lock t (Some (d, x)) (lock_opt_view t (sh_lock s) v)
       else lock_opt_view t (sh_lock s) v)"
    and "expiry_state (sh_expiry s1) = ExpiryOverflow \<or> expiry_opt_view (sh_expiry s1) v =
      (if v = u then staged_expiry (Some (d, x)) (expiry_opt_view (sh_expiry s) v)
       else expiry_opt_view (sh_expiry s) v)"
proof -
  obtain tx where t: "run_steps txn_step [TStage u d x] txn_start = Some tx" "st = tx_pending tx"
    using stage_start [of u d x] assms(1) by auto
  have m: "run_steps spec_step [TStage u d x] [Map.empty] = Some [[u \<mapsto> (d, x)]]" by simp
  have ok: "staged_ok clock t [u \<mapsto> (d, x)]" using assms(3-5) by (auto simp: staged_ok_def)
  note c = commit_final [OF t(1) m assms(2) ok assms(6) [unfolded t(2)], of v]
  show "caches_inv s1" using c by blast
  show "lock_state (sh_lock s1) = Overflow \<or> lock_opt_view t (sh_lock s1) v =
      (if v = u then staged_lock t (Some (d, x)) (lock_opt_view t (sh_lock s) v)
       else lock_opt_view t (sh_lock s) v)"
    using c by (auto simp: staged_lock_def)
  show "expiry_state (sh_expiry s1) = ExpiryOverflow \<or> expiry_opt_view (sh_expiry s1) v =
      (if v = u then staged_expiry (Some (d, x)) (expiry_opt_view (sh_expiry s) v)
       else expiry_opt_view (sh_expiry s) v)"
    using c by (auto simp: staged_expiry_def)
qed

end
