(* ===== verification/Login_Attempts.thy ===== *)
theory Login_Attempts
  imports Database
begin

text \<open>
  Failed-login bookkeeping of \<^verbatim>\<open>lib.rs\<close>: counting a failure, the automatic and the administrative
  clear, the decision derived from the authoritative row, the lockout query of the login hook and the
  SQL-level access checks. The properties say when a lockout starts, that an active one survives the
  automatic clear, and that the committed cache agrees with the committed table.
\<close>

section \<open>Operations\<close>

definition MICROS_PER_MINUTE :: int where "MICROS_PER_MINUTE = 60 * MICROS_PER_SEC"

text \<open>
  \<^verbatim>\<open>lock_cache::decision_from_db\<close>: reads the typed \<^verbatim>\<open>lockout_until\<close> and decides with the shared helper.
\<close>

definition lockout_until_of :: "(username \<times> LoginAttempt) list \<Rightarrow> username \<Rightarrow> timestamp option" where
  "lockout_until_of t u = Option.bind (map_of t u) la_lockout_until"

definition decision_from_db :: "db_env \<Rightarrow> username \<Rightarrow> session \<Rightarrow> CacheDecision db_result" where
  "decision_from_db env u s =
     (if \<not> de_database env then (s, Inl (DbError ''lock cache decision skipped: no database context''))
      else spi env ''select lockout_until''
        (\<lambda>s. (s, Inr (decision_for (lockout_until_of (db_login_attempts (ss_db s)) u) (de_clock env)))) s)"

text \<open>
  The two statements of \<^verbatim>\<open>record_failed_login\<close>: drop an expired lockout, then count the failure.
  \<open>None\<close>: the counter does not fit its \<^verbatim>\<open>int4\<close> column and the statement raises.
\<close>

definition reset_expired_lockout ::
  "timestamp \<Rightarrow> username \<Rightarrow> (username \<times> LoginAttempt) list \<Rightarrow> (username \<times> LoginAttempt) list" where
  "reset_expired_lockout now u t =
     (case map_of t u of
        None \<Rightarrow> t
      | Some r \<Rightarrow>
          (case la_lockout_until r of
             None \<Rightarrow> t
           | Some x \<Rightarrow> if x \<le> now
                       then AList.update u (r\<lparr>la_fail_count := 0, la_lockout_until := None\<rparr>) t else t))"

definition upsert_failure ::
  "timestamp \<Rightarrow> username \<Rightarrow> int \<Rightarrow> int \<Rightarrow> (username \<times> LoginAttempt) list
    \<Rightarrow> (username \<times> LoginAttempt) list option" where
  "upsert_failure now u max_fails lockout t =
     (case map_of t u of
        None \<Rightarrow> Some (AList.update u \<lparr>la_fail_count = 1, la_last_fail = now, la_lockout_until = None\<rparr> t)
      | Some r \<Rightarrow>
          if I32_MAX < la_fail_count r + 1 then None
          else Some (AList.update u \<lparr>la_fail_count = la_fail_count r + 1, la_last_fail = now,
            la_lockout_until = (if max_fails \<le> la_fail_count r + 1
              then Some (now + lockout * MICROS_PER_MINUTE) else None)\<rparr> t))"

definition on_login_attempts ::
  "((username \<times> LoginAttempt) list \<Rightarrow> (username \<times> LoginAttempt) list) \<Rightarrow> session \<Rightarrow> session" where
  "on_login_attempts f s =
     s\<lparr>ss_db := (ss_db s)\<lparr>db_login_attempts := f (db_login_attempts (ss_db s))\<rparr>\<rparr>"

definition record_failed_login ::
  "db_env \<Rightarrow> pg_catalog \<Rightarrow> guc \<Rightarrow> username \<Rightarrow> session \<Rightarrow> string db_result" where
  "record_failed_login env cat g username s =
     (if \<not> de_database env then (s, Inr ''Skipped - no database context'')
      else spi env ''select usesuper'' (\<lambda>s.
        if user_is_super cat username then (s, Inr ''Superuser bypassed'')
        else spi env ''select bypass'' (\<lambda>s.
        if user_bypass cat username then (s, Inr ''Bypassed failed login tracking'')
        else spi env ''select lockout_minutes'' (\<lambda>s.
        case role_override ''password_profile.lockout_minutes'' (LOCKOUT_MINUTES g)
               (user_config cat username) of Inl e \<Rightarrow> (s, Inl e)
        | Inr lockout \<Rightarrow> spi env ''select failed_login_max'' (\<lambda>s.
        case role_override ''password_profile.failed_login_max'' (FAILED_LOGIN_MAX g)
               (user_config cat username) of Inl e \<Rightarrow> (s, Inl e)
        | Inr max_fails \<Rightarrow> spi env ''lock login attempts'' (
          spi env ''reset expired lockout'' (\<lambda>s.
            spi env ''upsert failure'' (\<lambda>s.
              case upsert_failure (de_now env) username max_fails lockout (db_login_attempts (ss_db s)) of
                None \<Rightarrow> (s, Inl (SpiError ''integer out of range''))
              | Some t \<Rightarrow>
                  (case decision_from_db env username (on_login_attempts (\<lambda>_. t) s) of
                     (s, Inl e) \<Rightarrow> (s, Inl e)
                   | (s, Inr decision) \<Rightarrow>
                       stage_then (stage (de_subid env) (encode_username username) decision (ss_pending s))
                         (\<lambda>s. (s, Inr ''Failed login recorded'')) s))
              (on_login_attempts (reset_expired_lockout (de_now env) username) s))) s) s) s) s) s)"

record ClearOutcome =
  co_deleted :: nat
  co_active :: nat
  co_active_until :: "timestamp option"

text \<open>The two statements of the automatic clear: the conditional delete and the follow-up read.\<close>

definition conditional_delete ::
  "timestamp \<Rightarrow> username \<Rightarrow> (username \<times> LoginAttempt) list
    \<Rightarrow> (username \<times> LoginAttempt) list \<times> ClearOutcome" where
  "conditional_delete now u t =
     (case map_of t u of
        None \<Rightarrow> (t, \<lparr>co_deleted = 0, co_active = 0, co_active_until = None\<rparr>)
      | Some r \<Rightarrow>
          (case la_lockout_until r of
             None \<Rightarrow> (AList.delete u t, \<lparr>co_deleted = 1, co_active = 0, co_active_until = None\<rparr>)
           | Some x \<Rightarrow>
               if x \<le> now
               then (AList.delete u t, \<lparr>co_deleted = 1, co_active = 0, co_active_until = None\<rparr>)
               else (t, \<lparr>co_deleted = 0, co_active = 1, co_active_until = Some x\<rparr>)))"

definition clear_login_attempts_internal ::
  "db_env \<Rightarrow> username \<Rightarrow> bool \<Rightarrow> session \<Rightarrow> unit db_result" where
  "clear_login_attempts_internal env username force s =
     spi env ''lock login attempts'' (
       if force
       then spi env ''delete login attempts'' (\<lambda>s.
         stage_then (stage (de_subid env) (encode_username username) ClearLock (ss_pending s))
           (\<lambda>s. (s, Inr ())) (on_login_attempts (AList.delete username) s))
       else spi env ''conditional delete'' (\<lambda>s.
         let (t, co) = conditional_delete (de_now env) username (db_login_attempts (ss_db s));
             s1 = on_login_attempts (\<lambda>_. t) s
         in case (co_deleted co, co_active co, co_active_until co) of
              (0, 0, None) \<Rightarrow> stage_then (stage (de_subid env) (encode_username username)
                 (decision_for None (de_clock env)) (ss_pending s1)) (\<lambda>s. (s, Inr ())) s1
            | (Suc 0, 0, None) \<Rightarrow> stage_then (stage (de_subid env) (encode_username username)
                 (decision_for None (de_clock env)) (ss_pending s1)) (\<lambda>s. (s, Inr ())) s1
            | (0, Suc 0, Some x) \<Rightarrow> stage_then (stage (de_subid env) (encode_username username)
                 (decision_for (Some x) (de_clock env)) (ss_pending s1)) (\<lambda>s. (s, Inr ())) s1
            | _ \<Rightarrow> (s1, Inl (DbError ''inconsistent login_attempts state for one username'')))) s"

definition sql_clear_login_attempts ::
  "db_env \<Rightarrow> pg_catalog \<Rightarrow> username \<Rightarrow> username \<Rightarrow> session \<Rightarrow> string db_result" where
  "sql_clear_login_attempts env cat current_user username s =
     spi env ''select current_user'' (spi env ''select usesuper'' (\<lambda>s.
       if \<not> user_is_super cat current_user \<and> current_user \<noteq> username
       then (s, Inl (DbError ''Permission denied''))
       else case clear_login_attempts_internal env username True s of
              (s, Inl e) \<Rightarrow> (s, Inl e)
            | (s, Inr _) \<Rightarrow> (s, Inr ''Login attempts cleared''))) s"

text \<open>The lockout query the login hook falls back to; an SPI error is a warning and no lockout.\<close>

definition check_lockout_from_db :: "db_env \<Rightarrow> guc \<Rightarrow> username \<Rightarrow> database \<Rightarrow> int option" where
  "check_lockout_from_db env g username d =
     (if \<not> de_database env then None
      else if \<not> de_spi env ''select active lockout'' then None
      else case map_of (db_login_attempts d) username of
             None \<Rightarrow> None
           | Some r \<Rightarrow>
               (case la_lockout_until r of
                  None \<Rightarrow> None
                | Some x \<Rightarrow> if FAILED_LOGIN_MAX g \<le> la_fail_count r \<and> de_now env < x
                            then remaining_seconds_ceil x (de_clock env) else None))"

definition is_user_locked :: "db_env \<Rightarrow> username \<Rightarrow> database \<Rightarrow> bool" where
  "is_user_locked env username d =
     (de_spi env ''select locked'' \<and>
      (case lockout_until_of (db_login_attempts d) username of None \<Rightarrow> False | Some x \<Rightarrow> de_now env < x))"

text \<open>
  \<^verbatim>\<open>EXTRACT(EPOCH FROM d)::int\<close> is a numeric rounded to the nearest second, halves away from zero;
  the interval is positive here.
\<close>

definition round_seconds :: "int \<Rightarrow> int" where
  "round_seconds micros = (micros + MICROS_PER_SEC div 2) div MICROS_PER_SEC"

datatype access = AccessSkipped | AccessGranted | AccountLocked int int

definition check_user_access :: "db_env \<Rightarrow> username \<Rightarrow> LockCache option \<Rightarrow> database \<Rightarrow> access" where
  "check_user_access env username c d =
     (if \<not> de_database env then AccessSkipped
      else
        let from_db =
          (if \<not> de_spi env ''select seconds_left'' then AccessGranted
           else case lockout_until_of (db_login_attempts d) username of
                  None \<Rightarrow> AccessGranted
                | Some x \<Rightarrow>
                    if de_now env < x \<and> round_seconds (x - de_now env) \<le> I32_MAX
                       \<and> 0 < round_seconds (x - de_now env)
                    then AccountLocked (round_seconds (x - de_now env) div 60)
                           (round_seconds (x - de_now env) mod 60)
                    else AccessGranted)
        in case remaining_seconds (de_clock env) username c of
             Some seconds \<Rightarrow> if 0 < seconds then AccountLocked (seconds div 60) (seconds mod 60) else from_db
           | None \<Rightarrow> from_db)"

section \<open>What the statements do to the table\<close>

text \<open>The lockout of a user that is active at \<open>t\<close>, and agreement of the lock cache with the table.\<close>

definition live_lockout :: "timestamp \<Rightarrow> (username \<times> LoginAttempt) list \<Rightarrow> username \<Rightarrow> timestamp option" where
  "live_lockout t tab u = Option.bind (lockout_until_of tab u) (\<lambda>x. if t < x then Some x else None)"

definition lock_coherent :: "timestamp \<Rightarrow> (username \<times> LoginAttempt) list \<Rightarrow> LockCache option \<Rightarrow> bool" where
  "lock_coherent t tab c \<longleftrightarrow>
     (\<forall>u. representable u \<longrightarrow> lock_opt_view t c (encode_username u) = live_lockout t tab u)"

definition counted_failure :: "timestamp \<Rightarrow> int \<Rightarrow> int \<Rightarrow> LoginAttempt option \<Rightarrow> LoginAttempt" where
  "counted_failure now max_fails lockout row =
     (let old = (case row of
              None \<Rightarrow> None
            | Some r \<Rightarrow> (case la_lockout_until r of
                 Some x \<Rightarrow> if x \<le> now then Some 0 else Some (la_fail_count r)
               | None \<Rightarrow> Some (la_fail_count r)))
      in case old of
           None \<Rightarrow> \<lparr>la_fail_count = 1, la_last_fail = now, la_lockout_until = None\<rparr>
         | Some n \<Rightarrow> \<lparr>la_fail_count = n + 1, la_last_fail = now,
             la_lockout_until = (if max_fails \<le> n + 1 then Some (now + lockout * MICROS_PER_MINUTE) else None)\<rparr>)"

lemma failure_statements:
  assumes "upsert_failure now u m l (reset_expired_lockout now u t) = Some t1"
  shows "map_of t1 = (map_of t)(u \<mapsto> counted_failure now m l (map_of t u))"
    and "distinct (map fst t) \<Longrightarrow> distinct (map fst t1)"
  using assms by (auto simp: upsert_failure_def reset_expired_lockout_def counted_failure_def Let_def
      AList.distinct_update split: option.splits if_splits)

lemma conditional_delete_cases:
  obtains
    (active) x where "lockout_until_of t u = Some x" "now < x" "conditional_delete now u t =
      (t, \<lparr>co_deleted = 0, co_active = 1, co_active_until = Some x\<rparr>)"
  | (deleted) "live_lockout now t u = None" "conditional_delete now u t =
      (AList.delete u t, \<lparr>co_deleted = 1, co_active = 0, co_active_until = None\<rparr>)"
  | (absent) "map_of t u = None" "conditional_delete now u t =
      (t, \<lparr>co_deleted = 0, co_active = 0, co_active_until = None\<rparr>)"
proof (cases "map_of t u")
  case (Some r)
  note row = this
  show ?thesis
  proof (cases "la_lockout_until r")
    case (Some x)
    then show ?thesis
      using row active [of x] deleted
      by (cases "x \<le> now") (auto simp: conditional_delete_def lockout_until_of_def live_lockout_def)
  qed (use row deleted in \<open>auto simp: conditional_delete_def lockout_until_of_def live_lockout_def\<close>)
qed (use absent in \<open>simp add: conditional_delete_def\<close>)

lemma on_login_attempts_simps [simp]:
  "db_login_attempts (ss_db (on_login_attempts f s)) = f (db_login_attempts (ss_db s))"
  "ss_pending (on_login_attempts f s) = ss_pending s"
  by (simp_all add: on_login_attempts_def)

lemma on_login_attempts_db [simp]:
  "(ss_db (on_login_attempts f s))\<lparr>db_login_attempts := t\<rparr> = (ss_db s)\<lparr>db_login_attempts := t\<rparr>"
  by (simp add: on_login_attempts_def)

text \<open>A recorded failure: what it needed, the new row and the staged decision.\<close>

lemma record_failed_login_recorded:
  assumes "record_failed_login env cat g u s = (s1, Inr ''Failed login recorded'')"
  obtains m l t where "role_override ''password_profile.failed_login_max'' (FAILED_LOGIN_MAX g)
        (user_config cat u) = Inr m"
    "role_override ''password_profile.lockout_minutes'' (LOCKOUT_MINUTES g) (user_config cat u) = Inr l"
    "ss_db s1 = (ss_db s)\<lparr>db_login_attempts := t\<rparr>"
    "map_of t = (map_of (db_login_attempts (ss_db s)))(u \<mapsto>
       counted_failure (de_now env) m l (map_of (db_login_attempts (ss_db s)) u))"
    "distinct (map fst (db_login_attempts (ss_db s))) \<Longrightarrow> distinct (map fst t)"
    "stage (de_subid env) (encode_username u)
       (decision_for (lockout_until_of t u) (de_clock env)) (ss_pending s) = (ss_pending s1, Inr ())"
proof -
  let ?reset = "reset_expired_lockout (de_now env) u (db_login_attempts (ss_db s))"
  from assms obtain m l where o:
    "role_override ''password_profile.failed_login_max'' (FAILED_LOGIN_MAX g) (user_config cat u) = Inr m"
    "role_override ''password_profile.lockout_minutes'' (LOCKOUT_MINUTES g) (user_config cat u) = Inr l"
    by (auto simp: record_failed_login_def spi_def split: if_splits sum.splits)
  from assms o obtain t where t: "upsert_failure (de_now env) u m l ?reset = Some t"
    by (auto simp: record_failed_login_def spi_def split: if_splits option.splits)
  have st: "stage_then (stage (de_subid env) (encode_username u)
       (decision_for (lockout_until_of t u) (de_clock env)) (ss_pending s))
       (\<lambda>s. (s, Inr ''Failed login recorded''))
       (on_login_attempts (\<lambda>_. t) (on_login_attempts (reset_expired_lockout (de_now env) u) s))
     = (s1, Inr ''Failed login recorded'')"
    using assms o t by (simp add: record_failed_login_def spi_def decision_from_db_def split: if_splits)
  then have s1: "ss_db s1 = (ss_db s)\<lparr>db_login_attempts := t\<rparr>"
    and stg: "stage (de_subid env) (encode_username u)
       (decision_for (lockout_until_of t u) (de_clock env)) (ss_pending s) = (ss_pending s1, Inr ())"
    by (auto simp: stage_then_def on_login_attempts_def split: prod.splits sum.splits)
  show ?thesis by (rule that [OF o s1 failure_statements [OF t] stg])
qed

lemma record_failed_login_other:
  assumes "record_failed_login env cat g u s = (s1, Inr msg)" and "msg \<noteq> ''Failed login recorded''"
  shows "s1 = s \<and> (\<not> de_database env \<or> user_is_super cat u \<or> user_bypass cat u)"
  using assms
  by (auto simp: record_failed_login_def spi_def decision_from_db_def stage_then_def
      split: if_splits sum.splits option.splits prod.splits)

section \<open>Properties of failed-login bookkeeping\<close>

text \<open>An environment in which every statement succeeds, at the top level of a transaction.\<close>

definition good_env :: "db_env \<Rightarrow> bool" where
  "good_env env \<longleftrightarrow> de_database env \<and> (\<forall>x. de_spi env x) \<and> de_subid env = 1"

definition tracked :: "pg_catalog \<Rightarrow> guc \<Rightarrow> username \<Rightarrow> int \<Rightarrow> int \<Rightarrow> bool" where
  "tracked cat g u m l \<longleftrightarrow> \<not> user_is_super cat u \<and> \<not> user_bypass cat u
     \<and> role_override ''password_profile.failed_login_max'' (FAILED_LOGIN_MAX g) (user_config cat u) = Inr m
     \<and> role_override ''password_profile.lockout_minutes'' (LOCKOUT_MINUTES g) (user_config cat u) = Inr l"

lemma record_failed_login_returns:
  assumes "good_env env" and "tracked cat g u m l" and "ss_pending s = pending_new"
    and "\<forall>r. map_of (db_login_attempts (ss_db s)) u = Some r \<longrightarrow> 0 \<le> la_fail_count r \<and> la_fail_count r < I32_MAX"
  shows "\<exists>s1. record_failed_login env cat g u s = (s1, Inr ''Failed login recorded'')
    \<and> map_of (db_login_attempts (ss_db s1)) = (map_of (db_login_attempts (ss_db s)))(u \<mapsto>
        counted_failure (de_now env) m l (map_of (db_login_attempts (ss_db s)) u))"
proof -
  let ?reset = "reset_expired_lockout (de_now env) u (db_login_attempts (ss_db s))"
  have "\<exists>t. upsert_failure (de_now env) u m l ?reset = Some t"
    using assms(4) by (auto simp: upsert_failure_def reset_expired_lockout_def width_defs split: option.splits)
  then obtain t where t: "upsert_failure (de_now env) u m l ?reset = Some t" by blast
  obtain st where st: "stage 1 (encode_username u) (decision_for (lockout_until_of t u) (de_clock env))
      pending_new = (st, Inr ())"
    using stage_start unfolding stage_def by blast
  have "\<exists>s1. record_failed_login env cat g u s = (s1, Inr ''Failed login recorded'')"
    using assms t st
    by (simp add: record_failed_login_def spi_def decision_from_db_def stage_then_def good_env_def tracked_def)
  then obtain s1 where s1: "record_failed_login env cat g u s = (s1, Inr ''Failed login recorded'')" by blast
  from record_failed_login_recorded [OF s1] obtain m1 l1 t1 where
    "role_override ''password_profile.failed_login_max'' (FAILED_LOGIN_MAX g) (user_config cat u) = Inr m1"
    "role_override ''password_profile.lockout_minutes'' (LOCKOUT_MINUTES g) (user_config cat u) = Inr l1"
    "ss_db s1 = (ss_db s)\<lparr>db_login_attempts := t1\<rparr>"
    "map_of t1 = (map_of (db_login_attempts (ss_db s)))(u \<mapsto>
       counted_failure (de_now env) m1 l1 (map_of (db_login_attempts (ss_db s)) u))" by metis
  then show ?thesis using s1 assms(2) by (simp add: tracked_def)
qed

text \<open>A sequence of failures of one user, each recorded in a transaction of its own.\<close>

fun record_failures :: "pg_catalog \<Rightarrow> guc \<Rightarrow> username \<Rightarrow> db_env list \<Rightarrow> session \<Rightarrow> session option" where
  "record_failures cat g u [] s = Some s"
| "record_failures cat g u (env # envs) s =
     (case record_failed_login env cat g u (s\<lparr>ss_pending := pending_new\<rparr>) of
        (s1, Inr _) \<Rightarrow> record_failures cat g u envs s1
      | (s1, Inl _) \<Rightarrow> None)"

definition failure_row :: "int \<Rightarrow> int \<Rightarrow> nat \<Rightarrow> timestamp \<Rightarrow> LoginAttempt option" where
  "failure_row m l n now =
     (if n = 0 then None
      else Some \<lparr>la_fail_count = int n, la_last_fail = now, la_lockout_until =
        (if int n = max 2 m then Some (now + l * MICROS_PER_MINUTE) else None)\<rparr>)"

lemma counted_failure_row:
  assumes "int (Suc n) \<le> max 2 m"
  shows "Some (counted_failure now m l (failure_row m l n old)) = failure_row m l (Suc n) now"
  using assms by (cases n) (auto simp: counted_failure_def failure_row_def)

lemma record_failures_row:
  assumes "\<forall>env \<in> set envs. good_env env" and "tracked cat g u m l" and "m \<le> I32_MAX"
    and "int (n + length envs) \<le> max 2 m"
    and "map_of (db_login_attempts (ss_db s)) u = failure_row m l n now"
  shows "\<exists>s1. record_failures cat g u envs s = Some s1
    \<and> map_of (db_login_attempts (ss_db s1)) u =
        failure_row m l (n + length envs) (if envs = [] then now else de_now (last envs))
    \<and> (\<forall>v. v \<noteq> u \<longrightarrow> map_of (db_login_attempts (ss_db s1)) v = map_of (db_login_attempts (ss_db s)) v)"
  using assms
proof (induction envs arbitrary: s n now)
  case (Cons env envs)
  let ?s = "s\<lparr>ss_pending := pending_new\<rparr>"
  have cnt: "\<forall>r. map_of (db_login_attempts (ss_db ?s)) u = Some r \<longrightarrow>
      0 \<le> la_fail_count r \<and> la_fail_count r < I32_MAX"
    using Cons.prems(3-5) by (auto simp: failure_row_def width_defs split: if_splits)
  obtain s1 where s1: "record_failed_login env cat g u ?s = (s1, Inr ''Failed login recorded'')"
    and m1: "map_of (db_login_attempts (ss_db s1)) = (map_of (db_login_attempts (ss_db s)))(u \<mapsto>
        counted_failure (de_now env) m l (map_of (db_login_attempts (ss_db s)) u))"
    using record_failed_login_returns [OF _ Cons.prems(2) _ cnt, of env] Cons.prems(1) by auto
  have "map_of (db_login_attempts (ss_db s1)) u = failure_row m l (Suc n) (de_now env)"
    using m1 Cons.prems(4,5) counted_failure_row [of n m "de_now env" l now] by simp
  from Cons.IH [OF _ Cons.prems(2,3) _ this] Cons.prems(1,4)
  obtain s2 where "record_failures cat g u envs s1 = Some s2"
    "map_of (db_login_attempts (ss_db s2)) u =
       failure_row m l (Suc n + length envs) (if envs = [] then de_now env else de_now (last envs))"
    "\<forall>v. v \<noteq> u \<longrightarrow> map_of (db_login_attempts (ss_db s2)) v = map_of (db_login_attempts (ss_db s1)) v"
    by auto
  then show ?case using s1 m1 by auto
qed simp

text \<open>
  Property C23: a lockout starts at exactly the threshold. For a user that is neither a superuser nor
  exempt and has no row, recording failures in successive transactions succeeds, counts every one of
  them, touches no other user, and sets \<^verbatim>\<open>lockout_until\<close> at the failure whose number is the configured
  maximum and at no earlier one. A configured maximum of one acts as two, because the statement that
  inserts the first failure never sets a lockout.
\<close>

theorem lockout_starts_at_threshold:
  assumes "\<forall>env \<in> set envs. good_env env" and "tracked cat g u m l" and "m \<le> I32_MAX"
    and "envs \<noteq> []" and "int (length envs) \<le> max 2 m"
    and "map_of (db_login_attempts (ss_db s)) u = None"
  shows "\<exists>s1. record_failures cat g u envs s = Some s1
    \<and> map_of (db_login_attempts (ss_db s1)) u = Some \<lparr>la_fail_count = int (length envs),
        la_last_fail = de_now (last envs), la_lockout_until =
          (if int (length envs) = max 2 m then Some (de_now (last envs) + l * MICROS_PER_MINUTE) else None)\<rparr>
    \<and> (\<forall>v. v \<noteq> u \<longrightarrow> map_of (db_login_attempts (ss_db s1)) v = map_of (db_login_attempts (ss_db s)) v)"
  using record_failures_row [OF assms(1-3), of 0 s 0] assms(4-6) by (simp add: failure_row_def)

definition plain_env :: "timestamp \<Rightarrow> db_env" where
  "plain_env now = \<lparr>de_database = True, de_now = now, de_clock = now, de_subid = 1, de_spi = \<lambda>_. True\<rparr>"

definition plain_catalog :: pg_catalog where
  "plain_catalog = \<lparr>ct_user = \<lambda>_. Some \<lparr>us_super = False, us_config = []\<rparr>, ct_role_exists = \<lambda>_. True\<rparr>"

definition fresh_session :: session where
  "fresh_session = \<lparr>ss_db = empty_database, ss_pending = pending_new\<rparr>"

lemma plain_env_good [simp]: "good_env (plain_env now)"
  by (simp add: good_env_def plain_env_def)

lemma plain_catalog_tracked [simp]:
  "tracked plain_catalog g u (FAILED_LOGIN_MAX g) (LOCKOUT_MINUTES g)"
  by (simp add: tracked_def plain_catalog_def user_is_super_def user_bypass_def user_config_def
      role_override_def)

theorem lockout_starts_at_threshold_witness:
  "\<exists>s1. record_failures plain_catalog guc_default [0x61] [plain_env 1, plain_env 2, plain_env 3]
       fresh_session = Some s1
     \<and> lockout_until_of (db_login_attempts (ss_db s1)) [0x61] = Some 120000003"
proof -
  let ?envs = "[plain_env 1, plain_env 2, plain_env 3]"
  have g: "FAILED_LOGIN_MAX guc_default = 3" "LOCKOUT_MINUTES guc_default = 2"
    by (simp_all add: guc_default_def)
  have n: "map_of (db_login_attempts (ss_db fresh_session)) [0x61] = None"
    by (simp add: fresh_session_def empty_database_def)
  have "\<forall>env \<in> set ?envs. good_env env" and "FAILED_LOGIN_MAX guc_default \<le> I32_MAX"
    and "int (length ?envs) \<le> max 2 (FAILED_LOGIN_MAX guc_default)" and "de_now (last ?envs) = 3"
    by (simp_all add: g width_defs) (simp add: plain_env_def)
  from lockout_starts_at_threshold [OF this(1) plain_catalog_tracked this(2) _ this(3) n] this(4)
  obtain s1 where "record_failures plain_catalog guc_default [0x61] ?envs fresh_session = Some s1"
    "map_of (db_login_attempts (ss_db s1)) [0x61] = Some \<lparr>la_fail_count = int (length ?envs),
        la_last_fail = de_now (last ?envs), la_lockout_until =
          (if int (length ?envs) = max 2 (FAILED_LOGIN_MAX guc_default)
           then Some (de_now (last ?envs) + LOCKOUT_MINUTES guc_default * MICROS_PER_MINUTE) else None)\<rparr>"
    by blast
  then show ?thesis
    by (intro exI [of _ s1] conjI)
      (auto simp: lockout_until_of_def MICROS_PER_MINUTE_def MICROS_PER_SEC_def g plain_env_def)
qed

text \<open>A clear that returns: the table it leaves and the decision it staged.\<close>

lemma clear_internal_returns:
  assumes "clear_login_attempts_internal env u force s = (s1, Inr x)"
  shows "ss_db s1 = (ss_db s)\<lparr>db_login_attempts :=
      (if force then AList.delete u (db_login_attempts (ss_db s))
       else fst (conditional_delete (de_now env) u (db_login_attempts (ss_db s))))\<rparr>"
    and "stage (de_subid env) (encode_username u)
      (if force then ClearLock else decision_for (live_lockout (de_now env) (db_login_attempts (ss_db s)) u)
         (de_clock env)) (ss_pending s) = (ss_pending s1, Inr ())"
proof -
  let ?t = "db_login_attempts (ss_db s)"
  have "ss_db s1 = (ss_db s)\<lparr>db_login_attempts := (if force then AList.delete u ?t
       else fst (conditional_delete (de_now env) u ?t))\<rparr>
    \<and> stage (de_subid env) (encode_username u) (if force then ClearLock
        else decision_for (live_lockout (de_now env) ?t u) (de_clock env)) (ss_pending s)
      = (ss_pending s1, Inr ())"
  proof (cases force)
    case True
    then show ?thesis
      using assms by (auto simp: clear_login_attempts_internal_def spi_def stage_then_def
          on_login_attempts_def split: if_splits prod.splits sum.splits)
  next
    case False
    show ?thesis
      by (rule conditional_delete_cases [of ?t u "de_now env"])
        (use assms False in \<open>auto simp: clear_login_attempts_internal_def spi_def stage_then_def
          on_login_attempts_def live_lockout_def lockout_until_of_def Let_def
          split: if_splits prod.splits sum.splits\<close>)
  qed
  then show "ss_db s1 = (ss_db s)\<lparr>db_login_attempts :=
      (if force then AList.delete u (db_login_attempts (ss_db s))
       else fst (conditional_delete (de_now env) u (db_login_attempts (ss_db s))))\<rparr>"
    and "stage (de_subid env) (encode_username u)
      (if force then ClearLock else decision_for (live_lockout (de_now env) (db_login_attempts (ss_db s)) u)
         (de_clock env)) (ss_pending s) = (ss_pending s1, Inr ())" by blast+
qed

lemma conditional_delete_lookup:
  "map_of (fst (conditional_delete now u t)) v =
     (if v = u \<and> live_lockout now t u = None then None else map_of t v)"
  by (rule conditional_delete_cases [of t u now]) (auto simp: live_lockout_def lockout_until_of_def)

text \<open>
  Property C24: the automatic clear after a successful login never lifts an active lockout. Whenever
  it returns, the lockouts active at the transaction's time are the same as before for every user, the
  user's row is gone exactly when it was not locked, all other rows are untouched, and the staged
  cache operation re-asserts the lockout that is still running instead of clearing it.
\<close>

theorem automatic_clear_keeps_lockout:
  assumes "clear_login_attempts_internal env u False s = (s1, Inr x)"
  shows "live_lockout (de_now env) (db_login_attempts (ss_db s1)) v =
      live_lockout (de_now env) (db_login_attempts (ss_db s)) v
    \<and> map_of (db_login_attempts (ss_db s1)) v =
        (if v = u \<and> live_lockout (de_now env) (db_login_attempts (ss_db s)) u = None then None
         else map_of (db_login_attempts (ss_db s)) v)
    \<and> stage (de_subid env) (encode_username u)
        (case live_lockout (de_now env) (db_login_attempts (ss_db s)) u of
           Some until \<Rightarrow> if de_clock env < until then SetLock until else ClearLock
         | None \<Rightarrow> ClearLock) (ss_pending s) = (ss_pending s1, Inr ())"
  using clear_internal_returns [OF assms]
  by (auto simp: conditional_delete_lookup live_lockout_def lockout_until_of_def decision_for_def)

definition locked_session :: session where
  "locked_session = fresh_session\<lparr>ss_db := empty_database\<lparr>db_login_attempts :=
     [([0x61], \<lparr>la_fail_count = 3, la_last_fail = 1, la_lockout_until = Some 50\<rparr>)]\<rparr>\<rparr>"

lemma clear_good_returns:
  assumes "good_env env" and "ss_pending s = pending_new"
  shows "\<exists>s1. clear_login_attempts_internal env u force s = (s1, Inr ())"
proof -
  define st where "st d = fst (stage 1 (encode_username u) d pending_new)" for d
  have st: "stage 1 (encode_username u) d pending_new = (st d, Inr ())" for d
    using stage_start [of "encode_username u" "Some d" ExpiryNone] by (auto simp: stage_def st_def)
  have "\<exists>s1. clear_login_attempts_internal env u False s = (s1, Inr ())"
    by (rule conditional_delete_cases [of "db_login_attempts (ss_db s)" u "de_now env"])
      (use assms st in \<open>auto simp: clear_login_attempts_internal_def spi_def stage_then_def good_env_def Let_def\<close>)
  moreover have "\<exists>s1. clear_login_attempts_internal env u True s = (s1, Inr ())"
    using assms st by (auto simp: clear_login_attempts_internal_def spi_def stage_then_def good_env_def)
  ultimately show ?thesis by (cases force) simp_all
qed

theorem automatic_clear_keeps_lockout_witness:
  "\<exists>s1. clear_login_attempts_internal (plain_env 9) [0x61] False locked_session = (s1, Inr ())
     \<and> live_lockout 9 (db_login_attempts (ss_db s1)) [0x61] = Some 50"
proof -
  obtain s1 where s1: "clear_login_attempts_internal (plain_env 9) [0x61] False locked_session = (s1, Inr ())"
    using clear_good_returns [OF plain_env_good, where u = "[0x61]" and force = False and s = locked_session]
    by (auto simp: fresh_session_def locked_session_def)
  have l: "live_lockout 9 (db_login_attempts (ss_db locked_session)) [0x61] = Some 50"
    by (simp add: locked_session_def empty_database_def live_lockout_def lockout_until_of_def)
  have "de_now (plain_env 9) = 9" by (simp add: plain_env_def)
  from automatic_clear_keeps_lockout [OF s1, of "[0x61]", unfolded this] l s1 show ?thesis by auto
qed

text \<open>One state transition of a user's failed-login state, as a transaction performs it.\<close>

datatype attempt_op = RecordFailure | Clear bool

fun run_attempt :: "attempt_op \<Rightarrow> db_env \<Rightarrow> pg_catalog \<Rightarrow> guc \<Rightarrow> username \<Rightarrow> session \<Rightarrow> session option" where
  "run_attempt RecordFailure env cat g u s =
     (case record_failed_login env cat g u s of (s1, Inr _) \<Rightarrow> Some s1 | (s1, Inl _) \<Rightarrow> None)"
| "run_attempt (Clear force) env cat g u s =
     (case clear_login_attempts_internal env u force s of (s1, Inr _) \<Rightarrow> Some s1 | (s1, Inl _) \<Rightarrow> None)"

text \<open>
  Every transition either does nothing or stages the decision of the row it leaves behind; that is
  what the committed cache needs.
\<close>

lemma run_attempt_stages:
  assumes "run_attempt op env cat g u s = Some s1" and "ss_pending s = pending_new" and "de_subid env = 1"
    and "de_now env \<le> t" and "de_clock env \<le> t"
  obtains
    (nothing) "s1 = s"
  | (staged) d where "stage_inner 1 (encode_username u) (Some d) ExpiryNone pending_new = (ss_pending s1, Inr ())"
      "staged_lock t (Some (Some d, ExpiryNone)) old = live_lockout t (db_login_attempts (ss_db s1)) u"
      "\<And>y. d = SetLock y \<Longrightarrow> lockout_until_of (db_login_attempts (ss_db s1)) u = Some y"
      "\<And>v. v \<noteq> u \<Longrightarrow> live_lockout t (db_login_attempts (ss_db s1)) v = live_lockout t (db_login_attempts (ss_db s)) v"
proof (cases op)
  case RecordFailure
  then obtain msg where r: "record_failed_login env cat g u s = (s1, Inr msg)"
    using assms(1) by (auto split: prod.splits sum.splits)
  show ?thesis
  proof (cases "msg = ''Failed login recorded''")
    case True
    from record_failed_login_recorded [OF r [unfolded True]] obtain m l tab where
      db: "ss_db s1 = (ss_db s)\<lparr>db_login_attempts := tab\<rparr>"
      and row: "map_of tab = (map_of (db_login_attempts (ss_db s)))(u \<mapsto>
         counted_failure (de_now env) m l (map_of (db_login_attempts (ss_db s)) u))"
      and st: "stage (de_subid env) (encode_username u) (decision_for (lockout_until_of tab u) (de_clock env))
        (ss_pending s) = (ss_pending s1, Inr ())" by metis
    show ?thesis
      by (rule staged [of "decision_for (lockout_until_of tab u) (de_clock env)"])
        (use st assms(2,3,5) db row in \<open>auto simp: stage_def staged_lock_def decision_for_def live_lockout_def
          lockout_until_of_def split: option.splits if_splits\<close>)
  next
    case False
    show ?thesis by (rule nothing) (use record_failed_login_other [OF r False] in simp)
  qed
next
  case (Clear force)
  then have r: "clear_login_attempts_internal env u force s = (s1, Inr ())"
    using assms(1) by (auto split: prod.splits sum.splits)
  note c = clear_internal_returns [OF r]
  let ?d = "if force then ClearLock else decision_for (live_lockout (de_now env)
      (db_login_attempts (ss_db s)) u) (de_clock env)"
  show ?thesis
  proof (rule staged [of ?d])
    show "stage_inner 1 (encode_username u) (Some ?d) ExpiryNone pending_new = (ss_pending s1, Inr ())"
      using c(2) assms(2,3) by (simp add: stage_def)
    show "staged_lock t (Some (Some ?d, ExpiryNone)) old = live_lockout t (db_login_attempts (ss_db s1)) u"
      using c(1) assms(4,5) by (auto simp: staged_lock_def decision_for_def live_lockout_def lockout_until_of_def
          conditional_delete_lookup bind_eq_Some_conv split: option.splits if_splits)
    show "lockout_until_of (db_login_attempts (ss_db s1)) u = Some y" if "?d = SetLock y" for y
      using that c(1) by (auto simp: decision_for_def live_lockout_def lockout_until_of_def
          conditional_delete_lookup bind_eq_Some_conv split: option.splits if_splits)
    show "live_lockout t (db_login_attempts (ss_db s1)) v = live_lockout t (db_login_attempts (ss_db s)) v"
      if "v \<noteq> u" for v
      using that c(1) by (simp add: live_lockout_def lockout_until_of_def conditional_delete_lookup)
  qed
qed

lemma commit_nothing:
  assumes "caches_inv s" and "\<forall>i. clock i \<le> t" and "xact_callback clock XactCommit (pending_new, s) = Inr (st1, s1)"
  shows "lock_state (sh_lock s1) = Overflow \<or> lock_opt_view t (sh_lock s1) v = lock_opt_view t (sh_lock s) v"
proof -
  have "run_steps txn_step [] txn_start = Some txn_start" "pending_new = tx_pending txn_start"
    by (simp_all add: txn_start_def)
  moreover have "run_steps spec_step [] [Map.empty] = Some [Map.empty]" by simp
  moreover have "staged_ok clock t Map.empty" using assms(2) by (simp add: staged_ok_def)
  ultimately show ?thesis
    using commit_final [of "[]" txn_start Map.empty s clock t st1 s1 v] assms(1,3)
    by (simp add: staged_lock_def)
qed

text \<open>
  Property C22: the committed cache agrees with the committed table. If the lock cache shows for every
  role exactly the lockout that is active in \<^verbatim>\<open>login_attempts\<close>, then so it does after a transaction that
  recorded a failure or cleared a user, automatically or by an administrator, and committed; otherwise
  the cache is marked \<open>Overflow\<close>. The commit has to happen before the lockout it installs ends.
\<close>

theorem committed_cache_matches_table:
  assumes "lock_coherent t (db_login_attempts (ss_db s)) (sh_lock sh)" and "caches_inv sh"
    and "ss_pending s = pending_new" and "de_subid env = 1" and "representable u"
    and "run_attempt op env cat g u s = Some s1"
    and "de_now env \<le> t" and "de_clock env \<le> t" and "\<forall>i. clock i \<le> t"
    and "\<forall>x i. lockout_until_of (db_login_attempts (ss_db s1)) u = Some x \<longrightarrow> clock i < x"
    and "xact_callback clock XactCommit (ss_pending s1, sh) = Inr (st, sh1)"
  shows "lock_state (sh_lock sh1) = Overflow
    \<or> lock_coherent t (db_login_attempts (ss_db s1)) (sh_lock sh1)"
proof (rule run_attempt_stages [OF assms(6,3,4,7,8),
      where old = "lock_opt_view t (sh_lock sh) (encode_username u)"], goal_cases)
  case 1
  then show ?case
    using commit_nothing [OF assms(2,9)] assms(1,3,11) unfolding lock_coherent_def by metis
next
  case (2 d)
  note c = commit_one(2) [OF 2(1) assms(2) encode_used [OF assms(5)] assms(9) _ assms(11)]
  have ok: "\<forall>y. Some d = Some (SetLock y) \<longrightarrow> (\<forall>i. clock i < y)" using 2(3) assms(10) by blast
  have "lock_opt_view t (sh_lock sh1) (encode_username v) = live_lockout t (db_login_attempts (ss_db s1)) v"
    if "representable v" and "lock_state (sh_lock sh1) \<noteq> Overflow" for v
  proof (cases "v = u")
    case True
    with c [OF ok, of "encode_username u"] that 2(2) show ?thesis by (auto simp: staged_lock_def)
  next
    case False
    then have "encode_username v \<noteq> encode_username u"
      using encode_username_inj [OF that(1) assms(5)] by blast
    with c [OF ok, of "encode_username v"] that 2(4) [OF False] assms(1) show ?thesis
      by (simp add: lock_coherent_def)
  qed
  then show ?case unfolding lock_coherent_def by blast
qed

theorem committed_cache_matches_table_witness:
  "\<exists>s1 st sh1. run_attempt (Clear False) (plain_env 9) plain_catalog guc_default [0x61] fresh_session = Some s1
     \<and> xact_callback (\<lambda>_. 9) XactCommit (ss_pending s1, fresh_shm) = Inr (st, sh1)
     \<and> (lock_state (sh_lock sh1) = Overflow
        \<or> lock_coherent 10 (db_login_attempts (ss_db s1)) (sh_lock sh1))"
proof -
  have p: "ss_pending fresh_session = pending_new" by (simp add: fresh_session_def)
  obtain s1 where c: "clear_login_attempts_internal (plain_env 9) [0x61] False fresh_session = (s1, Inr ())"
    using clear_good_returns [OF plain_env_good p] by blast
  then have s1: "run_attempt (Clear False) (plain_env 9) plain_catalog guc_default [0x61] fresh_session = Some s1"
    by simp
  obtain st sh1 where x: "xact_callback (\<lambda>_. 9) XactCommit (ss_pending s1, fresh_shm) = Inr (st, sh1)"
    by (simp add: Let_def)
  have coh: "lock_coherent 10 (db_login_attempts (ss_db fresh_session)) (sh_lock fresh_shm)"
    by (simp add: lock_coherent_def fresh_session_def empty_database_def fresh_shm_def live_lockout_def
        lockout_until_of_def lock_opt_view_def lock_cache_new_view)
  have rep: "representable [0x61]" by (simp add: representable_def LOCK_USERNAME_BYTES_def)
  have none: "lockout_until_of (db_login_attempts (ss_db s1)) [0x61] = None"
    using clear_internal_returns(1) [OF c]
    by (simp add: fresh_session_def empty_database_def conditional_delete_def lockout_until_of_def)
  have "de_subid (plain_env 9) = 1" "de_now (plain_env 9) \<le> 10" "de_clock (plain_env 9) \<le> 10"
    by (simp_all add: plain_env_def)
  from committed_cache_matches_table [OF coh fresh_shm_inv p this(1) rep s1 this(2,3) _ _ x] none s1 x
  show ?thesis by auto
qed



end
