(* ===== verification/Password_State.thy ===== *)
theory Password_State
  imports Login_Attempts "HOL-Library.List_Lexorder"
begin

text \<open>
  Password history and expiry of \<^verbatim>\<open>lib.rs\<close>: recording a password change, persisting a grace login,
  reporting, and moving or removing the state of a role. The hash functions are third-party code and
  PostgreSQL's calendar arithmetic depends on the time zone; both are fields of \<open>pg_ext\<close>.
\<close>

section \<open>Operations\<close>

record pg_ext =
  px_ts_valid :: "timestamp \<Rightarrow> bool"
  px_add_days :: "timestamp \<Rightarrow> int \<Rightarrow> timestamp"
  px_verify :: "rust_str \<Rightarrow> rust_str \<Rightarrow> bool option"
  px_hash :: "rust_str \<Rightarrow> int \<Rightarrow> rust_str option"
  px_md5 :: "rust_str \<Rightarrow> rust_str"

definition is_ascii_hexdigit :: "byte \<Rightarrow> bool" where
  "is_ascii_hexdigit b \<longleftrightarrow> 0x30 \<le> b \<and> b \<le> 0x39 \<or> 0x41 \<le> b \<and> b \<le> 0x46 \<or> 0x61 \<le> b \<and> b \<le> 0x66"

definition stored_hash_matches :: "pg_ext \<Rightarrow> rust_str \<Rightarrow> rust_str \<Rightarrow> bool" where
  "stored_hash_matches px password stored \<longleftrightarrow>
     px_verify px password stored = Some True
     \<or> length stored = 32 \<and> list_all is_ascii_hexdigit stored \<and> stored = px_md5 px password"

definition password_history_recording_enabled :: "guc \<Rightarrow> bool" where
  "password_history_recording_enabled g \<longleftrightarrow> 0 < PASSWORD_HISTORY_COUNT g \<or> 0 < PASSWORD_REUSE_DAYS g"

text \<open>\<^verbatim>\<open>ORDER BY changed_at DESC, id DESC LIMIT 1\<close>\<close>

definition newer_row :: "HistoryRow \<Rightarrow> HistoryRow \<Rightarrow> HistoryRow" where
  "newer_row a b =
     (if hr_changed_at a < hr_changed_at b \<or> hr_changed_at a = hr_changed_at b \<and> hr_id a < hr_id b
      then b else a)"

definition latest_hash :: "username \<Rightarrow> HistoryRow list \<Rightarrow> rust_str option" where
  "latest_hash u hs =
     (case filter (\<lambda>h. hr_username h = u) hs of
        [] \<Rightarrow> None
      | h # t \<Rightarrow> Some (hr_password_hash (foldl newer_row h t)))"

definition insert_history :: "timestamp \<Rightarrow> username \<Rightarrow> rust_str \<Rightarrow> database \<Rightarrow> database" where
  "insert_history now u pwd_hash d =
     d\<lparr>db_password_history := db_password_history d @
         [\<lparr>hr_id = db_history_next_id d, hr_username = u, hr_password_hash = pwd_hash, hr_changed_at = now\<rparr>],
       db_history_next_id := db_history_next_id d + 1\<rparr>"

text \<open>The first half of \<^verbatim>\<open>record_password_change_internal\<close>: the history row, unless it is there already.\<close>

definition record_history :: "db_env \<Rightarrow> pg_ext \<Rightarrow> guc \<Rightarrow> username \<Rightarrow> rust_str \<Rightarrow> session \<Rightarrow> bool db_result" where
  "record_history env px g username password s =
     (if \<not> password_history_recording_enabled g then (s, Inr False)
      else spi env ''select latest hash'' (\<lambda>s.
        let already_recorded = (case latest_hash username (db_password_history (ss_db s)) of
              None \<Rightarrow> False | Some stored \<Rightarrow> stored_hash_matches px password stored)
        in if already_recorded then (s, Inr False)
           else case px_hash px password (max 4 (min 31 (BCRYPT_COST g))) of
                  None \<Rightarrow> (s, Inl (DbError ''Failed to hash password''))
                | Some pwd_hash \<Rightarrow> spi env ''insert history'' (\<lambda>s.
                    (s\<lparr>ss_db := insert_history (de_now env) username pwd_hash (ss_db s)\<rparr>, Inr True)) s) s)"

text \<open>
  The generation of a password: \<^verbatim>\<open>GREATEST(clock_timestamp(), previous last_changed + 1 microsecond)\<close>,
  where no previous value counts as minus infinity.
\<close>

definition next_generation :: "timestamp \<Rightarrow> ExpiryRow option \<Rightarrow> timestamp" where
  "next_generation clock row =
     (case Option.bind row er_last_changed of None \<Rightarrow> clock | Some lc \<Rightarrow> max clock (lc + 1))"

definition on_password_expiry ::
  "((username \<times> ExpiryRow) list \<Rightarrow> (username \<times> ExpiryRow) list) \<Rightarrow> session \<Rightarrow> session" where
  "on_password_expiry f s =
     s\<lparr>ss_db := (ss_db s)\<lparr>db_password_expiry := f (db_password_expiry (ss_db s))\<rparr>\<rparr>"

definition record_expiry :: "db_env \<Rightarrow> pg_ext \<Rightarrow> guc \<Rightarrow> username \<Rightarrow> session \<Rightarrow> unit db_result" where
  "record_expiry env px g username s =
     (let expiry_days = PASSWORD_EXPIRY_DAYS g; encoded = encode_username username
      in if 0 < expiry_days
         then spi env ''upsert expiry'' (\<lambda>s.
           let gen = next_generation (de_clock env) (map_of (db_password_expiry (ss_db s)) username);
               must = px_add_days px gen expiry_days;
               grace = PASSWORD_GRACE_LOGINS g;
               row = \<lparr>er_last_changed = Some gen, er_must_change_by = Some must,
                 er_grace_logins_remaining = Some grace\<rparr>
           in stage_then (stage_expiry (de_subid env) encoded (ExpirySet must gen grace) (ss_pending s))
                (\<lambda>s. (s, Inr ())) (on_password_expiry (AList.update username row) s)) s
         else spi env ''delete expiry'' (\<lambda>s.
           stage_then (stage_expiry (de_subid env) encoded ExpiryClear (ss_pending s))
             (\<lambda>s. (s, Inr ())) (on_password_expiry (AList.delete username) s)) s)"

definition record_password_change_internal ::
  "db_env \<Rightarrow> pg_ext \<Rightarrow> guc \<Rightarrow> username \<Rightarrow> rust_str \<Rightarrow> session \<Rightarrow> bool db_result" where
  "record_password_change_internal env px g username password s =
     spi env ''lock password history'' (\<lambda>s.
       case record_history env px g username password s of
         (s1, Inl e) \<Rightarrow> (s1, Inl e)
       | (s1, Inr inserted) \<Rightarrow>
           (case record_expiry env px g username s1 of
              (s2, Inl e) \<Rightarrow> (s2, Inl e)
            | (s2, Inr _) \<Rightarrow> (s2, Inr inserted))) s"

definition record_password_change ::
  "db_env \<Rightarrow> pg_ext \<Rightarrow> guc \<Rightarrow> username \<Rightarrow> rust_str \<Rightarrow> session \<Rightarrow> string db_result" where
  "record_password_change env px g username new_password s =
     (case record_password_change_internal env px g username new_password s of
        (s1, Inl e) \<Rightarrow> (s1, Inl e)
      | (s1, Inr True) \<Rightarrow> (s1, Inr ''Password change recorded'')
      | (s1, Inr False) \<Rightarrow> (s1, Inr ''Password already recorded; expiry metadata refreshed''))"

text \<open>\<^verbatim>\<open>spi_run_expect_one_row\<close>: the conditional decrement and the number of rows it changed.\<close>

definition grace_decrement :: "username \<Rightarrow> timestamp \<Rightarrow> (username \<times> ExpiryRow) list
    \<Rightarrow> (username \<times> ExpiryRow) list \<times> nat" where
  "grace_decrement u generation t =
     (case map_of t u of
        None \<Rightarrow> (t, 0)
      | Some r \<Rightarrow>
          (case er_grace_logins_remaining r of
             Some n \<Rightarrow>
               if er_last_changed r = Some generation \<and> 0 < n
               then (AList.update u (r\<lparr>er_grace_logins_remaining := Some (n - 1)\<rparr>) t, 1) else (t, 0)
           | None \<Rightarrow> (t, 0)))"

definition persist_grace_consumption ::
  "db_env \<Rightarrow> pg_ext \<Rightarrow> username \<Rightarrow> timestamp \<Rightarrow> session \<Rightarrow> unit db_result" where
  "persist_grace_consumption env px username generation s =
     spi env ''lock password history'' (\<lambda>s.
       if \<not> px_ts_valid px generation then (s, Inl (DbError ''invalid password generation''))
       else spi env ''select grace'' (\<lambda>s.
         let current = (case map_of (db_password_expiry (ss_db s)) username of
               None \<Rightarrow> None
             | Some r \<Rightarrow> if er_last_changed r \<noteq> Some generation then Some (-1)
                         else er_grace_logins_remaining r)
         in case current of
              None \<Rightarrow> (s, Inr ())
            | Some remaining \<Rightarrow>
                if remaining = -1 then (s, Inr ())
                else if 0 < remaining
                then spi env ''decrement grace'' (\<lambda>s.
                  let (t, updated) = grace_decrement username generation (db_password_expiry (ss_db s));
                      s1 = on_password_expiry (\<lambda>_. t) s
                  in if updated = 1 then (s1, Inr ())
                     else (s1, Inl (DbError ''grace decrement affected an unexpected number of rows''))) s
                else (s, Inl (DbError ''grace login was admitted but the authoritative row has none left''))) s) s"

datatype expiry_report = ExpiryDisabled | NoExpiryRecord | PasswordValid | ExpiredGraceLeft int | ExpiredNoneLeft

definition check_password_expiry :: "db_env \<Rightarrow> guc \<Rightarrow> username \<Rightarrow> database \<Rightarrow> db_error + expiry_report" where
  "check_password_expiry env g username d =
     (if PASSWORD_EXPIRY_DAYS g = 0 then Inr ExpiryDisabled
      else if \<not> de_spi env ''select expiry'' then Inl (SpiError ''select expiry'')
      else let row = map_of (db_password_expiry d) username
           in case Option.bind row er_must_change_by of
                None \<Rightarrow> Inr NoExpiryRecord
              | Some must \<Rightarrow>
                  if \<not> must < de_now env then Inr PasswordValid
                  else case Option.bind row er_grace_logins_remaining of
                         Some grace \<Rightarrow> if 0 < grace then Inr (ExpiredGraceLeft grace) else Inr ExpiredNoneLeft
                       | None \<Rightarrow> Inr ExpiredNoneLeft)"

section \<open>Moving the state of a role\<close>

definition row_decision :: "ExpiryRow option \<Rightarrow> PendingExpiry" where
  "row_decision row =
     (case (Option.bind row er_must_change_by, Option.bind row er_last_changed,
            Option.bind row er_grace_logins_remaining) of
        (Some must, Some gen, Some grace) \<Rightarrow> ExpirySet must gen grace
      | _ \<Rightarrow> ExpiryClear)"

definition expiry_decision_from_db :: "db_env \<Rightarrow> username \<Rightarrow> session \<Rightarrow> PendingExpiry db_result" where
  "expiry_decision_from_db env username s =
     spi env ''select expiry row'' (\<lambda>s. (s, Inr (row_decision (map_of (db_password_expiry (ss_db s)) username)))) s"

text \<open>
  The names in ascending order; first the failed-login lock of every name, then the history lock of
  every name. Each acquisition is a statement that may raise.
\<close>

definition role_state_lock_order :: "username \<Rightarrow> username option \<Rightarrow> username list" where
  "role_state_lock_order first second =
     sort (case second of Some name \<Rightarrow> if name \<noteq> first then [first, name] else [first] | None \<Rightarrow> [first])"

definition lock_role_state_names :: "db_env \<Rightarrow> username \<Rightarrow> username option \<Rightarrow> (session \<Rightarrow> 'a db_result)
    \<Rightarrow> session \<Rightarrow> 'a db_result" where
  "lock_role_state_names env first second rest s =
     (let names = role_state_lock_order first second
      in foldr (\<lambda>name. spi env ''lock login attempts'') names
           (foldr (\<lambda>name. spi env ''lock password history'') names rest) s)"

definition rename_key :: "'k \<Rightarrow> 'k \<Rightarrow> ('k \<times> 'v) list \<Rightarrow> ('k \<times> 'v) list" where
  "rename_key old new t = map (\<lambda>(k, v). (if k = old then new else k, v)) t"

definition rename_history :: "username \<Rightarrow> username \<Rightarrow> HistoryRow list \<Rightarrow> HistoryRow list" where
  "rename_history old new hs = map (\<lambda>h. if hr_username h = old then h\<lparr>hr_username := new\<rparr> else h) hs"

definition has_role_state :: "username \<Rightarrow> database \<Rightarrow> bool" where
  "has_role_state u d \<longleftrightarrow> map_of (db_login_attempts d) u \<noteq> None
     \<or> list_ex (\<lambda>h. hr_username h = u) (db_password_history d) \<or> map_of (db_password_expiry d) u \<noteq> None"

definition rename_role_state ::
  "db_env \<Rightarrow> pg_catalog \<Rightarrow> bool \<Rightarrow> bool \<Rightarrow> username \<Rightarrow> username \<Rightarrow> session \<Rightarrow> string db_result" where
  "rename_role_state env cat control superuser old new s =
     (if \<not> control then (s, Inl (DbError ''must be connected to the control database''))
      else if \<not> superuser then (s, Inl (DbError ''permission denied''))
      else if old = [] \<or> new = [] then (s, Inl (DbError ''role names must not be empty''))
      else if old = new then (s, Inr ''Role state unchanged'')
      else spi env ''select roles'' (\<lambda>s.
        if ct_role_exists cat old \<or> \<not> ct_role_exists cat new
        then (s, Inl (DbError ''rename the PostgreSQL role first''))
        else lock_role_state_names env old (Some new) (spi env ''select target state'' (\<lambda>s.
          if has_role_state new (ss_db s) then (s, Inl (DbError ''target role name already has state''))
          else spi env ''update usernames'' (\<lambda>s.
            let s1 = s\<lparr>ss_db := (ss_db s)\<lparr>db_login_attempts := rename_key old new (db_login_attempts (ss_db s)),
                  db_password_history := rename_history old new (db_password_history (ss_db s)),
                  db_password_expiry := rename_key old new (db_password_expiry (ss_db s))\<rparr>\<rparr>
            in case decision_from_db env new s1 of
                 (s2, Inl e) \<Rightarrow> (s2, Inl e)
               | (s2, Inr new_lock) \<Rightarrow>
                   (case expiry_decision_from_db env new s2 of
                      (s3, Inl e) \<Rightarrow> (s3, Inl e)
                    | (s3, Inr new_expiry) \<Rightarrow>
                        stage_then (stage_combined (de_subid env) (encode_username old) ClearLock ExpiryClear
                          (ss_pending s3)) (\<lambda>s.
                        stage_then (stage_combined (de_subid env) (encode_username new) new_lock new_expiry
                          (ss_pending s)) (\<lambda>s. (s, Inr ''Role state renamed'')) s) s3)) s)) s) s)"

definition remove_role_state ::
  "db_env \<Rightarrow> pg_catalog \<Rightarrow> bool \<Rightarrow> bool \<Rightarrow> username \<Rightarrow> session \<Rightarrow> string db_result" where
  "remove_role_state env cat control superuser username s =
     (if \<not> control then (s, Inl (DbError ''must be connected to the control database''))
      else if \<not> superuser then (s, Inl (DbError ''permission denied''))
      else if username = [] then (s, Inl (DbError ''role name must not be empty''))
      else spi env ''select roles'' (\<lambda>s.
        if ct_role_exists cat username then (s, Inl (DbError ''drop the PostgreSQL role first''))
        else lock_role_state_names env username None (spi env ''delete role state'' (\<lambda>s.
          stage_then (stage_combined (de_subid env) (encode_username username) ClearLock ExpiryClear (ss_pending s))
            (\<lambda>s. (s, Inr ''Role state removed''))
            (s\<lparr>ss_db := (ss_db s)\<lparr>db_login_attempts := AList.delete username (db_login_attempts (ss_db s)),
               db_password_history := filter (\<lambda>h. hr_username h \<noteq> username) (db_password_history (ss_db s)),
               db_password_expiry := AList.delete username (db_password_expiry (ss_db s))\<rparr>\<rparr>))) s) s)"

section \<open>The blacklist\<close>

definition blacklist_contains :: "db_env \<Rightarrow> rust_str \<Rightarrow> database \<Rightarrow> db_error + bool" where
  "blacklist_contains env password d =
     (if de_spi env ''select blacklist'' then Inr (map_of (db_blacklist d) password \<noteq> None)
      else Inl (SpiError ''select blacklist''))"

definition add_to_blacklist :: "db_env \<Rightarrow> rust_str \<Rightarrow> rust_str option \<Rightarrow> session \<Rightarrow> string db_result" where
  "add_to_blacklist env password reason s =
     spi env ''insert blacklist'' (\<lambda>s.
       (s\<lparr>ss_db := (ss_db s)\<lparr>db_blacklist :=
            (if map_of (db_blacklist (ss_db s)) password \<noteq> None then db_blacklist (ss_db s)
             else AList.update password \<lparr>bl_added_at = de_now env,
               bl_reason = (case reason of Some r \<Rightarrow> r | None \<Rightarrow> map of_char ''Admin added'')\<rparr>
               (db_blacklist (ss_db s)))\<rparr>\<rparr>, Inr ''Added to blacklist'')) s"

definition remove_from_blacklist :: "db_env \<Rightarrow> rust_str \<Rightarrow> session \<Rightarrow> string db_result" where
  "remove_from_blacklist env password s =
     spi env ''delete blacklist'' (\<lambda>s.
       (s\<lparr>ss_db := (ss_db s)\<lparr>db_blacklist := AList.delete password (db_blacklist (ss_db s))\<rparr>\<rparr>,
        Inr ''Removed from blacklist'')) s"

section \<open>Lemmas\<close>

lemma on_password_expiry_simps [simp]:
  "db_password_expiry (ss_db (on_password_expiry f s)) = f (db_password_expiry (ss_db s))"
  "db_login_attempts (ss_db (on_password_expiry f s)) = db_login_attempts (ss_db s)"
  "db_password_history (ss_db (on_password_expiry f s)) = db_password_history (ss_db s)"
  "ss_pending (on_password_expiry f s) = ss_pending s"
  by (simp_all add: on_password_expiry_def)

lemma insert_history_simps [simp]:
  "db_password_expiry (insert_history now u h d) = db_password_expiry d"
  "db_login_attempts (insert_history now u h d) = db_login_attempts d"
  by (simp_all add: insert_history_def)

lemma record_history_returns:
  assumes "record_history env px g u pw s = (s1, Inr ins)"
  shows "ss_pending s1 = ss_pending s"
    and "if ins then \<exists>h. px_hash px pw (max 4 (min 31 (BCRYPT_COST g))) = Some h
           \<and> ss_db s1 = insert_history (de_now env) u h (ss_db s)
         else s1 = s"
  using assms by (auto simp: record_history_def spi_def Let_def split: if_splits option.splits)

definition changed_row :: "db_env \<Rightarrow> pg_ext \<Rightarrow> guc \<Rightarrow> ExpiryRow option \<Rightarrow> ExpiryRow option" where
  "changed_row env px g row =
     (if 0 < PASSWORD_EXPIRY_DAYS g
      then Some \<lparr>er_last_changed = Some (next_generation (de_clock env) row),
        er_must_change_by = Some (px_add_days px (next_generation (de_clock env) row) (PASSWORD_EXPIRY_DAYS g)),
        er_grace_logins_remaining = Some (PASSWORD_GRACE_LOGINS g)\<rparr>
      else None)"

lemma record_expiry_returns:
  assumes "record_expiry env px g u s = (s1, Inr x)"
  shows "map_of (db_password_expiry (ss_db s1)) =
      (map_of (db_password_expiry (ss_db s)))(u := changed_row env px g (map_of (db_password_expiry (ss_db s)) u))"
    and "db_password_history (ss_db s1) = db_password_history (ss_db s)"
    and "stage_inner (de_subid env) (encode_username u) None
      (row_decision (changed_row env px g (map_of (db_password_expiry (ss_db s)) u))) (ss_pending s)
      = (ss_pending s1, Inr ())"
proof -
  have "map_of (db_password_expiry (ss_db s1)) =
      (map_of (db_password_expiry (ss_db s)))(u := changed_row env px g (map_of (db_password_expiry (ss_db s)) u))
    \<and> db_password_history (ss_db s1) = db_password_history (ss_db s)
    \<and> stage_inner (de_subid env) (encode_username u) None
      (row_decision (changed_row env px g (map_of (db_password_expiry (ss_db s)) u))) (ss_pending s)
      = (ss_pending s1, Inr ())"
    using assms
    by (cases "0 < PASSWORD_EXPIRY_DAYS g")
      (auto simp: record_expiry_def spi_def stage_then_def stage_expiry_def changed_row_def row_decision_def Let_def
        split: if_splits prod.splits sum.splits)
  then show "map_of (db_password_expiry (ss_db s1)) =
      (map_of (db_password_expiry (ss_db s)))(u := changed_row env px g (map_of (db_password_expiry (ss_db s)) u))"
    and "db_password_history (ss_db s1) = db_password_history (ss_db s)"
    and "stage_inner (de_subid env) (encode_username u) None
      (row_decision (changed_row env px g (map_of (db_password_expiry (ss_db s)) u))) (ss_pending s)
      = (ss_pending s1, Inr ())" by blast+
qed

lemma record_password_change_returns:
  assumes "record_password_change_internal env px g u pw s = (s2, Inr ins)"
  obtains s1 where "record_history env px g u pw s = (s1, Inr ins)" "record_expiry env px g u s1 = (s2, Inr ())"
    "db_password_expiry (ss_db s1) = db_password_expiry (ss_db s)" "ss_pending s1 = ss_pending s"
proof -
  obtain s1 where h: "record_history env px g u pw s = (s1, Inr ins)" "record_expiry env px g u s1 = (s2, Inr ())"
    using assms by (auto simp: record_password_change_internal_def spi_def split: if_splits prod.splits sum.splits)
  have "db_password_expiry (ss_db s1) = db_password_expiry (ss_db s)"
    using record_history_returns(2) [OF h(1)] by (auto split: if_splits)
  then show ?thesis using that h record_history_returns(1) [OF h(1)] by blast
qed

lemma next_generation_larger: "Option.bind row er_last_changed = Some old \<Longrightarrow> old < next_generation clock row"
  by (simp add: next_generation_def)

section \<open>Properties of password state\<close>

text \<open>
  Property C27: a grace event of an earlier password never costs the new one a grace login. A password
  change writes a generation strictly larger than the previous one, whatever the clock says, and resets
  the grace logins; persisting a grace login that carries a smaller generation then leaves the
  database as it is, and when its statements succeed it is acknowledged as stale.
\<close>

theorem stale_grace_event_is_ignored:
  assumes "record_password_change_internal env px g u pw s = (s1, Inr ins)" and "0 < PASSWORD_EXPIRY_DAYS g"
    and "Option.bind (map_of (db_password_expiry (ss_db s)) u) er_last_changed = Some old_gen"
    and "gen \<le> old_gen" and "ss_db t = ss_db s1" and "persist_grace_consumption env2 px u gen t = (s2, res)"
  shows "(\<exists>new_gen. Option.bind (map_of (db_password_expiry (ss_db s1)) u) er_last_changed = Some new_gen
        \<and> old_gen < new_gen)
    \<and> Option.bind (map_of (db_password_expiry (ss_db s1)) u) er_grace_logins_remaining = Some (PASSWORD_GRACE_LOGINS g)
    \<and> s2 = t \<and> (good_env env2 \<and> px_ts_valid px gen \<longrightarrow> res = Inr ())"
proof -
  obtain s0 where "record_expiry env px g u s0 = (s1, Inr ())"
    and e: "db_password_expiry (ss_db s0) = db_password_expiry (ss_db s)"
    using record_password_change_returns [OF assms(1)] by metis
  then have row: "map_of (db_password_expiry (ss_db s1)) u = changed_row env px g (map_of (db_password_expiry (ss_db s)) u)"
    using record_expiry_returns(1) by simp
  let ?new = "next_generation (de_clock env) (map_of (db_password_expiry (ss_db s)) u)"
  have lt: "old_gen < ?new" by (rule next_generation_larger [OF assms(3)])
  then have ne: "?new \<noteq> gen" using assms(4) by simp
  have "s2 = t \<and> (good_env env2 \<and> px_ts_valid px gen \<longrightarrow> res = Inr ())"
    using assms(2,5,6) row ne
    by (auto simp: persist_grace_consumption_def spi_def changed_row_def good_env_def Let_def split: if_splits)
  then show ?thesis using row lt assms(2) by (simp add: changed_row_def)
qed

text \<open>The newest row of a user is the one just inserted, when no row carries a later time.\<close>

lemma foldl_newer_member: "foldl newer_row h t \<in> set (h # t)"
  by (induction t arbitrary: h) (auto simp: newer_row_def)

lemma latest_inserted:
  assumes "db_ok d" and "\<forall>h \<in> set (db_password_history d). hr_username h = u \<longrightarrow> hr_changed_at h \<le> now"
  shows "latest_hash u (db_password_history (insert_history now u pwd_hash d)) = Some pwd_hash"
proof -
  let ?r = "\<lparr>hr_id = db_history_next_id d, hr_username = u, hr_password_hash = pwd_hash, hr_changed_at = now\<rparr>"
  let ?f = "filter (\<lambda>h. hr_username h = u) (db_password_history d)"
  have win: "newer_row h ?r = ?r" if "h \<in> set (db_password_history d)" "hr_username h = u" for h
    using assms that by (auto simp: newer_row_def db_ok_def le_less)
  show ?thesis
  proof (cases ?f)
    case (Cons h t)
    have "foldl newer_row h t \<in> set ?f" using foldl_newer_member [of h t] Cons by simp
    then have "newer_row (foldl newer_row h t) ?r = ?r" using win by simp
    then show ?thesis using Cons by (simp add: latest_hash_def insert_history_def)
  qed (simp add: latest_hash_def insert_history_def)
qed

text \<open>
  Recording the same password again adds no second history row. If bcrypt verifies its
  own digests and no history row of the user lies in the future, then after a recorded change the same
  call returns ``already recorded'' and leaves the history as it is, while it still renews the expiry
  row; so at most one row per change is written however often the hook and the SQL function run.
\<close>

theorem recording_is_idempotent:
  assumes "\<forall>p c h. px_hash px p c = Some h \<longrightarrow> px_verify px p h = Some True"
    and "db_ok (ss_db s)" and "\<forall>h \<in> set (db_password_history (ss_db s)). hr_username h = u \<longrightarrow> hr_changed_at h \<le> de_now env"
    and "password_history_recording_enabled g"
    and "record_password_change_internal env px g u pw s = (s1, Inr ins)"
    and "ss_db t = ss_db s1" and "record_password_change_internal env2 px g u pw t = (s2, Inr ins2)"
  shows "\<not> ins2 \<and> db_password_history (ss_db s2) = db_password_history (ss_db s1)
    \<and> map_of (db_password_expiry (ss_db s2)) u = changed_row env2 px g (map_of (db_password_expiry (ss_db s1)) u)"
proof -
  obtain a where a: "record_history env px g u pw s = (a, Inr ins)" "record_expiry env px g u a = (s1, Inr ())"
    using record_password_change_returns [OF assms(5)] by metis
  obtain b where b: "record_history env2 px g u pw t = (b, Inr ins2)" "record_expiry env2 px g u b = (s2, Inr ())"
    using record_password_change_returns [OF assms(7)] by metis
  have h: "db_password_history (ss_db s1) = db_password_history (ss_db a)" by (rule record_expiry_returns(2) [OF a(2)])
  have "\<exists>st. latest_hash u (db_password_history (ss_db s1)) = Some st \<and> stored_hash_matches px pw st"
  proof (cases ins)
    case True
    then obtain w where w: "px_hash px pw (max 4 (min 31 (BCRYPT_COST g))) = Some w"
      "ss_db a = insert_history (de_now env) u w (ss_db s)"
      using record_history_returns(2) [OF a(1)] by auto
    then show ?thesis
      using latest_inserted [OF assms(2,3)] assms(1) h by (auto simp: stored_hash_matches_def)
  next
    case False
    then have "a = s" using record_history_returns(2) [OF a(1)] by simp
    moreover have "\<exists>st. latest_hash u (db_password_history (ss_db s)) = Some st \<and> stored_hash_matches px pw st"
      using a(1) assms(4) False
      by (auto simp: record_history_def spi_def Let_def split: if_splits option.splits)
    ultimately show ?thesis using h by simp
  qed
  then have "b = t \<and> \<not> ins2"
    using b(1) assms(4,6) by (auto simp: record_history_def spi_def Let_def split: if_splits)
  then show ?thesis using record_expiry_returns(1,2) [OF b(2)] assms(6) by simp
qed

text \<open>Concrete external functions: exact days and a digest that is the password itself.\<close>

definition plain_ext :: pg_ext where
  "plain_ext = \<lparr>px_ts_valid = \<lambda>_. True, px_add_days = \<lambda>t d. t + d * 86400000000,
     px_verify = \<lambda>p h. Some (p = h), px_hash = \<lambda>p _. Some p, px_md5 = \<lambda>p. p\<rparr>"

lemma record_password_change_good:
  assumes "good_env env" and "ss_pending s = pending_new" and "\<And>p c. px_hash px p c \<noteq> None"
  shows "\<exists>s1 ins. record_password_change_internal env px g u pw s = (s1, Inr ins)"
proof -
  obtain w where w: "px_hash px pw (max 4 (min 31 (BCRYPT_COST g))) = Some w" using assms(3) by blast
  have "\<exists>s0 ins. record_history env px g u pw s = (s0, Inr ins)"
    using assms(1) w by (auto simp: record_history_def spi_def good_env_def Let_def)
  then obtain s0 ins where h: "record_history env px g u pw s = (s0, Inr ins)" by blast
  then have p: "ss_pending s0 = pending_new" using record_history_returns(1) assms(2) by metis
  have "\<exists>st. stage_expiry 1 (encode_username u) x pending_new = (st, Inr ())" for x
    using stage_start [of "encode_username u" None x] by (auto simp: stage_expiry_def)
  then have "\<exists>s1. record_expiry env px g u s0 = (s1, Inr ())"
    using assms(1) p unfolding record_expiry_def spi_def good_env_def stage_then_def Let_def
    by (auto split: prod.splits sum.splits) (metis prod.inject sum.distinct(1))+
  then show ?thesis using h assms(1) by (auto simp: record_password_change_internal_def spi_def good_env_def)
qed

definition dated_session :: session where
  "dated_session = fresh_session\<lparr>ss_db := empty_database\<lparr>db_password_expiry :=
     [([0x61], \<lparr>er_last_changed = Some 9, er_must_change_by = Some 20, er_grace_logins_remaining = Some 1\<rparr>)]\<rparr>\<rparr>"

lemma dated_session_pending: "ss_pending dated_session = pending_new"
  by (simp add: dated_session_def fresh_session_def)

theorem stale_grace_event_is_ignored_witness:
  "\<exists>s1 ins. record_password_change_internal (plain_env 5) plain_ext guc_default [0x61] [7] dated_session = (s1, Inr ins)
     \<and> persist_grace_consumption (plain_env 6) plain_ext [0x61] 9 s1 = (s1, Inr ())"
proof -
  obtain s1 ins where r: "record_password_change_internal (plain_env 5) plain_ext guc_default [0x61] [7] dated_session
      = (s1, Inr ins)"
    using record_password_change_good [OF plain_env_good dated_session_pending, of plain_ext]
    by (metis option.distinct(1) pg_ext.select_convs(4) plain_ext_def)
  obtain s2 res where p: "persist_grace_consumption (plain_env 6) plain_ext [0x61] 9 s1 = (s2, res)" by fastforce
  have "0 < PASSWORD_EXPIRY_DAYS guc_default"
    "Option.bind (map_of (db_password_expiry (ss_db dated_session)) [0x61]) er_last_changed = Some 9"
    by (simp_all add: guc_default_def dated_session_def empty_database_def)
  from stale_grace_event_is_ignored [OF r this order_refl refl p] p r show ?thesis by (auto simp: plain_ext_def)
qed

theorem recording_is_idempotent_witness:
  "\<exists>s1 s2. record_password_change_internal (plain_env 5) plain_ext guc_default [0x61] [7] fresh_session = (s1, Inr True)
     \<and> record_password_change_internal (plain_env 6) plain_ext guc_default [0x61] [7]
         (s1\<lparr>ss_pending := pending_new\<rparr>) = (s2, Inr False)"
proof -
  have px: "px_hash plain_ext p c \<noteq> None" for p c by (simp add: plain_ext_def)
  have f: "ss_pending fresh_session = pending_new" by (simp add: fresh_session_def)
  obtain s1 ins where r: "record_password_change_internal (plain_env 5) plain_ext guc_default [0x61] [7] fresh_session
      = (s1, Inr ins)"
    using record_password_change_good [OF plain_env_good f px] by blast
  obtain s2 ins2 where r2: "record_password_change_internal (plain_env 6) plain_ext guc_default [0x61] [7]
      (s1\<lparr>ss_pending := pending_new\<rparr>) = (s2, Inr ins2)"
    using record_password_change_good [OF plain_env_good _ px, of "s1\<lparr>ss_pending := pending_new\<rparr>"]
    by (metis session.select_convs(2) session.surjective session.update_convs(2))
  obtain a where "record_history (plain_env 5) plain_ext guc_default [0x61] [7] fresh_session = (a, Inr ins)"
    using record_password_change_returns [OF r] by metis
  then have "ins" by (auto simp: record_history_def fresh_session_def empty_database_def latest_hash_def
        password_history_recording_enabled_def guc_default_def spi_def plain_env_def plain_ext_def)
  moreover have "\<not> ins2"
    using recording_is_idempotent [OF _ _ _ _ r _ r2] empty_database_ok
    by (auto simp: plain_ext_def fresh_session_def empty_database_def password_history_recording_enabled_def
        guc_default_def)
  ultimately show ?thesis using r r2 by auto
qed

section \<open>Agreement of the expiry cache with its table\<close>

definition row_view :: "ExpiryRow option \<Rightarrow> (timestamp \<times> timestamp \<times> int) option" where
  "row_view row = (case row_decision row of ExpirySet must gen grace \<Rightarrow> Some (must, gen, max grace 0) | _ \<Rightarrow> None)"

definition expiry_coherent :: "(username \<times> ExpiryRow) list \<Rightarrow> ExpiryCache option \<Rightarrow> bool" where
  "expiry_coherent tab c \<longleftrightarrow>
     (\<forall>u. representable u \<longrightarrow> expiry_opt_view c (encode_username u) = row_view (map_of tab u))"

lemma staged_row: "staged_expiry (Some (d, row_decision row)) old = row_view row"
  by (auto simp: staged_expiry_def row_view_def row_decision_def split: option.split)

lemma fresh_expiry_coherent: "expiry_coherent (db_password_expiry (ss_db fresh_session)) (sh_expiry fresh_shm)"
proof -
  have "expiry_view expiry_cache_new w = None" for w
    by (auto simp: expiry_view_def expiry_cache_new_def ExpiryEntry_EMPTY_def find_None_iff)
  then show ?thesis
    by (simp add: expiry_coherent_def fresh_session_def empty_database_def fresh_shm_def expiry_opt_view_def
        row_view_def row_decision_def)
qed

text \<open>
  Property C28: the committed expiry cache agrees with the committed table. If the expiry cache shows
  for every role exactly what \<^verbatim>\<open>password_expiry\<close> says, then so it does after a transaction that recorded
  a password change and committed, whether the change wrote a new row or removed the old one because
  expiry is disabled; otherwise the cache is marked \<open>Overflow\<close>. The lock cache is not affected.
\<close>

theorem committed_expiry_matches_table:
  assumes "expiry_coherent (db_password_expiry (ss_db s)) (sh_expiry sh)" and "caches_inv sh"
    and "ss_pending s = pending_new" and "de_subid env = 1" and "representable u"
    and "record_password_change_internal env px g u pw s = (s1, Inr ins)" and "\<forall>i. clock i \<le> t"
    and "xact_callback clock XactCommit (ss_pending s1, sh) = Inr (st, sh1)"
  shows "(expiry_state (sh_expiry sh1) = ExpiryOverflow
      \<or> expiry_coherent (db_password_expiry (ss_db s1)) (sh_expiry sh1))
    \<and> (lock_state (sh_lock sh1) = Overflow \<or> lock_opt_view t (sh_lock sh1) v = lock_opt_view t (sh_lock sh) v)"
proof -
  obtain s0 where x: "record_expiry env px g u s0 = (s1, Inr ())"
    and same: "db_password_expiry (ss_db s0) = db_password_expiry (ss_db s)" "ss_pending s0 = ss_pending s"
    using record_password_change_returns [OF assms(6)] by metis
  let ?row = "changed_row env px g (map_of (db_password_expiry (ss_db s)) u)"
  have tab: "map_of (db_password_expiry (ss_db s1)) = (map_of (db_password_expiry (ss_db s)))(u := ?row)"
    using record_expiry_returns(1) [OF x] same by simp
  have stg: "stage_inner 1 (encode_username u) None (row_decision ?row) pending_new = (ss_pending s1, Inr ())"
    using record_expiry_returns(3) [OF x] same assms(3,4) by simp
  note c = commit_one [OF stg assms(2) encode_used [OF assms(5)] assms(7) _ assms(8)]
  have "expiry_opt_view (sh_expiry sh1) (encode_username w) = row_view (map_of (db_password_expiry (ss_db s1)) w)"
    if "representable w" "expiry_state (sh_expiry sh1) \<noteq> ExpiryOverflow" for w
    using c(3) [of "encode_username w"] that tab assms(1) encode_username_inj [OF that(1) assms(5)] staged_row
    by (cases "w = u") (auto simp: expiry_coherent_def)
  then show ?thesis
    using c(2) [of v] unfolding expiry_coherent_def by (auto simp: staged_lock_def split: if_splits)
qed

theorem committed_expiry_matches_table_witness:
  "\<exists>s1 ins st sh1. record_password_change_internal (plain_env 5) plain_ext guc_default [0x61] [7] fresh_session = (s1, Inr ins)
     \<and> xact_callback (\<lambda>_. 5) XactCommit (ss_pending s1, fresh_shm) = Inr (st, sh1)
     \<and> (expiry_state (sh_expiry sh1) = ExpiryOverflow \<or> expiry_coherent (db_password_expiry (ss_db s1)) (sh_expiry sh1))"
proof -
  have p: "ss_pending fresh_session = pending_new" by (simp add: fresh_session_def)
  obtain s1 ins where r: "record_password_change_internal (plain_env 5) plain_ext guc_default [0x61] [7] fresh_session
      = (s1, Inr ins)"
    using record_password_change_good [OF plain_env_good p, of plain_ext]
    by (metis option.distinct(1) pg_ext.select_convs(4) plain_ext_def)
  obtain st sh1 where x: "xact_callback (\<lambda>_. 5) XactCommit (ss_pending s1, fresh_shm) = Inr (st, sh1)"
    by (simp add: Let_def)
  have rep: "representable [0x61]" by (simp add: representable_def LOCK_USERNAME_BYTES_def)
  have "de_subid (plain_env 5) = 1" by (simp add: plain_env_def)
  from committed_expiry_matches_table [OF fresh_expiry_coherent fresh_shm_inv p this rep r _ x, of 5] r x show ?thesis by auto
qed

section \<open>Renaming a role\<close>

lemma rename_key_lookup:
  assumes "map_of t new = None" and "old \<noteq> new"
  shows "map_of (rename_key old new t) = (map_of t)(old := None, new := map_of t old)"
  using assms
proof (induction t)
  case (Cons p t)
  obtain k v where p: "p = (k, v)" by fastforce
  then have "k \<noteq> new" "map_of t new = None" using Cons.prems(1) by (auto split: if_splits)
  with Cons p show ?case by (auto simp: rename_key_def)
qed (simp add: rename_key_def)

lemma lock_role_state_names_returns:
  "lock_role_state_names env a b rest s = (s1, Inr x) \<Longrightarrow> rest s = (s1, Inr x)"
proof -
  have spis: "foldr (\<lambda>name. spi env l) names k s = (s1, Inr x) \<Longrightarrow> k s = (s1, Inr x)" for names :: "username list" and l and k :: "session \<Rightarrow> 'a db_result"
    by (induction names) (auto simp: spi_def split: if_splits)
  show "lock_role_state_names env a b rest s = (s1, Inr x) \<Longrightarrow> rest s = (s1, Inr x)"
    unfolding lock_role_state_names_def Let_def by (drule spis) (drule spis)
qed

lemma rename_role_state_returns:
  assumes "rename_role_state env cat control su old new s = (s2, Inr ''Role state renamed'')"
  obtains s1 where "old \<noteq> new" "\<not> has_role_state new (ss_db s)"
    "ss_db s2 = (ss_db s)\<lparr>db_login_attempts := rename_key old new (db_login_attempts (ss_db s)),
       db_password_history := rename_history old new (db_password_history (ss_db s)),
       db_password_expiry := rename_key old new (db_password_expiry (ss_db s))\<rparr>"
    "stage_inner (de_subid env) (encode_username old) (Some ClearLock) ExpiryClear (ss_pending s) = (s1, Inr ())"
    "stage_inner (de_subid env) (encode_username new)
       (Some (decision_for (lockout_until_of (db_login_attempts (ss_db s2)) new) (de_clock env)))
       (row_decision (map_of (db_password_expiry (ss_db s2)) new)) s1 = (ss_pending s2, Inr ())"
proof -
  let ?d = "(ss_db s)\<lparr>db_login_attempts := rename_key old new (db_login_attempts (ss_db s)),
       db_password_history := rename_history old new (db_password_history (ss_db s)),
       db_password_expiry := rename_key old new (db_password_expiry (ss_db s))\<rparr>"
  let ?lock = "decision_for (lockout_until_of (db_login_attempts ?d) new) (de_clock env)"
  let ?exp = "row_decision (map_of (db_password_expiry ?d) new)"
  have g: "old \<noteq> new" using assms by (auto simp: rename_role_state_def split: if_splits)
  then have b: "\<not> has_role_state new (ss_db s)"
    and body: "stage_then (stage_combined (de_subid env) (encode_username old) ClearLock ExpiryClear (ss_pending s))
      (\<lambda>s. stage_then (stage_combined (de_subid env) (encode_username new) ?lock ?exp (ss_pending s))
         (\<lambda>s. (s, Inr ''Role state renamed'')) s) (s\<lparr>ss_db := ?d\<rparr>) = (s2, Inr ''Role state renamed'')"
    using assms
    by (auto simp: rename_role_state_def spi_def decision_from_db_def expiry_decision_from_db_def Let_def
        split: if_splits dest!: lock_role_state_names_returns)
  from body obtain st where
    "stage_inner (de_subid env) (encode_username old) (Some ClearLock) ExpiryClear (ss_pending s) = (st, Inr ())"
    "stage_inner (de_subid env) (encode_username new) (Some ?lock) ?exp st = (ss_pending s2, Inr ())" "ss_db s2 = ?d"
    by (auto simp: stage_then_def stage_combined_def split: prod.splits sum.splits)
  then show ?thesis using that g b by auto
qed

text \<open>What the commit of a transaction does that staged operations for two users.\<close>

lemma commit_two:
  assumes "stage_inner 1 u d x pending_new = (st1, Inr ())" and "stage_inner 1 v e y st1 = (st2, Inr ())"
    and "u \<noteq> v" and "caches_inv s" and "slot_used u" and "slot_used v" and "\<forall>i. clock i \<le> t"
    and "\<forall>z. d = Some (SetLock z) \<or> e = Some (SetLock z) \<longrightarrow> (\<forall>i. clock i < z)"
    and "xact_callback clock XactCommit (st2, s) = Inr (st, s1)"
  shows "lock_state (sh_lock s1) = Overflow \<or> lock_opt_view t (sh_lock s1) w =
      staged_lock t ([u \<mapsto> (d, x), v \<mapsto> (e, y)] w) (lock_opt_view t (sh_lock s) w)"
    and "expiry_state (sh_expiry s1) = ExpiryOverflow \<or> expiry_opt_view (sh_expiry s1) w =
      staged_expiry ([u \<mapsto> (d, x), v \<mapsto> (e, y)] w) (expiry_opt_view (sh_expiry s) w)"
proof -
  obtain t1 where t1: "txn_step (TStage u d x) txn_start = Some t1" "st1 = tx_pending t1"
    using stage_start [of u d x] assms(1) by auto
  then have "tx_stack t1 = [1]" by (auto simp: txn_start_def split: prod.splits sum.splits)
  moreover have "stage_entry v e y 1 st1 = (st2, Inr ())"
    using assms(2) by (auto simp: stage_inner_def split: prod.splits sum.splits StageCapacityExceeded.splits)
  ultimately have t2: "run_steps txn_step [TStage u d x, TStage v e y] txn_start = Some (t1\<lparr>tx_pending := st2\<rparr>)"
    using t1 by simp
  have m: "run_steps spec_step [TStage u d x, TStage v e y] [Map.empty] = Some [[u \<mapsto> (d, x), v \<mapsto> (e, y)]]"
    using assms(3) by (simp add: fun_upd_twist)
  have ok: "staged_ok clock t [u \<mapsto> (d, x), v \<mapsto> (e, y)]" using assms(5-8) by (auto simp: staged_ok_def split: if_splits)
  have "xact_callback clock XactCommit (tx_pending (t1\<lparr>tx_pending := st2\<rparr>), s) = Inr (st, s1)" using assms(9) by simp
  note c = commit_final [OF t2 m assms(4) ok this, of w]
  show "lock_state (sh_lock s1) = Overflow \<or> lock_opt_view t (sh_lock s1) w =
      staged_lock t ([u \<mapsto> (d, x), v \<mapsto> (e, y)] w) (lock_opt_view t (sh_lock s) w)" using c by blast
  show "expiry_state (sh_expiry s1) = ExpiryOverflow \<or> expiry_opt_view (sh_expiry s1) w =
      staged_expiry ([u \<mapsto> (d, x), v \<mapsto> (e, y)] w) (expiry_opt_view (sh_expiry s) w)" using c by blast
qed

text \<open>
  Property C29: renaming a role moves its state and nothing else. A rename that returns has moved the
  failed-login row, the expiry row and the history of the old name to the new one, left the old name
  without state and every other role untouched; and after the commit the lock and expiry caches, if
  they agreed with the tables before, agree with them again for the old name, the new name and
  everyone else, or the cache concerned is marked \<open>Overflow\<close>.
\<close>

theorem rename_moves_state:
  assumes "rename_role_state env cat control su old new s = (s1, Inr ''Role state renamed'')"
    and "ss_pending s = pending_new" and "de_subid env = 1" and "representable old" and "representable new"
    and "caches_inv sh" and "lock_coherent t (db_login_attempts (ss_db s)) (sh_lock sh)"
    and "expiry_coherent (db_password_expiry (ss_db s)) (sh_expiry sh)"
    and "\<forall>i. clock i \<le> t" and "de_clock env \<le> t"
    and "\<forall>x i. lockout_until_of (db_login_attempts (ss_db s)) old = Some x \<longrightarrow> clock i < x"
    and "xact_callback clock XactCommit (ss_pending s1, sh) = Inr (st, sh1)"
  shows "map_of (db_login_attempts (ss_db s1)) = (map_of (db_login_attempts (ss_db s)))
        (old := None, new := map_of (db_login_attempts (ss_db s)) old)
    \<and> map_of (db_password_expiry (ss_db s1)) = (map_of (db_password_expiry (ss_db s)))
        (old := None, new := map_of (db_password_expiry (ss_db s)) old)
    \<and> db_password_history (ss_db s1) = map (\<lambda>h. if hr_username h = old then h\<lparr>hr_username := new\<rparr> else h)
        (db_password_history (ss_db s))
    \<and> (lock_state (sh_lock sh1) = Overflow \<or> lock_coherent t (db_login_attempts (ss_db s1)) (sh_lock sh1))
    \<and> (expiry_state (sh_expiry sh1) = ExpiryOverflow
       \<or> expiry_coherent (db_password_expiry (ss_db s1)) (sh_expiry sh1))"
proof (rule rename_role_state_returns [OF assms(1)])
  fix p
  let ?lock = "decision_for (lockout_until_of (db_login_attempts (ss_db s1)) new) (de_clock env)"
  let ?exp = "row_decision (map_of (db_password_expiry (ss_db s1)) new)"
  assume ne: "old \<noteq> new" and free: "\<not> has_role_state new (ss_db s)"
    and db: "ss_db s1 = (ss_db s)\<lparr>db_login_attempts := rename_key old new (db_login_attempts (ss_db s)),
       db_password_history := rename_history old new (db_password_history (ss_db s)),
       db_password_expiry := rename_key old new (db_password_expiry (ss_db s))\<rparr>"
    and st1: "stage_inner (de_subid env) (encode_username old) (Some ClearLock) ExpiryClear (ss_pending s) = (p, Inr ())"
    and st2: "stage_inner (de_subid env) (encode_username new) (Some ?lock) ?exp p = (ss_pending s1, Inr ())"
  have tl: "map_of (db_login_attempts (ss_db s1)) = (map_of (db_login_attempts (ss_db s)))
        (old := None, new := map_of (db_login_attempts (ss_db s)) old)"
    and te: "map_of (db_password_expiry (ss_db s1)) = (map_of (db_password_expiry (ss_db s)))
        (old := None, new := map_of (db_password_expiry (ss_db s)) old)"
    using free db ne by (simp_all add: has_role_state_def rename_key_lookup)
  have en: "encode_username old \<noteq> encode_username new" using encode_username_inj [OF assms(4,5)] ne by blast
  have lo: "\<forall>z. Some ClearLock = Some (SetLock z) \<or> Some ?lock = Some (SetLock z) \<longrightarrow> (\<forall>i. clock i < z)"
    using assms(11) tl by (auto simp: decision_for_def lockout_until_of_def split: option.splits if_splits)
  note c = commit_two [OF st1 [unfolded assms(2,3)] st2 [unfolded assms(3)] en assms(6) encode_used [OF assms(4)]
      encode_used [OF assms(5)] assms(9) lo assms(12)]
  have lv: "staged_lock t (Some (Some ?lock, y)) o1 = live_lockout t (db_login_attempts (ss_db s1)) new" for y o1
    using assms(10) by (auto simp: staged_lock_def decision_for_def live_lockout_def split: option.splits)
  have "lock_opt_view t (sh_lock sh1) (encode_username w) = live_lockout t (db_login_attempts (ss_db s1)) w"
    if w: "representable w" "lock_state (sh_lock sh1) \<noteq> Overflow" for w
  proof -
    have inj: "encode_username w = encode_username old \<longleftrightarrow> w = old" "encode_username w = encode_username new \<longleftrightarrow> w = new"
      using encode_username_inj w(1) assms(4,5) by blast+
    show ?thesis
      using c(1) [of "encode_username w"] w inj lv en tl assms(7)
      by (cases "w = new"; cases "w = old")
        (auto simp: lock_coherent_def live_lockout_def lockout_until_of_def staged_lock_def)
  qed
  moreover have "expiry_opt_view (sh_expiry sh1) (encode_username w) = row_view (map_of (db_password_expiry (ss_db s1)) w)"
    if w: "representable w" "expiry_state (sh_expiry sh1) \<noteq> ExpiryOverflow" for w
  proof -
    have inj: "encode_username w = encode_username old \<longleftrightarrow> w = old" "encode_username w = encode_username new \<longleftrightarrow> w = new"
      using encode_username_inj w(1) assms(4,5) by blast+
    show ?thesis
      using c(2) [of "encode_username w"] w inj staged_row en te assms(8)
      by (cases "w = new"; cases "w = old")
        (auto simp: expiry_coherent_def row_view_def row_decision_def [of None] staged_expiry_def)
  qed
  ultimately show ?thesis
    using tl te db unfolding lock_coherent_def expiry_coherent_def rename_history_def by auto
qed

definition renamed_catalog :: pg_catalog where
  "renamed_catalog = plain_catalog\<lparr>ct_role_exists := (\<lambda>u. u = [0x62])\<rparr>"

lemma rename_fresh:
  "\<exists>s1. rename_role_state (plain_env 5) renamed_catalog True True [0x61] [0x62] fresh_session
     = (s1, Inr ''Role state renamed'')"
  by (simp add: rename_role_state_def spi_def plain_env_def renamed_catalog_def lock_role_state_names_def
      role_state_lock_order_def has_role_state_def fresh_session_def empty_database_def decision_from_db_def
      expiry_decision_from_db_def rename_key_def rename_history_def row_decision_def lockout_until_of_def
      decision_for_def stage_combined_def stage_inner_def stage_entry_def stage_then_def pending_new_def live_def
      MAX_PENDING_OPS_def Let_def numeral_eq_Suc)

theorem rename_moves_state_witness:
  "\<exists>s1. rename_role_state (plain_env 5) renamed_catalog True True [0x61] [0x62] fresh_session
      = (s1, Inr ''Role state renamed'')
     \<and> map_of (db_login_attempts (ss_db s1)) [0x62] = None"
proof -
  obtain s1 where r: "rename_role_state (plain_env 5) renamed_catalog True True [0x61] [0x62] fresh_session
      = (s1, Inr ''Role state renamed'')" using rename_fresh by blast
  obtain st sh1 where x: "xact_callback (\<lambda>_. 5) XactCommit (ss_pending s1, fresh_shm) = Inr (st, sh1)"
    by (simp add: Let_def)
  have p: "ss_pending fresh_session = pending_new" and e: "de_subid (plain_env 5) = 1" "de_clock (plain_env 5) \<le> 5"
    by (simp_all add: fresh_session_def plain_env_def)
  have rep: "representable [0x61]" "representable [0x62]" by (simp_all add: representable_def LOCK_USERNAME_BYTES_def)
  have l: "lock_coherent 5 (db_login_attempts (ss_db fresh_session)) (sh_lock fresh_shm)"
    by (simp add: lock_coherent_def fresh_session_def empty_database_def fresh_shm_def live_lockout_def
        lockout_until_of_def lock_opt_view_def lock_cache_new_view)
  have "\<forall>z (i::nat). lockout_until_of (db_login_attempts (ss_db fresh_session)) [0x61] = Some z \<longrightarrow> 5 < z"
    and d: "map_of (db_login_attempts (ss_db fresh_session)) [0x61] = None"
    by (simp_all add: fresh_session_def empty_database_def lockout_until_of_def)
  from rename_moves_state [OF r p e(1) rep fresh_shm_inv l fresh_expiry_coherent _ e(2) this(1) x] d r show ?thesis by auto
qed

end
