(* ===== verification/Hydration.thy ===== *)
theory Hydration
  imports Password_State "HOL-Library.Product_Lexorder" "HOL-Library.Multiset"
begin

text \<open>
  Loading the shared caches from the authoritative tables (\<^verbatim>\<open>hydrate_from_db\<close>,
  \<^verbatim>\<open>hydrate_expiry_from_db\<close> and \<^verbatim>\<open>refresh_bypass_cache\<close> of \<^verbatim>\<open>lock_cache.rs\<close>). Each pass counts the rows,
  reads at most as many as the cache holds in a fixed order and replaces the cache in one step. The
  collation of names is an argument; the SHARE table lock makes the count and the read see one table.
\<close>

section \<open>Operations\<close>

record HydrationStats =
  hs_active_total :: int
  hs_loaded :: int
  hs_overflow :: int

definition pass_overflow :: "int \<Rightarrow> nat \<Rightarrow> int" where
  "pass_overflow row_count prepared_len = max (saturating_i64 (row_count - int prepared_len)) 0"

definition active_lockouts :: "timestamp \<Rightarrow> (username \<times> LoginAttempt) list \<Rightarrow> (username \<times> timestamp) list" where
  "active_lockouts now t =
     List.map_filter (\<lambda>(u, r). case la_lockout_until r of
       Some x \<Rightarrow> if now < x then Some (u, x) else None | None \<Rightarrow> None) t"

definition hydrate_from_db ::
  "db_env \<Rightarrow> (username \<Rightarrow> nat) \<Rightarrow> bool \<Rightarrow> database \<Rightarrow> LockCache option
    \<Rightarrow> LockCache option \<times> (db_error + HydrationStats)" where
  "hydrate_from_db env collate installed d c =
     (if \<not> de_database env then (c, Inl (DbError ''lock cache hydration skipped: no database context''))
      else case c of
        None \<Rightarrow> (c, Inl (DbError ''lock cache hydration skipped: shared cache not initialized''))
      | Some cache \<Rightarrow>
          if \<not> de_spi env ''hydrate lock cache'' then (c, Inl (SpiError ''hydrate lock cache''))
          else if \<not> installed
          then (c, Inl (DbError ''lock cache hydration skipped: password_profile.login_attempts not available''))
          else
            let active = active_lockouts (de_now env) (db_login_attempts d);
                active_total = int (length active);
                rows = take LOCK_CACHE_SIZE (sort_key (\<lambda>(u, x). (- x, collate u)) active);
                prepared = map (\<lambda>(u, x). (encode_username u, x)) (filter (\<lambda>(u, x). u \<noteq> []) rows);
                overflow = pass_overflow active_total (length prepared);
                new_state = (if overflow = 0 then Ready else Overflow);
                (cache1, loaded) = apply_hydrated_entries (de_clock env) prepared active_total overflow
                  new_state cache
            in (Some cache1, Inr \<lparr>hs_active_total = active_total, hs_loaded = loaded, hs_overflow = overflow\<rparr>))"

definition dated_rows ::
  "(username \<times> ExpiryRow) list \<Rightarrow> (username \<times> timestamp \<times> timestamp \<times> int) list" where
  "dated_rows t =
     List.map_filter (\<lambda>(u, r). case (er_must_change_by r, er_last_changed r) of
       (Some must, Some gen) \<Rightarrow> Some (u, must, gen,
          case er_grace_logins_remaining r of Some n \<Rightarrow> n | None \<Rightarrow> 0)
     | _ \<Rightarrow> None) t"

definition hydrate_expiry_from_db ::
  "db_env \<Rightarrow> (username \<Rightarrow> nat) \<Rightarrow> bool \<Rightarrow> database \<Rightarrow> ExpiryCache option
    \<Rightarrow> ExpiryCache option \<times> (db_error + int \<times> int \<times> int)" where
  "hydrate_expiry_from_db env collate installed d c =
     (if \<not> de_database env then (c, Inl (DbError ''expiry cache hydration skipped: no database context''))
      else if \<not> de_spi env ''hydrate expiry cache'' then (c, Inl (SpiError ''hydrate expiry cache''))
      else if \<not> installed
      then (c, Inl (DbError ''expiry cache hydration skipped: password_profile.password_expiry not available''))
      else
        let dated = dated_rows (db_password_expiry d);
            rows = int (length dated);
            chosen = take EXPIRY_CACHE_SIZE (sort_key (\<lambda>(u, must, gen, grace). (must, collate u)) dated);
            prepared = map (\<lambda>(u, must, gen, grace). expiry_prepared_entry u must gen grace)
              (filter (\<lambda>(u, _). u \<noteq> []) chosen);
            overflow = pass_overflow rows (length prepared);
            new_state = (if overflow = 0 then ExpiryReady else ExpiryOverflow);
            (c1, loaded) = expiry_apply_hydrated prepared rows overflow new_state c
        in (c1, Inr (rows, loaded, overflow)))"

text \<open>
  The exemption predicate on one entry of \<^verbatim>\<open>setconfig\<close>: the part before the first equals sign, folded
  to lower case, is the setting, and the rest is one of the spellings PostgreSQL accepts for true.
\<close>

definition lower_char :: "char \<Rightarrow> char" where
  "lower_char c = (if 65 \<le> (of_char c :: nat) \<and> (of_char c :: nat) \<le> 90 then char_of ((of_char c :: nat) + 32) else c)"

definition bypass_true_spellings :: "string list" where
  "bypass_true_spellings = [''true'', ''tru'', ''tr'', ''t'', ''yes'', ''ye'', ''y'', ''on'', ''1'']"

definition bypass_match :: "string \<Rightarrow> bool" where
  "bypass_match cfg \<longleftrightarrow>
     map lower_char (takeWhile (\<lambda>c. c \<noteq> CHR ''='') cfg) = ''password_profile.bypass_password_profile''
     \<and> map lower_char (if CHR ''='' \<in> set cfg then tl (dropWhile (\<lambda>c. c \<noteq> CHR ''='') cfg) else cfg)
         \<in> set bypass_true_spellings"

definition exempt_roles :: "(username \<times> string list) list \<Rightarrow> username list" where
  "exempt_roles settings = map fst (filter (\<lambda>(rolname, setconfig). list_ex bypass_match setconfig) settings)"

definition refresh_bypass_cache ::
  "db_env \<Rightarrow> (username \<times> string list) list \<Rightarrow> BypassCache option \<Rightarrow> BypassCache option \<times> (db_error + int \<times> int \<times> int)" where
  "refresh_bypass_cache env settings c =
     (if \<not> de_database env then (c, Inl (DbError ''bypass cache refresh skipped: no database context''))
      else if \<not> de_spi env ''refresh bypass cache'' then (c, Inl (SpiError ''refresh bypass cache''))
      else
        let exempt = exempt_roles settings;
            rows = int (length exempt);
            prepared = map bypass_prepared_entry (filter (\<lambda>u. u \<noteq> []) (take BYPASS_CACHE_SIZE (sort exempt)));
            overflow = pass_overflow rows (length prepared);
            new_state = (if overflow = 0 then BypassReady else BypassOverflow);
            (c1, loaded) = apply_refreshed prepared rows overflow new_state c
        in (c1, Inr (rows, loaded, overflow)))"

section \<open>Lemmas\<close>

lemma distinct_perm: "distinct (map f xs) \<Longrightarrow> mset ys = mset xs \<Longrightarrow> distinct (map f ys)"
  by (metis mset_eq_imp_distinct_iff mset_map)

lemma map_of_perm:
  assumes "distinct (map fst xs)" and "mset ys = mset xs"
  shows "map_of ys = map_of xs"
proof -
  have "distinct (map fst ys)" by (rule distinct_perm [OF assms])
  moreover have "set ys = set xs" using assms(2) by (rule mset_eq_setD)
  ultimately show ?thesis using assms(1) by (metis map_of_inject_set)
qed

text \<open>A pass is complete exactly when every row fits and has a name.\<close>

lemma pass_overflow_zero:
  assumes "int (length xs) \<le> I64_MAX" and "mset ys = mset xs"
  shows "pass_overflow (int (length xs)) (length (filter p (take n ys))) = 0 \<longleftrightarrow>
    length xs \<le> n \<and> (\<forall>x \<in> set xs. p x)"
proof -
  let ?f = "filter p (take n ys)"
  have len: "length ys = length xs" using assms(2) by (metis size_mset)
  have le: "length ?f \<le> length (take n ys)" by (rule length_filter_le)
  have "pass_overflow (int (length xs)) (length ?f) = 0 \<longleftrightarrow> length xs \<le> length ?f"
    using assms(1) by (auto simp: pass_overflow_def saturating_i64_def width_defs)
  also have "\<dots> \<longleftrightarrow> length xs \<le> n \<and> (\<forall>x \<in> set xs. p x)"
  proof
    assume l: "length xs \<le> length ?f"
    then have n: "length xs \<le> n" using le by simp
    then have t: "take n ys = ys" using len by simp
    then have "length ?f = length ys" using l le len by simp
    then have "filter p ys = ys" using t by (metis filter_id_conv length_filter_less nat_less_le)
    then show "length xs \<le> n \<and> (\<forall>x \<in> set xs. p x)"
      using n mset_eq_setD [OF assms(2)] by (metis filter_id_conv)
  next
    assume a: "length xs \<le> n \<and> (\<forall>x \<in> set xs. p x)"
    then have "?f = ys" using len mset_eq_setD [OF assms(2)] by (simp add: filter_id_conv)
    then show "length xs \<le> length ?f" using len by simp
  qed
  finally show ?thesis .
qed

lemma map_filter_keys:
  assumes "\<And>u r y. f (u, r) = Some y \<Longrightarrow> fst y = u"
  shows "set (map fst (List.map_filter f t)) \<subseteq> set (map fst t)"
    and "distinct (map fst t) \<Longrightarrow> distinct (map fst (List.map_filter f t))"
    and "distinct (map fst t) \<Longrightarrow> map_of (List.map_filter f t) u =
      Option.bind (map_of t u) (\<lambda>r. map_option snd (f (u, r)))"
proof -
  have sub: "set (map fst (List.map_filter f t)) \<subseteq> set (map fst t)" for t
    by (induction t) (auto simp: List.map_filter_simps dest: assms split: option.splits)
  then show "set (map fst (List.map_filter f t)) \<subseteq> set (map fst t)" .
  show "distinct (map fst t) \<Longrightarrow> distinct (map fst (List.map_filter f t))"
  proof (induction t)
    case (Cons p t)
    obtain k r where p: "p = (k, r)" by fastforce
    have "k \<notin> set (map fst (List.map_filter f t))" using sub [of t] Cons.prems p by auto
    with Cons p show ?case
      by (cases "f (k, r)") (auto simp: List.map_filter_simps dest: assms)
  qed (simp add: List.map_filter_simps)
  show "distinct (map fst t) \<Longrightarrow> map_of (List.map_filter f t) u =
      Option.bind (map_of t u) (\<lambda>r. map_option snd (f (u, r)))"
  proof (induction t)
    case (Cons p t)
    obtain k r where p: "p = (k, r)" by fastforce
    have k: "k \<notin> set (map fst t)" "distinct (map fst t)" using Cons.prems p by auto
    then have "map_of (List.map_filter f t) k = None"
      using sub [of t] unfolding map_of_eq_None_iff by auto
    with Cons.IH [OF k(2)] p show ?case
      by (cases "f (k, r)") (auto simp: List.map_filter_simps dest: assms)
  qed (simp add: List.map_filter_simps)
qed

lemma active_lockouts_lookup:
  assumes "distinct (map fst t)"
  shows "distinct (map fst (active_lockouts now t))"
    and "map_of (active_lockouts now t) u = live_lockout now t u"
proof -
  let ?f = "\<lambda>(u, r). case la_lockout_until r of Some x \<Rightarrow> if now < x then Some (u, x) else None | None \<Rightarrow> None"
  have f: "?f (u, r) = Some y \<Longrightarrow> fst y = u" for u r y by (auto split: option.splits if_splits)
  have k: "map_of (List.map_filter ?f t) u = Option.bind (map_of t u) (\<lambda>r. map_option snd (?f (u, r)))"
    by (rule map_filter_keys(3) [OF f assms])
  show "distinct (map fst (active_lockouts now t))"
    unfolding active_lockouts_def by (rule map_filter_keys(2) [OF f assms])
  show "map_of (active_lockouts now t) u = live_lockout now t u"
    using k unfolding active_lockouts_def
    by (cases "map_of t u") (auto simp: live_lockout_def lockout_until_of_def split: option.split)
qed

text \<open>Encoding the keys of a table of representable names keeps lookups.\<close>

lemma map_of_encoded:
  assumes "\<forall>p \<in> set xs. representable (fst p)" and "representable u"
  shows "map_of (map (\<lambda>(v, x). (encode_username v, f x)) xs) (encode_username u) = map_option f (map_of xs u)"
  using assms by (induction xs) (auto dest: encode_username_inj)

lemma distinct_encoded:
  assumes "distinct (map fst xs)" and "\<forall>p \<in> set xs. representable (fst p)"
  shows "distinct (map (encode_username \<circ> fst) xs)"
  using assms by (induction xs) (auto dest: encode_username_inj)

text \<open>
  A pass over rows with distinct names: \<open>ys\<close> are the rows in the order of the query, of which \<open>n\<close> are
  read and those with an empty name passed over. It is complete exactly when all rows fit and none has
  an empty name, and then the entries prepared from it are the rows.
\<close>

lemma complete_pass:
  fixes act ys :: "(username \<times> 'v) list" and n :: nat
  assumes "mset ys = mset act" and "int (length act) \<le> I64_MAX"
    and "\<forall>p \<in> set act. fst p = [] \<or> representable (fst p)"
  defines "kept \<equiv> filter (\<lambda>(u, _). u \<noteq> []) (take n ys)"
  defines "over \<equiv> pass_overflow (int (length act)) (length kept)"
  shows "over = 0 \<longleftrightarrow> length act \<le> n \<and> map_of act [] = None"
    and "length kept \<le> n"
    and "over = 0 \<Longrightarrow> kept = ys" and "over = 0 \<Longrightarrow> \<forall>p \<in> set ys. representable (fst p)"
proof -
  have "(\<forall>p \<in> set act. fst p \<noteq> []) \<longleftrightarrow> map_of act [] = None" by (auto simp: map_of_eq_None_iff image_iff)
  then show over: "over = 0 \<longleftrightarrow> length act \<le> n \<and> map_of act [] = None"
    using pass_overflow_zero [OF assms(2,1), of "\<lambda>(u, _). u \<noteq> []" n]
    by (simp add: over_def kept_def case_prod_beta)
  show "length kept \<le> n" by (simp add: kept_def le_trans [OF length_filter_le])
  assume "over = 0"
  then have all: "length ys \<le> n" "\<forall>p \<in> set ys. fst p \<noteq> []"
    using over mset_eq_setD [OF assms(1)] mset_eq_length [OF assms(1)] by (force simp: map_of_eq_None_iff)+
  then show "kept = ys" by (auto simp: kept_def filter_id_conv)
  show "\<forall>p \<in> set ys. representable (fst p)" using all(2) assms(3) mset_eq_setD [OF assms(1)] by auto
qed

lemma map_filter_names:
  assumes "\<And>u r y. f (u, r) = Some y \<Longrightarrow> fst y = u" and "\<forall>(u, r) \<in> set t. P u"
  shows "\<forall>p \<in> set (List.map_filter f t). P (fst p)"
  using map_filter_keys(1) [OF assms(1)] assms(2) by fastforce

lemma active_lockouts_names: "\<forall>(u, r) \<in> set t. P u \<Longrightarrow> \<forall>p \<in> set (active_lockouts now t). P (fst p)"
  unfolding active_lockouts_def by (rule map_filter_names) (auto split: option.splits if_splits)

lemma dated_rows_names: "\<forall>(u, r) \<in> set t. P u \<Longrightarrow> \<forall>p \<in> set (dated_rows t). P (fst p)"
  unfolding dated_rows_def by (rule map_filter_names) (auto split: option.splits)

section \<open>Properties of hydration\<close>

text \<open>
  Property C26: a hydrated lock cache is the table. A pass over a table whose non-empty names are role
  names makes the cache \<open>Ready\<close> exactly when every active lockout fits and none belongs to an empty
  name, and \<open>Overflow\<close> otherwise; a \<open>Ready\<close> cache satisfies the cache invariant and shows, at any
  later time, exactly the lockouts active in the table.
\<close>

theorem hydrated_lock_cache_is_table:
  assumes "db_ok d" and "\<forall>(u, r) \<in> set (db_login_attempts d). u = [] \<or> representable u"
    and "int (length (db_login_attempts d)) \<le> I64_MAX"
    and "length (lc_entries cache) = LOCK_CACHE_SIZE"
    and "hydrate_from_db env collate True d (Some cache) = (c, Inr stats)"
    and "de_now env \<le> t" and "de_clock env \<le> t"
  shows "lock_state c = (if length (active_lockouts (de_now env) (db_login_attempts d)) \<le> LOCK_CACHE_SIZE
        \<and> live_lockout (de_now env) (db_login_attempts d) [] = None then Ready else Overflow)
    \<and> (lock_state c = Ready \<longrightarrow> lock_opt_inv c \<and> lock_coherent t (db_login_attempts d) c)"
proof -
  let ?tab = "db_login_attempts d"
  let ?act = "active_lockouts (de_now env) ?tab"
  let ?sorted = "sort_key (\<lambda>(u, x). (- x, collate u)) ?act"
  let ?kept = "filter (\<lambda>(u, x). u \<noteq> []) (take LOCK_CACHE_SIZE ?sorted)"
  let ?prep = "map (\<lambda>(u, x). (encode_username u, x)) ?kept"
  let ?over = "pass_overflow (int (length ?act)) (length ?kept)"
  have dist: "distinct (map fst ?tab)" using assms(1) by (simp add: db_ok_def)
  note act = active_lockouts_lookup [OF dist]
  have perm: "mset ?sorted = mset ?act" by simp
  have "length ?act \<le> length ?tab" by (simp add: active_lockouts_def List.map_filter_def)
  then have len: "int (length ?act) \<le> I64_MAX" using assms(3) by linarith
  note pass = complete_pass [OF perm len active_lockouts_names [OF assms(2)], where n = LOCK_CACHE_SIZE]
  have c: "c = Some (fst (apply_hydrated_entries (de_clock env) ?prep (int (length ?act)) ?over
      (if ?over = 0 then Ready else Overflow) cache))"
    using assms(5) by (auto simp: hydrate_from_db_def Let_def case_prod_beta split: if_splits)
  have st: "lock_state c = (if ?over = 0 then Ready else Overflow)"
    unfolding c lock_state_def by (simp add: apply_hydrated_entries_def Let_def case_prod_beta)
  have "lock_opt_inv c \<and> lock_coherent t ?tab c" if z: "?over = 0"
  proof -
    note kept = pass(3) [OF z] and rs = pass(4) [OF z]
    have "map fst ?prep = map (encode_username \<circ> fst) ?sorted" unfolding kept by (simp add: case_prod_beta comp_def)
    then have dp: "distinct (map fst ?prep)" using distinct_encoded [OF distinct_perm [OF act(1) perm] rs] by simp
    have lp: "length ?prep \<le> LOCK_CACHE_SIZE" using pass(2) by simp
    note v = apply_hydrated_entries_view [OF assms(4) dp lp assms(7)]
    have "lock_opt_view t c (encode_username u) = live_lockout t ?tab u" if u: "representable u" for u
    proof -
      have "map_of ?prep (encode_username u) = live_lockout (de_now env) ?tab u"
        using map_of_encoded [OF rs u, of "\<lambda>x. x"] map_of_perm [OF act(1) perm] act(2) unfolding kept by (simp add: option.map_ident)
      then show ?thesis
        unfolding c lock_opt_view_def using v(2) encode_used [OF u] assms(6)
        by (auto simp: live_lockout_def split: option.splits bind_splits)
    qed
    then show ?thesis using v(1) unfolding c lock_opt_inv_def lock_coherent_def by simp
  qed
  then show ?thesis using st pass(1) act(2) [of "de_now env" "[]"] by auto
qed

lemma hydrate_plain:
  "\<exists>c stats. hydrate_from_db (plain_env 9) collate True d (Some cache) = (c, Inr stats)"
  by (simp add: hydrate_from_db_def plain_env_def Let_def case_prod_beta)

theorem hydrated_lock_cache_is_table_witness:
  "\<exists>c stats. hydrate_from_db (plain_env 9) length True (ss_db locked_session) (Some lock_cache_new) = (c, Inr stats)
     \<and> lock_state c = Ready \<and> lock_coherent 9 (db_login_attempts (ss_db locked_session)) c"
proof -
  let ?d = "ss_db locked_session"
  obtain c stats where h: "hydrate_from_db (plain_env 9) length True ?d (Some lock_cache_new) = (c, Inr stats)"
    using hydrate_plain by blast
  have "db_ok ?d" "\<forall>(u, r) \<in> set (db_login_attempts ?d). u = [] \<or> representable u"
    "int (length (db_login_attempts ?d)) \<le> I64_MAX" "length (lc_entries lock_cache_new) = LOCK_CACHE_SIZE"
    by (simp_all add: locked_session_def db_ok_def empty_database_def representable_def LOCK_USERNAME_BYTES_def
        width_defs lock_cache_new_def)
  note t = hydrated_lock_cache_is_table [OF this h, of 9]
  have "length (active_lockouts 9 (db_login_attempts ?d)) \<le> LOCK_CACHE_SIZE" "live_lockout 9 (db_login_attempts ?d) [] = None"
    by (simp_all add: locked_session_def empty_database_def active_lockouts_def List.map_filter_simps
        LOCK_CACHE_SIZE_def live_lockout_def lockout_until_of_def)
  with t h show ?thesis by (simp add: plain_env_def)
qed

lemma dated_rows_lookup:
  assumes "distinct (map fst t)"
  shows "distinct (map fst (dated_rows t))"
    and "map_of (dated_rows t) u = Option.bind (map_of t u) (\<lambda>r. case (er_must_change_by r, er_last_changed r) of
       (Some must, Some gen) \<Rightarrow> Some (must, gen, case er_grace_logins_remaining r of Some n \<Rightarrow> n | None \<Rightarrow> 0)
     | _ \<Rightarrow> None)"
proof -
  let ?f = "\<lambda>(u, r). case (er_must_change_by r, er_last_changed r) of
       (Some must, Some gen) \<Rightarrow> Some (u, must, gen, case er_grace_logins_remaining r of Some n \<Rightarrow> n | None \<Rightarrow> 0)
     | _ \<Rightarrow> None"
  have f: "?f (u, r) = Some y \<Longrightarrow> fst y = u" for u r y by (auto split: option.splits)
  have k: "map_of (List.map_filter ?f t) u = Option.bind (map_of t u) (\<lambda>r. map_option snd (?f (u, r)))"
    by (rule map_filter_keys(3) [OF f assms])
  show "distinct (map fst (dated_rows t))"
    unfolding dated_rows_def by (rule map_filter_keys(2) [OF f assms])
  show "map_of (dated_rows t) u = Option.bind (map_of t u) (\<lambda>r. case (er_must_change_by r, er_last_changed r) of
       (Some must, Some gen) \<Rightarrow> Some (must, gen, case er_grace_logins_remaining r of Some n \<Rightarrow> n | None \<Rightarrow> 0)
     | _ \<Rightarrow> None)"
    using k unfolding dated_rows_def by (cases "map_of t u") (auto split: option.split)
qed

lemma find_prepared:
  assumes "\<forall>p \<in> set xs. representable (fst p)" and "representable u"
  shows "List.find (\<lambda>e. ex_username e = encode_username u)
      (map (\<lambda>(u, must, gen, grace). expiry_prepared_entry u must gen grace) xs)
    = map_option (\<lambda>(must, gen, grace). expiry_prepared_entry u must gen grace) (map_of xs u)"
  using assms by (induction xs) (auto simp: expiry_prepared_entry_def dest: encode_username_inj)

text \<open>
  A hydrated expiry cache is the table. A pass makes the cache \<open>Ready\<close> exactly when every
  dated row fits and has a name, and \<open>Overflow\<close> otherwise; a \<open>Ready\<close> cache satisfies the cache
  invariant and shows for every role what \<^verbatim>\<open>password_expiry\<close> says, as long as no dated row leaves its
  number of grace logins NULL.
\<close>

theorem hydrated_expiry_cache_is_table:
  assumes "db_ok d" and "\<forall>(u, r) \<in> set (db_password_expiry d). u = [] \<or> representable u"
    and "int (length (db_password_expiry d)) \<le> I64_MAX"
    and "\<forall>(u, r) \<in> set (db_password_expiry d). er_grace_logins_remaining r \<noteq> None"
    and "length (xc_entries cache) = EXPIRY_CACHE_SIZE"
    and "hydrate_expiry_from_db env collate True d (Some cache) = (c, Inr stats)"
  shows "expiry_state c = (if length (dated_rows (db_password_expiry d)) \<le> EXPIRY_CACHE_SIZE
        \<and> map_of (dated_rows (db_password_expiry d)) [] = None then ExpiryReady else ExpiryOverflow)
    \<and> (expiry_state c = ExpiryReady \<longrightarrow> expiry_opt_inv c \<and> expiry_coherent (db_password_expiry d) c)"
proof -
  let ?tab = "db_password_expiry d"
  let ?act = "dated_rows ?tab"
  let ?sorted = "sort_key (\<lambda>(u, must, gen, grace). (must, collate u)) ?act"
  let ?kept = "filter (\<lambda>(u, _). u \<noteq> []) (take EXPIRY_CACHE_SIZE ?sorted)"
  let ?prep = "map (\<lambda>(u, must, gen, grace). expiry_prepared_entry u must gen grace) ?kept"
  let ?over = "pass_overflow (int (length ?act)) (length ?kept)"
  have dist: "distinct (map fst ?tab)" using assms(1) by (simp add: db_ok_def)
  note act = dated_rows_lookup [OF dist]
  have perm: "mset ?sorted = mset ?act" by simp
  have "length ?act \<le> length ?tab" by (simp add: dated_rows_def List.map_filter_def)
  then have len: "int (length ?act) \<le> I64_MAX" using assms(3) by linarith
  note pass = complete_pass [OF perm len dated_rows_names [OF assms(2)], where n = EXPIRY_CACHE_SIZE]
  have "c = fst (expiry_apply_hydrated ?prep (int (length ?act)) ?over
      (if ?over = 0 then ExpiryReady else ExpiryOverflow) (Some cache))"
    using assms(6) by (auto simp: hydrate_expiry_from_db_def Let_def case_prod_beta split: if_splits)
  then obtain loaded where ap: "expiry_apply_hydrated ?prep (int (length ?act)) ?over
      (if ?over = 0 then ExpiryReady else ExpiryOverflow) (Some cache) = (c, loaded)"
    by (metis prod.collapse)
  have st: "expiry_state c = (if ?over = 0 then ExpiryReady else ExpiryOverflow)"
    using ap by (auto simp: expiry_apply_hydrated_def expiry_state_def Let_def case_prod_beta)
  have "expiry_opt_inv c \<and> expiry_coherent ?tab c" if z: "?over = 0"
  proof -
    note kept = pass(3) [OF z] and rs = pass(4) [OF z]
    have "map ex_username ?prep = map (encode_username \<circ> fst) ?sorted"
      unfolding kept by (simp add: case_prod_beta comp_def expiry_prepared_entry_def)
    then have dp: "distinct (map ex_username ?prep)" using distinct_encoded [OF distinct_perm [OF act(1) perm] rs] by simp
    have lp: "length ?prep \<le> EXPIRY_CACHE_SIZE" using pass(2) by simp
    have up: "\<forall>p \<in> set ?prep. slot_used (ex_username p) \<and> 0 \<le> ex_grace_remaining p"
      unfolding kept using rs by (auto simp: expiry_prepared_entry_def encode_used)
    note v = expiry_apply_hydrated_view [OF assms(5) dp lp up ap]
    have "expiry_opt_view c (encode_username u) = row_view (map_of ?tab u)" if u: "representable u" for u
    proof -
      have "expiry_opt_view c (encode_username u) = map_option (\<lambda>(must, gen, grace). (must, gen, max grace 0)) (map_of ?act u)"
        using v [of "encode_username u"] find_prepared [OF rs u] map_of_perm [OF act(1) perm] unfolding kept
        by (cases "map_of ?act u") (auto simp: expiry_opt_view_def expiry_prepared_entry_def)
      moreover have "map_of ?tab u = Some r \<Longrightarrow> er_grace_logins_remaining r \<noteq> None" for r
        using assms(4) by (auto dest: map_of_SomeD)
      ultimately show ?thesis
        unfolding act(2) by (cases "map_of ?tab u") (auto simp: row_view_def row_decision_def split: option.splits)
    qed
    then show ?thesis using v unfolding expiry_opt_inv_def expiry_coherent_def by blast
  qed
  then show ?thesis using st pass(1) by auto
qed

theorem hydrated_expiry_cache_is_table_witness:
  "\<exists>c stats. hydrate_expiry_from_db (plain_env 9) length True (ss_db dated_session) (Some expiry_cache_new) = (c, Inr stats)
     \<and> expiry_state c = ExpiryReady \<and> expiry_coherent (db_password_expiry (ss_db dated_session)) c"
proof -
  let ?d = "ss_db dated_session"
  have "\<exists>c stats. hydrate_expiry_from_db (plain_env 9) length True ?d (Some expiry_cache_new) = (c, Inr stats)"
    by (simp add: hydrate_expiry_from_db_def plain_env_def Let_def case_prod_beta)
  then obtain c stats where h: "hydrate_expiry_from_db (plain_env 9) length True ?d (Some expiry_cache_new) = (c, Inr stats)"
    by blast
  have "db_ok ?d" "\<forall>(u, r) \<in> set (db_password_expiry ?d). u = [] \<or> representable u"
    "int (length (db_password_expiry ?d)) \<le> I64_MAX" "\<forall>(u, r) \<in> set (db_password_expiry ?d). er_grace_logins_remaining r \<noteq> None"
    "length (xc_entries expiry_cache_new) = EXPIRY_CACHE_SIZE"
    by (simp_all add: dated_session_def db_ok_def empty_database_def representable_def LOCK_USERNAME_BYTES_def
        width_defs expiry_cache_new_def)
  note t = hydrated_expiry_cache_is_table [OF this h]
  have "length (dated_rows (db_password_expiry ?d)) \<le> EXPIRY_CACHE_SIZE" "map_of (dated_rows (db_password_expiry ?d)) [] = None"
    by (simp_all add: dated_session_def empty_database_def dated_rows_def List.map_filter_simps EXPIRY_CACHE_SIZE_def)
  with t h show ?thesis by (cases stats) simp
qed

text \<open>
  The exemption cache answers as the catalogue says. After a refresh a role is reported
  exempt if and only if its database-independent settings contain a true spelling of
  \<^verbatim>\<open>bypass_password_profile\<close>, so that a \<^verbatim>\<open>RESET\<close> takes effect; when more roles are exempt than the cache
  holds, it answers for no role at all.
\<close>

theorem bypass_refresh_matches_catalog:
  assumes "\<forall>(r, cfgs) \<in> set settings. representable r" and "int (length settings) \<le> I64_MAX"
    and "length (bc_entries cache) = BYPASS_CACHE_SIZE" and "representable u"
    and "refresh_bypass_cache env settings (Some cache) = (c, Inr stats)"
  shows "bypass_lookup u c =
    (if BYPASS_CACHE_SIZE < length (exempt_roles settings) then BypassUnavailable
     else if \<exists>cfgs. (u, cfgs) \<in> set settings \<and> (\<exists>cfg \<in> set cfgs. bypass_match cfg) then Bypassed
     else NotBypassed)"
proof -
  let ?ex = "exempt_roles settings"
  let ?kept = "filter (\<lambda>u. u \<noteq> []) (take BYPASS_CACHE_SIZE (sort ?ex))"
  let ?over = "pass_overflow (int (length ?ex)) (length (map bypass_prepared_entry ?kept))"
  have rep: "\<forall>n \<in> set ?ex. representable n" using assms(1) by (auto simp: exempt_roles_def)
  have perm: "mset (sort ?ex) = mset ?ex" by simp
  have "length ?ex \<le> length settings" by (simp add: exempt_roles_def)
  then have len: "int (length ?ex) \<le> I64_MAX" using assms(2) by linarith
  have over: "?over = 0 \<longleftrightarrow> length ?ex \<le> BYPASS_CACHE_SIZE"
    using pass_overflow_zero [OF len perm, of "\<lambda>u. u \<noteq> []" BYPASS_CACHE_SIZE] rep by (auto simp: representable_def)
  have "c = fst (apply_refreshed (map bypass_prepared_entry ?kept) (int (length ?ex)) ?over
      (if ?over = 0 then BypassReady else BypassOverflow) (Some cache))"
    using assms(5) by (auto simp: refresh_bypass_cache_def Let_def case_prod_beta split: if_splits)
  then obtain loaded where ap: "apply_refreshed (map bypass_prepared_entry ?kept) (int (length ?ex)) ?over
      (if ?over = 0 then BypassReady else BypassOverflow) (Some cache) = (c, loaded)" by (metis prod.collapse)
  have kl: "length ?kept \<le> BYPASS_CACHE_SIZE" by (simp add: le_trans [OF length_filter_le])
  have kr: "\<forall>n \<in> set ?kept. representable n" using rep by (auto dest: in_set_takeD)
  note l = bypass_lookup_after_refresh [OF assms(3) kl kr assms(4) ap]
  have "u \<in> set ?ex \<longleftrightarrow> (\<exists>cfgs. (u, cfgs) \<in> set settings \<and> (\<exists>cfg \<in> set cfgs. bypass_match cfg))"
    by (force simp: exempt_roles_def list_ex_iff)
  moreover have "?kept = sort ?ex" if "length ?ex \<le> BYPASS_CACHE_SIZE"
    using that rep by (auto simp: filter_id_conv representable_def)
  ultimately show ?thesis using l over by (cases "length ?ex \<le> BYPASS_CACHE_SIZE") auto
qed

theorem bypass_refresh_matches_catalog_witness:
  "bypass_lookup [0x61] (fst (refresh_bypass_cache (plain_env 9)
     [([0x61], [''password_profile.bypass_password_profile=ON''])] (Some bypass_cache_new))) = Bypassed"
proof -
  let ?set = "[([0x61 :: byte], [''password_profile.bypass_password_profile=ON''])]"
  have "\<exists>c stats. refresh_bypass_cache (plain_env 9) ?set (Some bypass_cache_new) = (c, Inr stats)"
    by (simp add: refresh_bypass_cache_def plain_env_def Let_def case_prod_beta)
  then obtain c stats where r: "refresh_bypass_cache (plain_env 9) ?set (Some bypass_cache_new) = (c, Inr stats)" by blast
  have m: "bypass_match ''password_profile.bypass_password_profile=ON''" by code_simp
  have "length (exempt_roles ?set) \<le> BYPASS_CACHE_SIZE" using m by (simp add: exempt_roles_def BYPASS_CACHE_SIZE_def)
  with bypass_refresh_matches_catalog [OF _ _ _ _ r, of "[0x61]"] m r show ?thesis
    by (simp add: representable_def LOCK_USERNAME_BYTES_def width_defs bypass_cache_new_def)
qed

end
