(* ===== verification/Worker_Txn.thy ===== *)
theory Worker_Txn
  imports Hydration
begin

text \<open>
  One authentication event in the worker of \<^verbatim>\<open>worker.rs\<close>: the receipt that makes its replay harmless,
  the transaction that applies it and stages the acknowledgement, which caches a failing event marks
  unavailable and what a later success restores, and the delay between attempts. The committed
  database, the transaction-local staging area and shared memory form the record \<open>world\<close>.
\<close>

section \<open>Operations\<close>

text \<open>Durations are milliseconds.\<close>

definition HYDRATION_RETRY_MIN :: nat where "HYDRATION_RETRY_MIN = 500"
definition HYDRATION_RETRY_MAX :: nat where "HYDRATION_RETRY_MAX = 30000"

text \<open>\<open>wd_applied\<close> is a history variable: the events whose effect has been committed, in order.\<close>

record world =
  wd_db :: database
  wd_pending :: PendingState
  wd_shm :: shm
  wd_applied :: "byte list list"

definition insert_event_receipt :: "db_env \<Rightarrow> byte list \<Rightarrow> session \<Rightarrow> bool db_result" where
  "insert_event_receipt env event_id s =
     spi env ''insert receipt'' (\<lambda>s.
       if map_of (db_auth_event_receipts (ss_db s)) event_id \<noteq> None then (s, Inr False)
       else (s\<lparr>ss_db := (ss_db s)\<lparr>db_auth_event_receipts :=
               AList.update event_id (de_clock env) (db_auth_event_receipts (ss_db s))\<rparr>\<rparr>, Inr True)) s"

definition apply_worker_lock_timeout :: "db_env \<Rightarrow> (session \<Rightarrow> 'a db_result) \<Rightarrow> session \<Rightarrow> 'a db_result" where
  "apply_worker_lock_timeout env rest s = spi env ''set local lock_timeout'' rest s"

text \<open>What a transaction meets: its statements, the catalogue, and whether start and commit succeed.\<close>

record txn_env =
  te_db :: db_env
  te_catalog :: pg_catalog
  te_ext :: pg_ext
  te_start_ok :: bool
  te_commit_ok :: bool
  te_commit_clock :: "nat \<Rightarrow> timestamp"

definition clear_if_flagged :: "db_env \<Rightarrow> EventFlags \<Rightarrow> username \<Rightarrow> session \<Rightarrow> unit db_result" where
  "clear_if_flagged env flags username s =
     (if clear_login_attempts flags then clear_login_attempts_internal env username False s else (s, Inr ()))"

definition apply_event ::
  "txn_env \<Rightarrow> guc \<Rightarrow> username \<Rightarrow> EventKind \<Rightarrow> EventFlags \<Rightarrow> timestamp \<Rightarrow> session \<Rightarrow> unit db_result" where
  "apply_event te g username kind flags generation s =
     (case kind of
        Failure \<Rightarrow>
          (case record_failed_login (te_db te) (te_catalog te) g username s of
             (s1, Inl e) \<Rightarrow> (s1, Inl e) | (s1, Inr _) \<Rightarrow> (s1, Inr ()))
      | Success \<Rightarrow> clear_if_flagged (te_db te) flags username s
      | GraceConsumed \<Rightarrow>
          (case persist_grace_consumption (te_db te) (te_ext te) username generation s of
             (s1, Inl e) \<Rightarrow> (s1, Inl e)
           | (s1, Inr _) \<Rightarrow> clear_if_flagged (te_db te) flags username s1))"

definition event_body ::
  "txn_env \<Rightarrow> guc \<Rightarrow> byte list \<Rightarrow> username \<Rightarrow> EventKind \<Rightarrow> EventFlags \<Rightarrow> timestamp \<Rightarrow> session \<Rightarrow> unit db_result" where
  "event_body te g event_id username kind flags generation s =
     apply_worker_lock_timeout (te_db te) (\<lambda>s.
       case insert_event_receipt (te_db te) event_id s of
         (s1, Inl e) \<Rightarrow> (s1, Inl e)
       | (s1, Inr is_new) \<Rightarrow>
           if \<not> is_new then (s1, Inr ()) else apply_event te g username kind flags generation s1) s"

datatype EventTxnOutcome = Committed | RolledBack string | PostgresError

definition abort_current_transaction :: "PendingState \<Rightarrow> world \<Rightarrow> world" where
  "abort_current_transaction pending w =
     (case xact_callback (\<lambda>_. 0) XactAbort (pending, wd_shm w) of
        Inr (p, sh) \<Rightarrow> w\<lparr>wd_pending := p, wd_shm := sh\<rparr>
      | Inl _ \<Rightarrow> w)"

definition run_event_transaction ::
  "txn_env \<Rightarrow> guc \<Rightarrow> byte list \<Rightarrow> username \<Rightarrow> EventKind \<Rightarrow> EventFlags \<Rightarrow> timestamp \<Rightarrow> ClaimToken option
    \<Rightarrow> world \<Rightarrow> world \<times> EventTxnOutcome" where
  "run_event_transaction te g event_id username kind flags generation token w =
     (if \<not> te_start_ok te then (abort_current_transaction (wd_pending w) w, PostgresError)
      else
        case event_body te g event_id username kind flags generation
               \<lparr>ss_db = wd_db w, ss_pending = wd_pending w\<rparr> of
          (s, Inl (DbError detail)) \<Rightarrow> (abort_current_transaction (ss_pending s) w, RolledBack detail)
        | (s, Inl (SpiError _)) \<Rightarrow> (abort_current_transaction (ss_pending s) w, PostgresError)
        | (s, Inr _) \<Rightarrow>
            let pending = (case token of
                  None \<Rightarrow> ss_pending s | Some tk \<Rightarrow> stage_ack (de_subid (te_db te)) tk (ss_pending s));
                fresh = (map_of (db_auth_event_receipts (wd_db w)) event_id = None)
            in if \<not> te_commit_ok te then (abort_current_transaction pending w, PostgresError)
               else case xact_callback (te_commit_clock te) XactCommit (pending, wd_shm w) of
                      Inr (p, sh) \<Rightarrow>
                        (\<lparr>wd_db = ss_db s, wd_pending = p, wd_shm = sh,
                          wd_applied = wd_applied w @ (if fresh then [event_id] else [])\<rparr>, Committed)
                    | Inl _ \<Rightarrow> (abort_current_transaction pending w, PostgresError))"

subsection \<open>Which caches an event concerns\<close>

record AffectedCaches =
  ac_lock :: bool
  ac_expiry :: bool

definition for_event :: "EventKind \<Rightarrow> EventFlags \<Rightarrow> AffectedCaches" where
  "for_event kind flags =
     (case kind of
        GraceConsumed \<Rightarrow> \<lparr>ac_lock = clear_login_attempts flags, ac_expiry = True\<rparr>
      | _ \<Rightarrow> \<lparr>ac_lock = True, ac_expiry = False\<rparr>)"

record DegradedByRetry =
  dg_lock :: bool
  dg_expiry :: bool

definition degraded_none :: DegradedByRetry where
  "degraded_none = \<lparr>dg_lock = False, dg_expiry = False\<rparr>"

definition degraded_mark :: "AffectedCaches \<Rightarrow> DegradedByRetry \<times> shm \<Rightarrow> DegradedByRetry \<times> shm" where
  "degraded_mark affects ds =
     (let (dg, s) = ds;
          (dg1, s1) =
            (if ac_lock affects \<and> \<not> dg_lock dg \<and> lock_state (sh_lock s) = Ready
             then (dg\<lparr>dg_lock := True\<rparr>, s\<lparr>sh_lock := lock_set_state WorkerFailed (sh_lock s)\<rparr>)
             else (dg, s))
      in if ac_expiry affects \<and> \<not> dg_expiry dg1 \<and> expiry_state (sh_expiry s1) = ExpiryReady
         then (dg1\<lparr>dg_expiry := True\<rparr>, s1\<lparr>sh_expiry := expiry_set_state ExpiryWorkerFailed (sh_expiry s1)\<rparr>)
         else (dg1, s1))"

text \<open>The boolean is \<^verbatim>\<open>still_incomplete\<close>.\<close>

definition degraded_restore :: "DegradedByRetry \<times> shm \<Rightarrow> DegradedByRetry \<times> shm \<times> bool" where
  "degraded_restore ds =
     (let (dg, s) = ds;
          (s1, inc1) =
            (if dg_lock dg
             then case lock_state (sh_lock s) of
                    WorkerFailed \<Rightarrow> (s\<lparr>sh_lock := lock_set_state Ready (sh_lock s)\<rparr>, False)
                  | Ready \<Rightarrow> (s, False)
                  | _ \<Rightarrow> (s, True)
             else (s, False));
          (s2, inc2) =
            (if dg_expiry dg
             then case expiry_state (sh_expiry s1) of
                    ExpiryWorkerFailed \<Rightarrow> (s1\<lparr>sh_expiry := expiry_set_state ExpiryReady (sh_expiry s1)\<rparr>, inc1)
                  | ExpiryReady \<Rightarrow> (s1, inc1)
                  | _ \<Rightarrow> (s1, True)
             else (s1, inc1))
      in (dg\<lparr>dg_lock := False, dg_expiry := False\<rparr>, s2, inc2))"

definition event_failure_backoff :: "nat \<Rightarrow> nat" where
  "event_failure_backoff failures =
     (let shift = min (failures - 1) 16
      in min (min (HYDRATION_RETRY_MIN * 2 ^ shift) U64_MAX) HYDRATION_RETRY_MAX)"

section \<open>A transaction that does not commit changes nothing\<close>

lemma abort_simps [simp]:
  "wd_db (abort_current_transaction p w) = wd_db w" "wd_shm (abort_current_transaction p w) = wd_shm w"
  "wd_applied (abort_current_transaction p w) = wd_applied w"
  "wd_pending (abort_current_transaction p w) = pending_reset p"
  by (simp_all add: abort_current_transaction_def)

text \<open>
  The staging array keeps its size, so that the end of a transaction leaves it empty, and only the
  worker itself stages an acknowledgement.
\<close>

definition staging_frame :: "PendingState \<Rightarrow> nat \<times> PendingAck option" where
  "staging_frame st = (length (pn_entries st), pn_ack st)"

lemma pending_reset_new: "fst (staging_frame st) = MAX_PENDING_OPS \<Longrightarrow> pending_reset st = pending_new"
  by (simp add: pending_reset_def pending_new_def staging_frame_def map_replicate_const)

lemma staging_frame_new [simp]: "staging_frame pending_new = (MAX_PENDING_OPS, None)"
  by (simp add: staging_frame_def pending_new_def)

lemma stage_inner_size [simp]: "staging_frame (fst (stage_inner sub u d x st)) = staging_frame st"
  by (auto simp: stage_inner_def stage_entry_def staging_frame_def Let_def
      split: prod.splits sum.splits option.splits StageCapacityExceeded.splits if_splits)

lemma stage_size [simp]: "staging_frame (fst (stage sub u d st)) = staging_frame st"
  by (simp add: stage_def)

lemma stage_ack_size [simp]: "fst (staging_frame (stage_ack sub tk st)) = fst (staging_frame st)"
  by (simp add: stage_ack_def staging_frame_def)

lemma stage_then_size:
  assumes "staging_frame (fst st) = staging_frame (ss_pending s)"
    and "\<And>s1. ss_pending s1 = fst st \<Longrightarrow> staging_frame (ss_pending (fst (rest s1))) = staging_frame (ss_pending s1)"
  shows "staging_frame (ss_pending (fst (stage_then st rest s))) = staging_frame (ss_pending s)"
  using assms by (auto simp: stage_then_def split: prod.splits sum.splits)

lemma spi_size:
  assumes "staging_frame (ss_pending (fst (rest s))) = staging_frame (ss_pending s)"
  shows "staging_frame (ss_pending (fst (spi env q rest s))) = staging_frame (ss_pending s)"
  using assms by (simp add: spi_def)


lemma decision_from_db_pending [simp]: "ss_pending (fst (decision_from_db env u s)) = ss_pending s"
  by (simp add: decision_from_db_def spi_def)

lemma clear_size [simp]:
  "staging_frame (ss_pending (fst (clear_login_attempts_internal env u force s))) = staging_frame (ss_pending s)"
  unfolding clear_login_attempts_internal_def
  by (auto intro!: spi_size stage_then_size [THEN trans] simp: Let_def case_prod_beta
      split: nat.split option.split)

lemma record_failed_login_size [simp]:
  "staging_frame (ss_pending (fst (record_failed_login env cat g u s))) = staging_frame (ss_pending s)"
  unfolding record_failed_login_def
  by (auto intro!: spi_size [THEN trans] stage_then_size [THEN trans] simp: Let_def
      split: sum.split option.split prod.split dest!: arg_cong [where f = "\<lambda>p. ss_pending (fst p)"])

lemma persist_grace_size [simp]:
  "staging_frame (ss_pending (fst (persist_grace_consumption env px u gen s))) = staging_frame (ss_pending s)"
  by (auto simp: persist_grace_consumption_def spi_def Let_def case_prod_beta on_password_expiry_def
      split: option.split)


lemma apply_event_size [simp]:
  "staging_frame (ss_pending (fst (apply_event te g u k fl gen s))) = staging_frame (ss_pending s)"
  by (simp add: apply_event_def clear_if_flagged_def case_prod_beta split: EventKind.split sum.split)

lemma insert_event_receipt_pending [simp]: "ss_pending (fst (insert_event_receipt env i s)) = ss_pending s"
  by (simp add: insert_event_receipt_def spi_def)

lemma event_body_size [simp]:
  "staging_frame (ss_pending (fst (event_body te g i u k fl gen s))) = staging_frame (ss_pending s)"
  unfolding event_body_def apply_worker_lock_timeout_def
  by (intro spi_size) (simp add: case_prod_beta split: sum.split)

text \<open>Only the worker's own receipt statement writes the receipts.\<close>

lemma on_login_attempts_receipts [simp]:
  "db_auth_event_receipts (ss_db (on_login_attempts f s)) = db_auth_event_receipts (ss_db s)"
  by (simp add: on_login_attempts_def)

lemma on_password_expiry_receipts [simp]:
  "db_auth_event_receipts (ss_db (on_password_expiry f s)) = db_auth_event_receipts (ss_db s)"
  by (simp add: on_password_expiry_def)

lemma stage_then_db:
  assumes "\<And>s1. ss_db s1 = ss_db s \<Longrightarrow> P (ss_db (fst (rest s1)))" and "P (ss_db s)"
  shows "P (ss_db (fst (stage_then st rest s)))"
  using assms by (auto simp: stage_then_def split: prod.splits sum.splits)

lemma spi_db:
  assumes "P (ss_db (fst (rest s)))" and "P (ss_db s)"
  shows "P (ss_db (fst (spi env q rest s)))"
  using assms by (simp add: spi_def)

lemma decision_from_db_db [simp]: "ss_db (fst (decision_from_db env u s)) = ss_db s"
  by (simp add: decision_from_db_def spi_def)

lemma record_failed_login_receipts [simp]:
  "db_auth_event_receipts (ss_db (fst (record_failed_login env cat g u s))) = db_auth_event_receipts (ss_db s)"
  (is "?P (ss_db (fst (record_failed_login env cat g u s)))")
  unfolding record_failed_login_def
  by (auto intro!: spi_db [where P = ?P] stage_then_db [where P = ?P] simp: case_prod_beta
      split: sum.split option.split)

lemma clear_receipts [simp]:
  "db_auth_event_receipts (ss_db (fst (clear_login_attempts_internal env u force s))) = db_auth_event_receipts (ss_db s)"
  (is "?P (ss_db (fst (clear_login_attempts_internal env u force s)))")
  unfolding clear_login_attempts_internal_def
  by (auto intro!: spi_db [where P = ?P] stage_then_db [where P = ?P] simp: Let_def case_prod_beta
      split: nat.split option.split)

lemma persist_grace_receipts [simp]:
  "db_auth_event_receipts (ss_db (fst (persist_grace_consumption env px u gen s))) = db_auth_event_receipts (ss_db s)"
  by (auto simp: persist_grace_consumption_def spi_def Let_def case_prod_beta split: option.split)

lemma apply_event_receipts [simp]:
  "db_auth_event_receipts (ss_db (fst (apply_event te g u k fl gen s))) = db_auth_event_receipts (ss_db s)"
  by (simp add: apply_event_def clear_if_flagged_def case_prod_beta split: EventKind.split sum.split)

section \<open>Outcomes of the transaction\<close>

definition has_receipt :: "byte list \<Rightarrow> database \<Rightarrow> bool" where
  "has_receipt i d \<longleftrightarrow> map_of (db_auth_event_receipts d) i \<noteq> None"

definition receipted :: "db_env \<Rightarrow> byte list \<Rightarrow> database \<Rightarrow> database" where
  "receipted env i d = d\<lparr>db_auth_event_receipts := AList.update i (de_clock env) (db_auth_event_receipts d)\<rparr>"

lemma has_receipt_receipted [simp]: "has_receipt j (receipted env i d) \<longleftrightarrow> j = i \<or> has_receipt j d"
  by (auto simp: has_receipt_def receipted_def)

lemma event_body_cases:
  assumes "event_body te g i u k fl gen s = (s1, Inr x)"
  obtains (replay) "has_receipt i (ss_db s)" "s1 = s"
  | (fresh) "\<not> has_receipt i (ss_db s)"
      "apply_event te g u k fl gen (s\<lparr>ss_db := receipted (te_db te) i (ss_db s)\<rparr>) = (s1, Inr ())"
  using assms
  by (auto simp: event_body_def apply_worker_lock_timeout_def spi_def insert_event_receipt_def has_receipt_def
      receipted_def split: if_splits)

text \<open>\<open>acked\<close>: the acknowledgement the commit callback performs.\<close>

definition acked :: "ClaimToken option \<Rightarrow> shm \<Rightarrow> shm" where
  "acked token s = (case token of None \<Rightarrow> s | Some tk \<Rightarrow> s\<lparr>sh_auth := fst (ack_claim tk (sh_auth s))\<rparr>)"

lemma live_stage_ack [simp]: "live (stage_ack sub tk st) = live st"
  by (simp add: live_def stage_ack_def)

lemma run_event_transaction_cases:
  assumes "run_event_transaction te g i u k fl gen token w = (w1, res)" and "pn_ack (wd_pending w) = None"
  obtains (aborted) "res \<noteq> Committed" "wd_db w1 = wd_db w" "wd_shm w1 = wd_shm w" "wd_applied w1 = wd_applied w"
  | (replay) "res = Committed" "has_receipt i (wd_db w)" "wd_db w1 = wd_db w" "wd_applied w1 = wd_applied w"
      "wd_shm w1 = acked token (apply_all (te_commit_clock te) (wd_pending w) (wd_shm w))"
  | (fresh) s1 where "res = Committed" "\<not> has_receipt i (wd_db w)" "wd_applied w1 = wd_applied w @ [i]"
      "apply_event te g u k fl gen \<lparr>ss_db = receipted (te_db te) i (wd_db w), ss_pending = wd_pending w\<rparr> = (s1, Inr ())"
      "wd_db w1 = ss_db s1"
proof (cases "res = Committed")
  case False
  then have "wd_db w1 = wd_db w \<and> wd_shm w1 = wd_shm w \<and> wd_applied w1 = wd_applied w"
    using assms(1) by (auto simp: run_event_transaction_def Let_def split: if_splits prod.splits sum.splits db_error.splits)
  then show ?thesis using aborted False by blast
next
  case True
  let ?s = "\<lparr>ss_db = wd_db w, ss_pending = wd_pending w\<rparr>"
  obtain s1 x where b: "event_body te g i u k fl gen ?s = (s1, Inr x)"
    and w1: "wd_db w1 = ss_db s1" "wd_applied w1 = wd_applied w @ (if has_receipt i (wd_db w) then [] else [i])"
    and c: "Inr (wd_pending w1, wd_shm w1) = xact_callback (te_commit_clock te) XactCommit
      ((case token of None \<Rightarrow> ss_pending s1 | Some tk \<Rightarrow> stage_ack (de_subid (te_db te)) tk (ss_pending s1)), wd_shm w)"
    using assms(1) True
    by (auto simp: run_event_transaction_def Let_def has_receipt_def
        split: if_splits prod.splits sum.splits db_error.splits)
  show ?thesis
    using b
  proof (cases rule: event_body_cases)
    case replay
    have "wd_shm w1 = acked token (apply_all (te_commit_clock te) (wd_pending w) (wd_shm w))"
      using c replay(2) assms(2) by (cases token) (auto simp: acked_def Let_def apply_all_def stage_ack_def live_def)
    then show ?thesis using that(2) replay w1 True by simp
  next
    case fresh
    then show ?thesis using that(3) [of s1] w1 True by simp
  qed
qed

lemma run_event_commits:
  assumes "te_start_ok te" "te_commit_ok te"
    and "event_body te g i u k fl gen \<lparr>ss_db = wd_db w, ss_pending = wd_pending w\<rparr> = (s, Inr x)"
  shows "snd (run_event_transaction te g i u k fl gen token w) = Committed"
  using assms by (simp add: run_event_transaction_def Let_def)

lemma run_event_transaction_idle:
  assumes "fst (staging_frame (wd_pending w)) = MAX_PENDING_OPS"
  shows "wd_pending (fst (run_event_transaction te g i u k fl gen token w)) = pending_new"
  using assms
  by (simp add: run_event_transaction_def Let_def pending_reset_new case_prod_beta
      split: sum.split db_error.split option.split)


text \<open>
  Property C6: an event's transaction is all or nothing, and its replay is harmless. Unless it commits,
  the tables, every cache and the queue are as before. When it commits and the event has a receipt,
  the tables and the caches stay as they are and at most the acknowledgement happens; when it commits
  and there was no receipt, the committed tables are exactly those the operation of the event produces
  from the tables with the receipt added. The staging area is empty afterwards in every case.
\<close>
theorem event_transaction_all_or_nothing:
  assumes "run_event_transaction te g i u k fl gen token w = (w1, res)" and "wd_pending w = pending_new"
  shows "wd_pending w1 = pending_new
    \<and> (res \<noteq> Committed \<and> wd_db w1 = wd_db w \<and> wd_shm w1 = wd_shm w \<and> wd_applied w1 = wd_applied w
       \<or> res = Committed \<and> has_receipt i (wd_db w) \<and> wd_db w1 = wd_db w \<and> wd_applied w1 = wd_applied w
         \<and> wd_shm w1 = acked token (wd_shm w)
       \<or> res = Committed \<and> \<not> has_receipt i (wd_db w) \<and> has_receipt i (wd_db w1)
         \<and> wd_applied w1 = wd_applied w @ [i]
         \<and> (\<exists>s1. apply_event te g u k fl gen \<lparr>ss_db = receipted (te_db te) i (wd_db w), ss_pending = pending_new\<rparr>
                   = (s1, Inr ()) \<and> wd_db w1 = ss_db s1))"
proof -
  have "wd_pending w1 = pending_new"
    using run_event_transaction_idle [of w te g i u k fl gen token] assms
    by simp
  moreover have "pn_ack (wd_pending w) = None" using assms(2) by (simp add: pending_new_def)
  note assms(1) this
  then show ?thesis
  proof (cases rule: run_event_transaction_cases)
    case replay
    then show ?thesis using calculation assms(2) by (simp add: apply_all_def live_def pending_new_def)
  next
    case (fresh s1)
    have "db_auth_event_receipts (ss_db s1) = db_auth_event_receipts (receipted (te_db te) i (wd_db w))"
      using apply_event_receipts [of te g u k fl gen "\<lparr>ss_db = receipted (te_db te) i (wd_db w), ss_pending = wd_pending w\<rparr>"]
        fresh(4) by simp
    then have "has_receipt i (ss_db s1)" using has_receipt_receipted [of i "te_db te" i] by (simp add: has_receipt_def)
    then show ?thesis using fresh calculation assms(2) by auto
  qed (use calculation in simp)
qed

section \<open>Marking and restoring caches\<close>

lemma degraded_mark_lock:
  "dg_lock (fst (degraded_mark a (dg, s))) \<longleftrightarrow> dg_lock dg \<or> ac_lock a \<and> lock_state (sh_lock s) = Ready"
  "lock_state (sh_lock (snd (degraded_mark a (dg, s)))) =
     (if ac_lock a \<and> \<not> dg_lock dg \<and> lock_state (sh_lock s) = Ready then WorkerFailed else lock_state (sh_lock s))"
  by (auto simp: degraded_mark_def Let_def lock_state_def lock_set_state_def map_option_case split: option.splits)

lemma degraded_mark_expiry:
  "dg_expiry (fst (degraded_mark a (dg, s))) \<longleftrightarrow> dg_expiry dg \<or> ac_expiry a \<and> expiry_state (sh_expiry s) = ExpiryReady"
  "expiry_state (sh_expiry (snd (degraded_mark a (dg, s)))) =
     (if ac_expiry a \<and> \<not> dg_expiry dg \<and> expiry_state (sh_expiry s) = ExpiryReady
      then ExpiryWorkerFailed else expiry_state (sh_expiry s))"
  by (auto simp: degraded_mark_def Let_def expiry_state_def expiry_set_state_def map_option_case split: option.splits)

lemma degraded_restore_lock:
  "lock_state (sh_lock (fst (snd (degraded_restore (dg, s))))) =
     (if dg_lock dg \<and> lock_state (sh_lock s) = WorkerFailed then Ready else lock_state (sh_lock s))"
  by (auto simp: degraded_restore_def Let_def lock_state_def lock_set_state_def map_option_case
      split: option.splits CacheState.splits ExpiryCacheState.splits)

lemma degraded_restore_expiry:
  "expiry_state (sh_expiry (fst (snd (degraded_restore (dg, s))))) =
     (if dg_expiry dg \<and> expiry_state (sh_expiry s) = ExpiryWorkerFailed then ExpiryReady else expiry_state (sh_expiry s))"
  by (auto simp: degraded_restore_def Let_def expiry_state_def expiry_set_state_def map_option_case
      split: option.splits CacheState.splits ExpiryCacheState.splits)

lemma degraded_restore_incomplete:
  "snd (snd (degraded_restore (dg, s))) \<longleftrightarrow>
     dg_lock dg \<and> lock_state (sh_lock s) \<in> {NotReady, Overflow}
     \<or> dg_expiry dg \<and> expiry_state (sh_expiry s) \<in> {ExpiryNotReady, ExpiryOverflow}"
  by (cases "lock_state (sh_lock s)"; cases "expiry_state (sh_expiry s)")
    (auto simp: degraded_restore_def Let_def)


text \<open>A sequence of failing attempts: before each one other processes act, then the attempt marks its caches.\<close>

definition retry_marks :: "((shm \<Rightarrow> shm) \<times> AffectedCaches) list \<Rightarrow> shm \<Rightarrow> DegradedByRetry \<times> shm" where
  "retry_marks rs s0 = foldl (\<lambda>(dg, s) (others, a). degraded_mark a (dg, others s)) (degraded_none, s0) rs"

lemma retry_marks_snoc:
  "retry_marks (rs @ [(f, a)]) s0 = degraded_mark a (fst (retry_marks rs s0), f (snd (retry_marks rs s0)))"
  by (simp add: retry_marks_def case_prod_beta)

lemma retry_marked:
  assumes "\<And>dg s a. P (fst (degraded_mark a (dg, s))) \<longleftrightarrow> P dg \<or> Q a s" and "\<not> P degraded_none"
  shows "P (fst (retry_marks rs s0)) \<Longrightarrow> \<exists>rs1 f a rs2. rs = rs1 @ (f, a) # rs2 \<and> Q a (f (snd (retry_marks rs1 s0)))"
proof (induction rs rule: rev_induct)
  case (snoc x rs)
  obtain f a where x: "x = (f, a)" by fastforce
  show ?case
  proof (cases "P (fst (retry_marks rs s0))")
    case True
    then obtain rs1 f1 a1 rs2 where "rs = rs1 @ (f1, a1) # rs2" "Q a1 (f1 (snd (retry_marks rs1 s0)))"
      using snoc.IH by blast
    then have "rs @ [x] = rs1 @ (f1, a1) # (rs2 @ [x]) \<and> Q a1 (f1 (snd (retry_marks rs1 s0)))" by simp
    then show ?thesis by blast
  next
    case False
    then have "Q a (f (snd (retry_marks rs s0)))" using snoc.prems by (simp add: x retry_marks_snoc assms(1))
    then show ?thesis using x by blast
  qed
qed (use assms(2) in \<open>simp add: retry_marks_def\<close>)

lemmas retry_marked_lock = retry_marked [where P = dg_lock, OF degraded_mark_lock(1)]
lemmas retry_marked_expiry = retry_marked [where P = dg_expiry, OF degraded_mark_expiry(1)]

text \<open>
  Property C9: a success after failed attempts announces a cache complete only if these attempts had
  taken that cache out of service. Whatever other processes do before, between and after the attempts:
  when the restore turns a cache that is not Ready into Ready, the cache is still in the state the
  attempts left, and it was Ready at one of the attempts whose event concerns it; a recorded overflow
  or a missing hydration is left as it is, and reported when these attempts had marked the cache.
\<close>
theorem restore_announces_only_own_degradation:
  assumes "retry_marks rs s0 = (dg, s1)" and "degraded_restore (dg, s2) = (dg1, s3, incomplete)"
  shows "(lock_state (sh_lock s3) = Ready \<and> lock_state (sh_lock s2) \<noteq> Ready \<longrightarrow>
      lock_state (sh_lock s2) = WorkerFailed
      \<and> (\<exists>rs1 f a rs2. rs = rs1 @ (f, a) # rs2 \<and> ac_lock a
          \<and> lock_state (sh_lock (f (snd (retry_marks rs1 s0)))) = Ready))
    \<and> (expiry_state (sh_expiry s3) = ExpiryReady \<and> expiry_state (sh_expiry s2) \<noteq> ExpiryReady \<longrightarrow>
      expiry_state (sh_expiry s2) = ExpiryWorkerFailed
      \<and> (\<exists>rs1 f a rs2. rs = rs1 @ (f, a) # rs2 \<and> ac_expiry a
          \<and> expiry_state (sh_expiry (f (snd (retry_marks rs1 s0)))) = ExpiryReady))
    \<and> (lock_state (sh_lock s2) \<in> {NotReady, Overflow} \<longrightarrow>
      lock_state (sh_lock s3) = lock_state (sh_lock s2) \<and> (dg_lock dg \<longrightarrow> incomplete))
    \<and> (expiry_state (sh_expiry s2) \<in> {ExpiryNotReady, ExpiryOverflow} \<longrightarrow>
      expiry_state (sh_expiry s3) = expiry_state (sh_expiry s2) \<and> (dg_expiry dg \<longrightarrow> incomplete))"
  using degraded_restore_lock [of dg s2] degraded_restore_expiry [of dg s2] degraded_restore_incomplete [of dg s2]
    retry_marked_lock [of rs s0] retry_marked_expiry [of rs s0]
  unfolding assms by (auto simp: degraded_none_def)

text \<open>
  The delay between attempts starts at half a second, doubles with every further failure,
  never shrinks and never exceeds thirty seconds, for every value of the failure counter.
\<close>
theorem backoff_doubles_up_to_bound:
  "event_failure_backoff 1 = HYDRATION_RETRY_MIN
   \<and> event_failure_backoff (n + 1) = min (HYDRATION_RETRY_MIN * 2 ^ n) HYDRATION_RETRY_MAX
   \<and> event_failure_backoff n \<le> event_failure_backoff (n + 1)
   \<and> HYDRATION_RETRY_MIN \<le> event_failure_backoff n \<and> event_failure_backoff n \<le> HYDRATION_RETRY_MAX"
proof -
  have le: "(2::nat) ^ min m 16 \<le> 65536" for m
    using power_increasing [of "min m 16" 16 "2::nat"] by simp
  have b: "event_failure_backoff m = min (HYDRATION_RETRY_MIN * 2 ^ min (m - 1) 16) HYDRATION_RETRY_MAX" for m
    using le [of "m - 1"] by (simp add: event_failure_backoff_def Let_def HYDRATION_RETRY_MIN_def U64_MAX_def)
  have "(2::nat) ^ 16 \<le> 2 ^ n" if "16 \<le> n" using that by (rule power_increasing) simp
  then have e: "event_failure_backoff (n + 1) = min (HYDRATION_RETRY_MIN * 2 ^ n) HYDRATION_RETRY_MAX"
    unfolding b by (cases "16 \<le> n") (auto simp: HYDRATION_RETRY_MIN_def HYDRATION_RETRY_MAX_def min_def)
  have "(2::nat) ^ min (n - 1) 16 \<le> 2 ^ min n 16" by (rule power_increasing) auto
  then have "event_failure_backoff n \<le> event_failure_backoff (n + 1)" 
    unfolding b using mult_le_mono2 min.mono by (metis add_diff_cancel_right' order_refl)
  then show ?thesis
    using e b [of 1] b [of n] by (simp add: HYDRATION_RETRY_MIN_def HYDRATION_RETRY_MAX_def)
qed

text \<open>Concrete environments.\<close>

definition plain_txn :: "timestamp \<Rightarrow> txn_env" where
  "plain_txn t = \<lparr>te_db = plain_env t, te_catalog = plain_catalog, te_ext = plain_ext, te_start_ok = True,
     te_commit_ok = True, te_commit_clock = \<lambda>_. t\<rparr>"

definition fresh_world :: world where
  "fresh_world = \<lparr>wd_db = empty_database, wd_pending = pending_new, wd_shm = fresh_shm, wd_applied = []\<rparr>"

lemma plain_failure_commits:
  "\<exists>w1. run_event_transaction (plain_txn t) guc_default i [0x61] Failure flags_none 0 None fresh_world = (w1, Committed)"
proof -
  let ?s = "\<lparr>ss_db = receipted (plain_env t) i empty_database, ss_pending = pending_new\<rparr>"
  obtain s1 where "record_failed_login (plain_env t) plain_catalog guc_default [0x61] ?s = (s1, Inr ''Failed login recorded'')"
    using record_failed_login_returns [OF plain_env_good plain_catalog_tracked, of ?s "[0x61]" t guc_default]
    by (auto simp: receipted_def empty_database_def)
  then have "event_body (plain_txn t) guc_default i [0x61] Failure flags_none 0
      \<lparr>ss_db = empty_database, ss_pending = pending_new\<rparr> = (s1, Inr ())"
    by (simp add: event_body_def apply_worker_lock_timeout_def spi_def insert_event_receipt_def plain_txn_def
        plain_env_def apply_event_def empty_database_def receipted_def)
  then have "snd (run_event_transaction (plain_txn t) guc_default i [0x61] Failure flags_none 0 None fresh_world) = Committed"
    by (intro run_event_commits) (simp_all add: plain_txn_def fresh_world_def)
  then show ?thesis by (metis prod.collapse)
qed

theorem event_transaction_all_or_nothing_witness:
  "\<exists>w1 w2. run_event_transaction (plain_txn 5) guc_default [7] [0x61] Failure flags_none 0 None fresh_world = (w1, Committed)
     \<and> wd_applied w1 = [[7]] \<and> has_receipt [7] (wd_db w1)
     \<and> fst (run_event_transaction (plain_txn 6) guc_default [7] [0x61] Failure flags_none 0 None w1) = w2
     \<and> wd_db w2 = wd_db w1 \<and> wd_applied w2 = [[7]]"
proof -
  obtain w1 where r: "run_event_transaction (plain_txn 5) guc_default [7] [0x61] Failure flags_none 0 None fresh_world
      = (w1, Committed)" using plain_failure_commits by blast
  have "\<not> has_receipt [7] (wd_db fresh_world)" "wd_pending fresh_world = pending_new" "wd_applied fresh_world = []"
    by (simp_all add: fresh_world_def has_receipt_def empty_database_def)
  with event_transaction_all_or_nothing [OF r] have w1: "has_receipt [7] (wd_db w1)" "wd_applied w1 = [[7]]"
    "wd_pending w1 = pending_new" by auto
  obtain w2 res where r2: "run_event_transaction (plain_txn 6) guc_default [7] [0x61] Failure flags_none 0 None w1 = (w2, res)"
    by fastforce
  have "wd_db w2 = wd_db w1 \<and> wd_applied w2 = wd_applied w1"
    using event_transaction_all_or_nothing [OF r2 w1(3)] w1(1) by auto
  then show ?thesis using r r2 w1 by auto
qed

theorem restore_announces_only_own_degradation_witness:
  "lock_state (sh_lock (fst (snd (degraded_restore
      (fst (retry_marks [(id, for_event Failure flags_none)] (fresh_shm\<lparr>sh_lock := lock_set_state Ready (sh_lock fresh_shm)\<rparr>)),
       fresh_shm\<lparr>sh_lock := lock_set_state Overflow (sh_lock fresh_shm)\<rparr>))))) = Overflow"
proof -
  define s0 where "s0 = fresh_shm\<lparr>sh_lock := lock_set_state Ready (sh_lock fresh_shm)\<rparr>"
  define s2 where "s2 = fresh_shm\<lparr>sh_lock := lock_set_state Overflow (sh_lock fresh_shm)\<rparr>"
  obtain dg s1 where m: "retry_marks [(id, for_event Failure flags_none)] s0 = (dg, s1)" by fastforce
  obtain dg1 s3 inc where r: "degraded_restore (dg, s2) = (dg1, s3, inc)" by (metis prod_cases3)
  have "lock_state (sh_lock s2) = Overflow"
    by (simp add: s2_def lock_state_def lock_set_state_def fresh_shm_def cache_state_from_raw_def)
  then have "lock_state (sh_lock s3) = Overflow"
    using restore_announces_only_own_degradation [OF m r] by simp
  then show ?thesis using m r unfolding s0_def [symmetric] s2_def [symmetric] by simp
qed

end
