(* ===== verification/Worker_Loop.thy ===== *)
theory Worker_Loop
  imports Worker_Txn
begin

text \<open>
  The loops of the worker of \<^verbatim>\<open>worker.rs\<close>: hydration with retry, consumption of the journal, suspension
  on a corrupt queue, and the start and exit of the process. One iteration of each loop is a function;
  \<open>worker_step\<close> runs the iteration of the loop the worker is in. What an iteration meets (signals,
  clocks, outcomes of files, statements and waits, and what other processes did) is the record \<open>tick\<close>.
  Log messages are not modelled.
\<close>

section \<open>What an iteration meets\<close>

definition BYPASS_REFRESH_INTERVAL :: nat where "BYPASS_REFRESH_INTERVAL = 1000"

text \<open>A \<^verbatim>\<open>BackgroundWorker::transaction\<close>: its statements, and whether start and commit succeed.\<close>

record pass_env =
  pv_db :: db_env
  pv_start_ok :: bool
  pv_commit_ok :: bool

datatype cleanup = CleanupCommits | CleanupReturnsErr | CleanupRaises

text \<open>
  \<open>tk_others\<close> acts before the iteration, \<open>tk_during\<close> between the passes of a hydration attempt and the
  decision that follows them. \<open>tk_reload\<close> is the configuration a SIGHUP brings, \<open>tk_wait\<close> what
  \<^verbatim>\<open>wait_latch\<close> returns (false on shutdown), \<open>tk_instant\<close> the monotonic clock in milliseconds.
\<close>

record tick =
  tk_others :: "world \<Rightarrow> world"
  tk_during :: "world \<Rightarrow> world"
  tk_attach_ok :: bool
  tk_sigterm :: bool
  tk_reload :: "guc option"
  tk_now :: timestamp
  tk_after_wait :: timestamp
  tk_instant :: nat
  tk_wait :: bool
  tk_lock_pass :: pass_env
  tk_expiry_pass :: pass_env
  tk_bypass_pass :: pass_env
  tk_collate :: "username \<Rightarrow> nat"
  tk_attempts_installed :: bool
  tk_expiry_installed :: bool
  tk_role_settings :: "(username \<times> string list) list"
  tk_rotate :: rotate_io
  tk_reader :: reader_io
  tk_remove_ok :: bool
  tk_remove_sync_ok :: bool
  tk_cleanup :: cleanup
  tk_txn :: txn_env

section \<open>Hydration\<close>

datatype HydrationFailure = Reported string | HydrationPostgresError

text \<open>
  The error boundary around one hydration transaction: \<open>pass\<close> is what the body did to its cache. A
  returned error still commits; a raised one, or a failing start or commit, is a PostgreSQL error.
\<close>

definition hydration_boundary ::
  "pass_env \<Rightarrow> 'c \<Rightarrow> 'c \<times> (db_error + 'a) \<Rightarrow> 'c \<times> (HydrationFailure + 'a)" where
  "hydration_boundary pv c pass =
     (if \<not> pv_start_ok pv then (c, Inl HydrationPostgresError)
      else case pass of
        (c1, Inl (SpiError _)) \<Rightarrow> (c1, Inl HydrationPostgresError)
      | (c1, Inl (DbError msg)) \<Rightarrow> (c1, Inl (if pv_commit_ok pv then Reported msg else HydrationPostgresError))
      | (c1, Inr stats) \<Rightarrow> (c1, if pv_commit_ok pv then Inr stats else Inl HydrationPostgresError))"

definition on_shm :: "(shm \<Rightarrow> shm) \<Rightarrow> world \<Rightarrow> world" where
  "on_shm f w = w\<lparr>wd_shm := f (wd_shm w)\<rparr>"

definition run_hydration_transaction :: "tick \<Rightarrow> world \<Rightarrow> world \<times> (HydrationFailure + HydrationStats)" where
  "run_hydration_transaction t w =
     (let (c, r) = hydration_boundary (tk_lock_pass t) (sh_lock (wd_shm w))
            (hydrate_from_db (pv_db (tk_lock_pass t)) (tk_collate t) (tk_attempts_installed t) (wd_db w)
               (sh_lock (wd_shm w)))
      in (on_shm (\<lambda>s. s\<lparr>sh_lock := c\<rparr>) w, r))"

definition run_expiry_hydration_transaction :: "tick \<Rightarrow> world \<Rightarrow> world \<times> (HydrationFailure + int \<times> int \<times> int)" where
  "run_expiry_hydration_transaction t w =
     (let (c, r) = hydration_boundary (tk_expiry_pass t) (sh_expiry (wd_shm w))
            (hydrate_expiry_from_db (pv_db (tk_expiry_pass t)) (tk_collate t) (tk_expiry_installed t) (wd_db w)
               (sh_expiry (wd_shm w)))
      in (on_shm (\<lambda>s. s\<lparr>sh_expiry := c\<rparr>) w, r))"

definition run_bypass_refresh_transaction :: "tick \<Rightarrow> world \<Rightarrow> world \<times> (HydrationFailure + int \<times> int \<times> int)" where
  "run_bypass_refresh_transaction t w =
     (let (c, r) = hydration_boundary (tk_bypass_pass t) (sh_bypass (wd_shm w))
            (refresh_bypass_cache (pv_db (tk_bypass_pass t)) (tk_role_settings t) (sh_bypass (wd_shm w)))
      in (on_shm (\<lambda>s. s\<lparr>sh_bypass := c\<rparr>) w, r))"

text \<open>One attempt on each cache: the world, the failure counter and whether the cache may be used.\<close>

definition hydrate_lock_cache_once :: "tick \<Rightarrow> nat \<Rightarrow> world \<Rightarrow> world \<times> nat \<times> bool" where
  "hydrate_lock_cache_once t failures w =
     (case run_hydration_transaction t w of
        (w1, Inr stats) \<Rightarrow>
          if hs_overflow stats = 0 then (w1, failures, True) else (w1, saturating_inc_u32 failures, True)
      | (w1, Inl _) \<Rightarrow>
          (on_shm (\<lambda>s. s\<lparr>sh_lock := lock_set_state NotReady (sh_lock s)\<rparr>) w1, saturating_inc_u32 failures, False))"

definition hydrate_expiry_cache_once :: "tick \<Rightarrow> nat \<Rightarrow> world \<Rightarrow> world \<times> nat \<times> bool" where
  "hydrate_expiry_cache_once t failures w =
     (case run_expiry_hydration_transaction t w of
        (w1, Inr (rows, loaded, overflow)) \<Rightarrow>
          if overflow = 0 then (w1, failures, True) else (w1, saturating_inc_u32 failures, True)
      | (w1, Inl _) \<Rightarrow>
          (on_shm (\<lambda>s. s\<lparr>sh_expiry := expiry_set_state ExpiryNotReady (sh_expiry s)\<rparr>) w1,
           saturating_inc_u32 failures, False))"

definition refresh_bypass_cache_once :: "tick \<Rightarrow> nat \<Rightarrow> world \<Rightarrow> world \<times> nat \<times> bool" where
  "refresh_bypass_cache_once t failures w =
     (case run_bypass_refresh_transaction t w of
        (w1, Inr (rows, loaded, overflow)) \<Rightarrow>
          if overflow = 0 then (w1, failures, True) else (w1, saturating_inc_u32 failures, True)
      | (w1, Inl _) \<Rightarrow>
          (on_shm (\<lambda>s. s\<lparr>sh_bypass := bypass_set_state BypassNotReady (sh_bypass s)\<rparr>) w1,
           saturating_inc_u32 failures, False))"

definition on_health :: "(WorkerHealth option \<Rightarrow> WorkerHealth option) \<Rightarrow> world \<Rightarrow> world" where
  "on_health f = on_shm (\<lambda>s. s\<lparr>sh_auth := (sh_auth s)\<lparr>as_health := f (as_health (sh_auth s))\<rparr>\<rparr>)"

definition health_of :: "world \<Rightarrow> WorkerHealth option" where
  "health_of w = as_health (sh_auth (wd_shm w))"

definition clear_durable_degradation_if_quiet :: "timestamp \<Rightarrow> timestamp option \<Rightarrow> world \<Rightarrow> world" where
  "clear_durable_degradation_if_quiet now observed w =
     (case observed of
        None \<Rightarrow> w
      | Some since \<Rightarrow>
          if saturating_i64 (now - since) < DURABLE_QUIET_PERIOD_US then w
          else on_health (\<lambda>h. fst (clear_durable_degraded since h)) w)"

datatype hydration_flow = HydrationReady | HydrationShutdown | HydrationRetry nat nat

definition reload :: "tick \<Rightarrow> guc \<Rightarrow> guc" where
  "reload t g = (case tk_reload t of None \<Rightarrow> g | Some g1 \<Rightarrow> g1)"

text \<open>One iteration of \<^verbatim>\<open>hydrate_caches_with_retry\<close>, with its delay and its failure counter.\<close>

definition hydrate_attempt :: "tick \<Rightarrow> guc \<Rightarrow> nat \<Rightarrow> nat \<Rightarrow> world \<Rightarrow> guc \<times> world \<times> hydration_flow" where
  "hydrate_attempt t g retry_delay failures w =
     (let degraded_since = durable_degraded_since (health_of w)
      in if tk_sigterm t then (g, w, HydrationShutdown)
         else
           let g1 = reload t g;
               need_lock = lockout_enforcement_enabled g1;
               need_expiry = expiry_login_enforcement_active g1;
               need_bypass = (need_lock \<or> need_expiry);
               (w1, f1, lock_ok) = hydrate_lock_cache_once t failures w;
               (w2, f2, expiry_ok) = hydrate_expiry_cache_once t f1 w1;
               (w3, f3, bypass_ok) = refresh_bypass_cache_once t f2 w2;
               w4 = tk_during t w3
           in if (\<not> need_lock \<or> lock_ok) \<and> (\<not> need_expiry \<or> expiry_ok) \<and> (\<not> need_bypass \<or> bypass_ok)
              then (g1, clear_durable_degradation_if_quiet (tk_now t) degraded_since w4, HydrationReady)
              else if \<not> tk_wait t then (g1, w4, HydrationShutdown)
              else (g1, w4, HydrationRetry (min (retry_delay * 2) HYDRATION_RETRY_MAX) f3))"

section \<open>Consumption\<close>

datatype ConsumeOutcome = Shutdown | NeedsRehydration | QueueUnhealthy QueueState

datatype flow = Proceed | Continue | Return ConsumeOutcome | Unwind

record consumer =
  cs_event_failures :: nat
  cs_degraded :: DegradedByRetry
  cs_last_bypass_refresh :: nat
  cs_batch :: "JournalReader option"
  cs_pending_event :: "SharedAuthEvent option"
  cs_journal_io_failures :: nat

definition consumer_new :: "nat \<Rightarrow> consumer" where
  "consumer_new instant = \<lparr>cs_event_failures = 0, cs_degraded = degraded_none, cs_last_bypass_refresh = instant,
     cs_batch = None, cs_pending_event = None, cs_journal_io_failures = 0\<rparr>"

type_synonym iteration = "consumer \<times> world \<times> flow"

definition flow_then :: "iteration \<Rightarrow> (consumer \<Rightarrow> world \<Rightarrow> iteration) \<Rightarrow> iteration" where
  "flow_then r next = (case r of (cs, w, Proceed) \<Rightarrow> next cs w | _ \<Rightarrow> r)"

definition handle_journal_io_failure :: "tick \<Rightarrow> consumer \<Rightarrow> world \<Rightarrow> iteration" where
  "handle_journal_io_failure t cs w =
     (let w1 = on_health (mark_durable_failure (tk_now t)) w;
          cs1 = cs\<lparr>cs_journal_io_failures := saturating_inc_u32 (cs_journal_io_failures cs)\<rparr>
      in if \<not> tk_wait t then (cs1, w1, Return Shutdown)
         else (cs1, on_health (mark_durable_failure (tk_after_wait t)) w1, Continue))"

definition on_auth :: "(auth_shm \<Rightarrow> auth_shm) \<Rightarrow> world \<Rightarrow> world" where
  "on_auth f = on_shm (\<lambda>s. s\<lparr>sh_auth := f (sh_auth s)\<rparr>)"

definition journal_corrupt :: "consumer \<Rightarrow> world \<Rightarrow> iteration" where
  "journal_corrupt cs w = (cs, on_auth mark_corrupt w, Return (QueueUnhealthy Corrupt))"

text \<open>The checks at the head of the loop, after the signals: what stops consumption, if anything.\<close>

definition consume_gates :: "tick \<Rightarrow> guc \<Rightarrow> consumer \<Rightarrow> world \<Rightarrow> ConsumeOutcome option" where
  "consume_gates t g cs w =
     (let s = wd_shm w;
          need_lock = lockout_enforcement_enabled g;
          need_expiry = expiry_login_enforcement_active g;
          need_bypass = (need_lock \<or> need_expiry)
      in if queue_state (sh_auth s) = Corrupt then Some (QueueUnhealthy Corrupt)
         else if need_lock \<and> lock_state (sh_lock s) \<in> {NotReady, WorkerFailed}
              \<and> \<not> (dg_lock (cs_degraded cs) \<and> lock_state (sh_lock s) = WorkerFailed)
         then Some NeedsRehydration
         else if need_expiry \<and> expiry_state (sh_expiry s) \<in> {ExpiryNotReady, ExpiryWorkerFailed}
              \<and> \<not> (dg_expiry (cs_degraded cs) \<and> expiry_state (sh_expiry s) = ExpiryWorkerFailed)
         then Some NeedsRehydration
         else if need_bypass \<and> bypass_state (sh_bypass s) \<in> {BypassNotReady, BypassWorkerFailed}
         then Some NeedsRehydration
         else case durable_degraded_since (as_health (sh_auth s)) of
                Some since \<Rightarrow> if DURABLE_QUIET_PERIOD_US \<le> saturating_i64 (tk_now t - since)
                              then Some NeedsRehydration else None
              | None \<Rightarrow> None)"

definition consume_bypass_refresh :: "tick \<Rightarrow> guc \<Rightarrow> consumer \<Rightarrow> world \<Rightarrow> iteration" where
  "consume_bypass_refresh t g cs w =
     (if tk_instant t - cs_last_bypass_refresh cs < BYPASS_REFRESH_INTERVAL then (cs, w, Proceed)
      else
        let cs1 = cs\<lparr>cs_last_bypass_refresh := tk_instant t\<rparr>
        in case run_bypass_refresh_transaction t w of
             (w1, Inr _) \<Rightarrow> (cs1, w1, Proceed)
           | (w1, Inl _) \<Rightarrow>
               (cs1, on_shm (\<lambda>s. s\<lparr>sh_bypass := bypass_set_state BypassNotReady (sh_bypass s)\<rparr>) w1,
                if lockout_enforcement_enabled g \<or> expiry_login_enforcement_active g
                then Return NeedsRehydration else Proceed))"

definition on_journal :: "(journal_fs \<Rightarrow> journal_fs) \<Rightarrow> world \<Rightarrow> world" where
  "on_journal f = on_auth (\<lambda>a. a\<lparr>as_journal := f (as_journal a)\<rparr>)"

definition journal_of :: "world \<Rightarrow> journal_fs" where
  "journal_of w = as_journal (sh_auth (wd_shm w))"

definition open_batch :: "tick \<Rightarrow> consumer \<Rightarrow> world \<Rightarrow> iteration" where
  "open_batch t cs w =
     (case jf_processing (journal_of w) of
        None \<Rightarrow> handle_journal_io_failure t cs w
      | Some content \<Rightarrow>
          (case reader_open (tk_reader t) content of
             (content1, Inr reader) \<Rightarrow>
               (cs\<lparr>cs_journal_io_failures := 0, cs_batch := Some reader\<rparr>,
                on_journal (\<lambda>fs. fs\<lparr>jf_processing := Some content1\<rparr>) w, Proceed)
           | (content1, Inl (JournalCorrupt _)) \<Rightarrow>
               journal_corrupt cs (on_journal (\<lambda>fs. fs\<lparr>jf_processing := Some content1\<rparr>) w)
           | (content1, Inl (Io _)) \<Rightarrow>
               handle_journal_io_failure t cs (on_journal (\<lambda>fs. fs\<lparr>jf_processing := Some content1\<rparr>) w)))"

definition fetch_batch :: "tick \<Rightarrow> consumer \<Rightarrow> world \<Rightarrow> iteration" where
  "fetch_batch t cs w =
     (if cs_batch cs \<noteq> None then (cs, w, Proceed)
      else
        let (a, r) = rotate_journal (tk_rotate t) (sh_auth (wd_shm w));
            w1 = on_auth (\<lambda>_. a) w
        in case r of
             Inr True \<Rightarrow> open_batch t cs w1
           | Inr False \<Rightarrow> (cs, w1, if tk_wait t then Continue else Return Shutdown)
           | Inl (JournalCorrupt _) \<Rightarrow> journal_corrupt cs w1
           | Inl (Io _) \<Rightarrow> handle_journal_io_failure t cs w1)"

text \<open>
  The end of a batch: the processing file is removed, then its receipts are deleted in a transaction
  that has no error boundary.
\<close>

definition finish_batch :: "tick \<Rightarrow> consumer \<Rightarrow> world \<Rightarrow> iteration" where
  "finish_batch t cs w =
     (let cs1 = cs\<lparr>cs_batch := None\<rparr>;
          (fs, r) = remove_processing (tk_remove_ok t) (tk_remove_sync_ok t) (journal_of w);
          w1 = on_journal (\<lambda>_. fs) w
      in case r of
           Inr _ \<Rightarrow>
             let cs2 = cs1\<lparr>cs_journal_io_failures := 0\<rparr>
             in (case tk_cleanup t of
                   CleanupCommits \<Rightarrow> (cs2, w1\<lparr>wd_db := (wd_db w1)\<lparr>db_auth_event_receipts := []\<rparr>\<rparr>, Continue)
                 | CleanupReturnsErr \<Rightarrow> (cs2, w1, Continue)
                 | CleanupRaises \<Rightarrow> (cs2, w1, Unwind))
         | Inl (Io _) \<Rightarrow> handle_journal_io_failure t cs1 w1
         | Inl (JournalCorrupt _) \<Rightarrow> (cs1, w1, if tk_wait t then Continue else Return Shutdown))"

definition fetch_event :: "siphash \<Rightarrow> tick \<Rightarrow> consumer \<Rightarrow> world \<Rightarrow> iteration" where
  "fetch_event sip t cs w =
     (if cs_pending_event cs \<noteq> None then (cs, w, Proceed)
      else case cs_batch cs of
        None \<Rightarrow> (cs, w, Unwind)
      | Some reader \<Rightarrow>
          (case next_event sip (tk_reader t) reader of
             (rd, Inr (Some event)) \<Rightarrow>
               (cs\<lparr>cs_batch := Some rd, cs_journal_io_failures := 0, cs_pending_event := Some event\<rparr>, w, Proceed)
           | (rd, Inr None) \<Rightarrow> finish_batch t (cs\<lparr>cs_batch := Some rd\<rparr>) w
           | (rd, Inl (JournalCorrupt _)) \<Rightarrow> journal_corrupt (cs\<lparr>cs_batch := Some rd\<rparr>) w
           | (rd, Inl (Io _)) \<Rightarrow> handle_journal_io_failure t (cs\<lparr>cs_batch := Some rd\<rparr>) w))"

definition suspend_and_backoff :: "tick \<Rightarrow> AffectedCaches \<Rightarrow> consumer \<Rightarrow> world \<Rightarrow> iteration" where
  "suspend_and_backoff t affects cs w =
     (let (dg, s) = degraded_mark affects (cs_degraded cs, wd_shm w)
      in (cs\<lparr>cs_degraded := dg, cs_event_failures := saturating_inc_u32 (cs_event_failures cs)\<rparr>,
          w\<lparr>wd_shm := s\<rparr>, if tk_wait t then Continue else Return Shutdown))"

text \<open>The committed branch: the event is done, and a retry sequence that ends here restores its caches.\<close>

definition event_committed :: "consumer \<Rightarrow> world \<Rightarrow> iteration" where
  "event_committed cs w =
     (let cs1 = cs\<lparr>cs_pending_event := None\<rparr>
      in if 0 < cs_event_failures cs
         then let (dg, s, still_incomplete) = degraded_restore (cs_degraded cs, wd_shm w)
              in (cs1\<lparr>cs_degraded := dg, cs_event_failures := 0\<rparr>, w\<lparr>wd_shm := s\<rparr>,
                  if still_incomplete then Return NeedsRehydration else Continue)
         else (cs1, w, Continue))"

definition process_event :: "tick \<Rightarrow> guc \<Rightarrow> consumer \<Rightarrow> world \<Rightarrow> iteration" where
  "process_event t g cs w =
     (case cs_pending_event cs of
        None \<Rightarrow> (cs, w, Unwind)
      | Some event \<Rightarrow>
          let (a, token) = matching_claim (ev_event_id event) (sh_auth (wd_shm w));
              w1 = on_auth (\<lambda>_. a) w
          in case username_from_bytes (ev_username event) of
               None \<Rightarrow> journal_corrupt cs w1
             | Some username \<Rightarrow>
                 (case kind_from_raw (ev_kind event) of
                    None \<Rightarrow> journal_corrupt cs w1
                  | Some kind \<Rightarrow>
                      (case flags_from_raw (ev_flags event) of
                         None \<Rightarrow> journal_corrupt cs w1
                       | Some flags \<Rightarrow>
                           (case run_event_transaction (tk_txn t) g (ev_event_id event) username kind flags
                                   (ev_generation event) token w1 of
                              (w2, Committed) \<Rightarrow> event_committed cs w2
                            | (w2, _) \<Rightarrow> suspend_and_backoff t (for_event kind flags) cs w2))))"

text \<open>One iteration of \<^verbatim>\<open>consume_events\<close>.\<close>

definition consume_iteration :: "siphash \<Rightarrow> tick \<Rightarrow> guc \<Rightarrow> consumer \<Rightarrow> world \<Rightarrow> guc \<times> iteration" where
  "consume_iteration sip t g cs w =
     (if tk_sigterm t then (g, cs, w, Return Shutdown)
      else
        let g1 = reload t g
        in (g1, case consume_gates t g1 cs w of
                  Some outcome \<Rightarrow> (cs, w, Return outcome)
                | None \<Rightarrow>
                    flow_then (flow_then (flow_then (consume_bypass_refresh t g1 cs w) (fetch_batch t))
                      (fetch_event sip t)) (process_event t g1)))"

section \<open>The process\<close>

datatype WorkerExit = ExitNormal | ExitContained

datatype phase = Starting | Hydrating nat nat | Consuming consumer | Suspended nat | Stopped WorkerExit

record worker =
  wk_phase :: phase
  wk_guc :: guc
  wk_world :: world

text \<open>One iteration of \<^verbatim>\<open>suspend_on_unhealthy_queue\<close> with its report counter: \<open>Inl\<close> is its return value.\<close>

definition suspend_iteration :: "tick \<Rightarrow> guc \<Rightarrow> nat \<Rightarrow> world \<Rightarrow> guc \<times> (bool + nat)" where
  "suspend_iteration t g reports w =
     (if tk_sigterm t then (g, Inl False)
      else
        let g1 = reload t g
        in (g1, if queue_state (sh_auth (wd_shm w)) \<noteq> Corrupt then Inl True
                else if tk_wait t then Inr (saturating_inc_u32 reports) else Inl False))"

text \<open>The end of \<^verbatim>\<open>auth_event_consumer_main\<close>, after the guard has returned.\<close>

definition worker_exit :: "WorkerExit \<Rightarrow> world \<Rightarrow> world" where
  "worker_exit exit w =
     (let w1 = on_health (mark_stopped (case exit of ExitNormal \<Rightarrow> STOP_SHUTDOWN | ExitContained \<Rightarrow> STOP_CONTAINED)) w
      in on_shm (\<lambda>s.
           let s1 = (if lock_state (sh_lock s) = Ready
                 then s\<lparr>sh_lock := lock_set_state WorkerFailed (sh_lock s)\<rparr> else s);
               s2 = (if expiry_state (sh_expiry s1) = ExpiryReady
                 then s1\<lparr>sh_expiry := expiry_set_state ExpiryWorkerFailed (sh_expiry s1)\<rparr> else s1)
           in if bypass_state (sh_bypass s2) = BypassReady
              then s2\<lparr>sh_bypass := bypass_set_state BypassWorkerFailed (sh_bypass s2)\<rparr> else s2) w1)"

definition exit_with :: "WorkerExit \<Rightarrow> guc \<Rightarrow> world \<Rightarrow> worker" where
  "exit_with exit g w = \<lparr>wk_phase = Stopped exit, wk_guc = g, wk_world = worker_exit exit w\<rparr>"

text \<open>
  The loop of \<^verbatim>\<open>auth_event_consumer_impl\<close> inside the guard of \<^verbatim>\<open>auth_event_consumer_main\<close>: an error that
  unwinds aborts the open transaction and ends the worker.
\<close>

definition worker_step :: "siphash \<Rightarrow> tick \<Rightarrow> worker \<Rightarrow> worker" where
  "worker_step sip t wk =
     (let w = tk_others t (wk_world wk); g = wk_guc wk
      in case wk_phase wk of
           Starting \<Rightarrow>
             if tk_attach_ok t
             then \<lparr>wk_phase = Hydrating HYDRATION_RETRY_MIN 0, wk_guc = g, wk_world = on_health mark_running w\<rparr>
             else exit_with ExitContained g w
         | Hydrating retry_delay failures \<Rightarrow>
             (case hydrate_attempt t g retry_delay failures w of
                (g1, w1, HydrationReady) \<Rightarrow>
                  \<lparr>wk_phase = Consuming (consumer_new (tk_instant t)), wk_guc = g1, wk_world = w1\<rparr>
              | (g1, w1, HydrationShutdown) \<Rightarrow> exit_with ExitNormal g1 w1
              | (g1, w1, HydrationRetry d f) \<Rightarrow> \<lparr>wk_phase = Hydrating d f, wk_guc = g1, wk_world = w1\<rparr>)
         | Consuming cs \<Rightarrow>
             (case consume_iteration sip t g cs w of
                (g1, cs1, w1, Return Shutdown) \<Rightarrow> exit_with ExitNormal g1 w1
              | (g1, cs1, w1, Return NeedsRehydration) \<Rightarrow>
                  \<lparr>wk_phase = Hydrating HYDRATION_RETRY_MIN 0, wk_guc = g1, wk_world = w1\<rparr>
              | (g1, cs1, w1, Return (QueueUnhealthy q)) \<Rightarrow> \<lparr>wk_phase = Suspended 0, wk_guc = g1, wk_world = w1\<rparr>
              | (g1, cs1, w1, Unwind) \<Rightarrow> exit_with ExitContained g1 w1
              | (g1, cs1, w1, _) \<Rightarrow> \<lparr>wk_phase = Consuming cs1, wk_guc = g1, wk_world = w1\<rparr>)
         | Suspended reports \<Rightarrow>
             (case suspend_iteration t g reports w of
                (g1, Inl True) \<Rightarrow> \<lparr>wk_phase = Hydrating HYDRATION_RETRY_MIN 0, wk_guc = g1, wk_world = w\<rparr>
              | (g1, Inl False) \<Rightarrow> exit_with ExitNormal g1 w
              | (g1, Inr n) \<Rightarrow> \<lparr>wk_phase = Suspended n, wk_guc = g1, wk_world = w\<rparr>)
         | Stopped exit \<Rightarrow> wk\<lparr>wk_world := w\<rparr>)"

text \<open>
  A restart of the server: shared memory is created anew, the tables and the journal files stay, and
  the postmaster starts the worker with the configuration it has by then.
\<close>

definition server_restart :: "guc \<Rightarrow> worker \<Rightarrow> worker" where
  "server_restart g wk =
     \<lparr>wk_phase = Starting, wk_guc = g,
      wk_world = (wk_world wk)\<lparr>wd_pending := pending_new,
        wd_shm := \<lparr>sh_auth = \<lparr>as_lock = True, as_ring = Some ring_new, as_journal = journal_of (wk_world wk),
            as_health = Some health_new\<rparr>,
          sh_lock = Some lock_cache_new, sh_expiry = Some expiry_cache_new, sh_bypass = Some bypass_cache_new\<rparr>\<rparr>\<rparr>"

end
