(* ===== verification/Worker_Replay.thy ===== *)
theory Worker_Replay
  imports Worker_Loop
begin

text \<open>
  Exactly-once application of journaled events. The worker reads the processing file from its start
  after every interruption; receipts committed with the effects make the repetition harmless. The
  invariant relates the events applied so far, the receipts, the two journal files and the position of
  the reader; it holds through failing transactions, storage errors, rehydration, suspension, exits and
  restarts of the server, whatever the other processes do to the tables and the caches meanwhile.
\<close>

section \<open>Records of a journal file\<close>

definition record_id :: "byte list \<Rightarrow> nat \<Rightarrow> byte list" where
  "record_id c n = slice 4 20 (drop (n * RECORD_SIZE) c)"

definition record_ids :: "byte list \<Rightarrow> byte list list" where
  "record_ids c = map (record_id c) [0..<length c div RECORD_SIZE]"

definition file_ids :: "byte list option \<Rightarrow> byte list list" where
  "file_ids f = (case f of None \<Rightarrow> [] | Some c \<Rightarrow> record_ids c)"

definition cut_tail :: "byte list \<Rightarrow> byte list" where
  "cut_tail c = take (length c - length c mod RECORD_SIZE) c"

lemma length_record_ids [simp]: "length (record_ids c) = length c div RECORD_SIZE"
  by (simp add: record_ids_def)

lemma nth_record_ids [simp]: "n < length c div RECORD_SIZE \<Longrightarrow> record_ids c ! n = record_id c n"
  by (simp add: record_ids_def)

lemma file_ids_simps [simp]: "file_ids None = []" "file_ids (Some c) = record_ids c"
  by (simp_all add: file_ids_def)

lemma length_cut_tail: "length (cut_tail c) = RECORD_SIZE * (length c div RECORD_SIZE)"
  by (simp add: cut_tail_def minus_mod_eq_mult_div)

lemma cut_tail_dvd [simp]: "RECORD_SIZE dvd length (cut_tail c)"
  by (simp add: length_cut_tail)

lemma cut_tail_same: "RECORD_SIZE dvd length c \<Longrightarrow> cut_tail c = c"
  by (simp add: cut_tail_def)

lemma record_ids_cut [simp]: "record_ids (cut_tail c) = record_ids c"
proof (rule nth_equalityI)
  show len: "length (record_ids (cut_tail c)) = length (record_ids c)" by (simp add: length_cut_tail)
  fix n assume "n < length (record_ids (cut_tail c))"
  then have n: "n < length c div RECORD_SIZE" using len by simp
  then have "n * RECORD_SIZE + RECORD_SIZE \<le> RECORD_SIZE * (length c div RECORD_SIZE)"
    by (metis Suc_leI add.commute mult.commute mult_Suc mult_le_mono2)
  then have "n * RECORD_SIZE + 20 \<le> RECORD_SIZE * (length c div RECORD_SIZE)" by (simp add: RECORD_SIZE_def)
  moreover have "cut_tail c = take (RECORD_SIZE * (length c div RECORD_SIZE)) c"
    by (simp add: cut_tail_def minus_mod_eq_mult_div)
  ultimately have "record_id (cut_tail c) n = record_id c n"
    by (simp add: record_id_def slice_def drop_take min_def)
  then show "record_ids (cut_tail c) ! n = record_ids c ! n" using n len by simp
qed

lemma record_id_take: "record_id c n = slice 4 20 (take RECORD_SIZE (drop (n * RECORD_SIZE) c))"
  by (simp add: record_id_def slice_def RECORD_SIZE_def drop_take)

lemma decode_id: "decode sip bytes = Inr ev \<Longrightarrow> ev_event_id ev = slice 4 20 bytes"
  by (auto simp: decode_def Let_def split: if_splits)

section \<open>The invariant\<close>

text \<open>\<open>k\<close>: how many records of the processing file have been applied.\<close>

definition replay_ok :: "nat \<Rightarrow> byte list list \<Rightarrow> (byte list \<times> timestamp) list \<Rightarrow> journal_fs \<Rightarrow> bool" where
  "replay_ok k applied receipts fs \<longleftrightarrow>
     k \<le> length (file_ids (jf_processing fs))
     \<and> (\<exists>before. applied = before @ take k (file_ids (jf_processing fs)))
     \<and> (\<forall>i \<in> set (take k (file_ids (jf_processing fs))). map_of receipts i \<noteq> None)
     \<and> (\<forall>i. map_of receipts i \<noteq> None \<longrightarrow> i \<in> set applied)"

definition waiting :: "nat \<Rightarrow> journal_fs \<Rightarrow> byte list list" where
  "waiting k fs = drop k (file_ids (jf_processing fs)) @ file_ids (jf_active fs)"

text \<open>The reader of the current batch, and the event that waits for its transaction.\<close>

definition consumer_ok :: "nat \<Rightarrow> consumer \<Rightarrow> journal_fs \<Rightarrow> bool" where
  "consumer_ok k cs fs \<longleftrightarrow>
     (case cs_batch cs of
        None \<Rightarrow> cs_pending_event cs = None
      | Some rd \<Rightarrow> \<exists>c. jf_processing fs = Some c \<and> RECORD_SIZE dvd length c
          \<and> jr_complete_records rd = length c div RECORD_SIZE
          \<and> jr_read_records rd \<le> length c div RECORD_SIZE
          \<and> jr_inner rd = drop (jr_read_records rd * RECORD_SIZE) c
          \<and> (case cs_pending_event cs of
               None \<Rightarrow> jr_read_records rd \<le> k
             | Some ev \<Rightarrow> 0 < jr_read_records rd \<and> jr_read_records rd \<le> k + 1
                 \<and> ev_event_id ev = record_id c (jr_read_records rd - 1)))"

definition world_ok :: "byte list list \<Rightarrow> nat \<Rightarrow> world \<Rightarrow> bool" where
  "world_ok order k w \<longleftrightarrow> wd_pending w = pending_new
     \<and> replay_ok k (wd_applied w) (db_auth_event_receipts (wd_db w)) (journal_of w)
     \<and> wd_applied w @ waiting k (journal_of w) = order"

definition state_ok :: "byte list list \<Rightarrow> consumer \<Rightarrow> world \<Rightarrow> bool" where
  "state_ok order cs w \<longleftrightarrow> (\<exists>k. world_ok order k w \<and> consumer_ok k cs (journal_of w))"

definition iteration_ok :: "byte list list \<Rightarrow> iteration \<Rightarrow> bool" where
  "iteration_ok order r \<longleftrightarrow>
     (case r of (cs, w, fl) \<Rightarrow>
        if fl = Proceed \<or> fl = Continue then state_ok order cs w else \<exists>k. world_ok order k w)"

lemma state_ok_world: "state_ok order cs w \<Longrightarrow> \<exists>k. world_ok order k w"
  by (auto simp: state_ok_def)

lemma iteration_ok_simps [simp]:
  "iteration_ok order (cs, w, Proceed) = state_ok order cs w"
  "iteration_ok order (cs, w, Continue) = state_ok order cs w"
  by (simp_all add: iteration_ok_def)

lemma iteration_ok_stop:
  "iteration_ok order (cs, w, Return x) = (\<exists>k. world_ok order k w)"
  "iteration_ok order (cs, w, Unwind) = (\<exists>k. world_ok order k w)"
  by (simp_all add: iteration_ok_def)

lemma iteration_ok_state: "state_ok order cs w \<Longrightarrow> iteration_ok order (cs, w, fl)"
  using state_ok_world by (auto simp: iteration_ok_def)

definition worker_ok :: "byte list list \<Rightarrow> worker \<Rightarrow> bool" where
  "worker_ok order wk \<longleftrightarrow> (\<exists>k. world_ok order k (wk_world wk)
     \<and> (\<forall>cs. wk_phase wk = Consuming cs \<longrightarrow> consumer_ok k cs (journal_of (wk_world wk))))"

text \<open>What matters of the world: changes of the caches, the health words and the ring are invisible.\<close>

definition same_core :: "world \<Rightarrow> world \<Rightarrow> bool" where
  "same_core w w1 \<longleftrightarrow> wd_pending w1 = wd_pending w \<and> wd_applied w1 = wd_applied w
     \<and> db_auth_event_receipts (wd_db w1) = db_auth_event_receipts (wd_db w) \<and> journal_of w1 = journal_of w"

lemma same_core_refl [simp]: "same_core w w"
  by (simp add: same_core_def)

lemma same_core_trans [trans]: "same_core w w1 \<Longrightarrow> same_core w1 w2 \<Longrightarrow> same_core w w2"
  by (simp add: same_core_def)

lemma same_core_world_ok: "same_core w w1 \<Longrightarrow> world_ok order k w1 = world_ok order k w"
  by (simp add: same_core_def world_ok_def)

lemma same_core_on_shm:
  "(\<And>s. as_journal (sh_auth (f s)) = as_journal (sh_auth s)) \<Longrightarrow> same_core w (on_shm f w)"
  by (simp add: same_core_def on_shm_def journal_of_def)

lemma same_core_health [simp]: "same_core w (on_health f w)"
  by (auto simp: on_health_def intro: same_core_on_shm)

lemma same_core_auth:
  "as_journal (f (sh_auth (wd_shm w))) = as_journal (sh_auth (wd_shm w)) \<Longrightarrow> same_core w (on_auth f w)"
  by (simp add: same_core_def on_auth_def on_shm_def journal_of_def)

lemma state_ok_cong:
  assumes "same_core w w1" "cs_batch cs1 = cs_batch cs" "cs_pending_event cs1 = cs_pending_event cs"
  shows "state_ok order cs1 w1 = state_ok order cs w"
proof -
  have "consumer_ok k cs1 fs = consumer_ok k cs fs" for k fs unfolding consumer_ok_def assms(2,3) ..
  then show ?thesis
    using assms(1) unfolding state_ok_def by (simp add: same_core_world_ok) (simp add: same_core_def)
qed

section \<open>Preservation by the iterations\<close>

lemma handle_io_failure_ok:
  assumes "state_ok order cs w" shows "iteration_ok order (handle_journal_io_failure t cs w)"
proof -
  have "same_core w (on_health f (on_health h w))" for f h
    by (rule same_core_trans [OF same_core_health same_core_health])
  note state_ok_cong [OF this] state_ok_cong [OF same_core_health]
  then show ?thesis using assms by (auto simp: handle_journal_io_failure_def Let_def intro!: iteration_ok_state)
qed

lemma journal_corrupt_ok:
  assumes "world_ok order k w" shows "iteration_ok order (journal_corrupt cs w)"
proof -
  have "same_core w (on_auth mark_corrupt w)"
    by (rule same_core_auth) (simp add: mark_corrupt_def split: option.split)
  then show ?thesis using assms same_core_world_ok by (auto simp: journal_corrupt_def iteration_ok_stop)
qed

lemma flow_then_ok:
  assumes "iteration_ok order r" and "\<And>cs w. state_ok order cs w \<Longrightarrow> iteration_ok order (next cs w)"
  shows "iteration_ok order (flow_then r next)"
  using assms by (cases r) (auto simp: flow_then_def split: flow.split)

lemma consume_bypass_refresh_ok:
  assumes "state_ok order cs w" shows "iteration_ok order (consume_bypass_refresh t g cs w)"
proof -
  define w1 where "w1 = fst (run_bypass_refresh_transaction t w)"
  define w2 where "w2 = on_shm (\<lambda>s. s\<lparr>sh_bypass := bypass_set_state BypassNotReady (sh_bypass s)\<rparr>) w1"
  have c1: "same_core w w1"
    by (simp add: w1_def run_bypass_refresh_transaction_def case_prod_beta same_core_on_shm)
  have c2: "same_core w w2" unfolding w2_def by (rule same_core_trans [OF c1 same_core_on_shm]) simp
  have "state_ok order (cs\<lparr>cs_last_bypass_refresh := n\<rparr>) v" if "same_core w v" for v n
    using assms by (simp add: state_ok_cong [OF that])
  from this [OF c1] this [OF c2] show ?thesis
    using assms unfolding consume_bypass_refresh_def w2_def w1_def
    by (auto simp: case_prod_beta Let_def intro!: iteration_ok_state split: sum.split)
qed

lemma world_ok_journal:
  assumes "world_ok order k w" "file_ids (jf_processing fs) = file_ids (jf_processing (journal_of w))"
    and "file_ids (jf_active fs) = file_ids (jf_active (journal_of w))"
  shows "world_ok order k (on_journal (\<lambda>_. fs) w)"
  using assms
  by (simp add: world_ok_def replay_ok_def waiting_def on_journal_def on_auth_def on_shm_def journal_of_def)

lemma journal_of_on_journal [simp]: "journal_of (on_journal f w) = f (journal_of w)"
  by (simp add: journal_of_def on_journal_def on_auth_def on_shm_def)

lemma on_journal_const: "on_journal f w = on_journal (\<lambda>_. f (journal_of w)) w"
  by (simp add: journal_of_def on_journal_def on_auth_def on_shm_def)

lemma reader_open_content:
  "reader_open io c = (c1, r) \<Longrightarrow> c1 = c \<or> c1 = cut_tail c"
  by (auto simp: reader_open_def cut_tail_def Let_def split: option.splits if_splits)

lemma reader_open_reader:
  "reader_open io c = (c1, Inr rd) \<Longrightarrow> c1 = cut_tail c \<and> rd = \<lparr>jr_inner = c1,
     jr_complete_records = length c1 div RECORD_SIZE, jr_read_records = 0\<rparr>"
  by (auto simp: reader_open_def cut_tail_def Let_def minus_mod_eq_mult_div split: option.splits if_splits)

lemma open_batch_ok:
  assumes "state_ok order cs w" and "cs_batch cs = None"
  shows "iteration_ok order (open_batch t cs w)"
proof (cases "jf_processing (journal_of w)")
  case None
  then show ?thesis using handle_io_failure_ok [OF assms(1)] by (simp add: open_batch_def)
next
  case (Some c)
  obtain c1 r where r: "reader_open (tk_reader t) c = (c1, r)" by fastforce
  define w1 where "w1 = on_journal (\<lambda>fs. fs\<lparr>jf_processing := Some c1\<rparr>) w"
  obtain k where k: "world_ok order k w" "cs_pending_event cs = None"
    using assms by (auto simp: state_ok_def consumer_ok_def)
  have w1: "world_ok order k w1"
    unfolding w1_def by (subst on_journal_const, rule world_ok_journal [OF k(1)])
      (use Some reader_open_content [OF r] in auto)
  have ok: "state_ok order cs w1"
    using w1 k(2) assms(2) by (auto simp: state_ok_def consumer_ok_def)
  show ?thesis
  proof (cases r)
    case (Inl e)
    then show ?thesis
      using Some r handle_io_failure_ok [OF ok] journal_corrupt_ok [OF w1]
      by (cases e) (simp_all add: open_batch_def w1_def)
  next
    case (Inr rd)
    have "consumer_ok k (cs\<lparr>cs_journal_io_failures := 0, cs_batch := Some rd\<rparr>) (journal_of w1)"
      using reader_open_reader [OF r [unfolded Inr]] k(2) by (simp add: consumer_ok_def w1_def)
    then show ?thesis
      using Some r Inr w1 by (auto simp: open_batch_def w1_def state_ok_def)
  qed
qed

lemma rotate_world_ok:
  assumes "world_ok order k w" and "journal_rotate io (journal_of w) = (fs, r)"
  shows "\<exists>k. world_ok order k (on_journal (\<lambda>_. fs) w)"
proof (cases "fs = journal_of w")
  case True
  then show ?thesis using world_ok_journal [OF assms(1), of fs] by auto
next
  case False
  then obtain c where c: "jf_processing (journal_of w) = None" "jf_active (journal_of w) = Some c"
    "fs = (journal_of w)\<lparr>jf_active := None, jf_processing := Some c\<rparr>"
    using assms(2) by (auto simp: journal_rotate_def Let_def split: if_splits option.splits)
  have "world_ok order 0 (on_journal (\<lambda>_. fs) w)"
    using assms(1) c
    by (simp add: world_ok_def replay_ok_def waiting_def on_journal_def on_auth_def on_shm_def journal_of_def)
  then show ?thesis by blast
qed

lemma fetch_batch_ok:
  assumes "state_ok order cs w" shows "iteration_ok order (fetch_batch t cs w)"
proof (cases "cs_batch cs")
  case None
  obtain a r where ar: "rotate_journal (tk_rotate t) (sh_auth (wd_shm w)) = (a, r)" by fastforce
  define w1 where "w1 = on_auth (\<lambda>_. a) w"
  obtain k where k: "world_ok order k w" "cs_pending_event cs = None"
    using assms None by (auto simp: state_ok_def consumer_ok_def)
  have w1: "\<exists>k. world_ok order k w1"
  proof (cases "as_lock (sh_auth (wd_shm w))")
    case True
    then obtain fs where "journal_rotate (tk_rotate t) (journal_of w) = (fs, r)"
      "a = (sh_auth (wd_shm w))\<lparr>as_journal := fs\<rparr>"
      using ar by (auto simp: rotate_journal_def journal_of_def split: prod.splits)
    moreover then have "w1 = on_journal (\<lambda>_. fs) w"
      by (simp add: w1_def on_journal_def on_auth_def on_shm_def)
    ultimately show ?thesis using rotate_world_ok [OF k(1)] by simp
  next
    case False
    then have "w1 = w" using ar by (simp add: w1_def rotate_journal_def on_auth_def on_shm_def)
    then show ?thesis using k(1) by blast
  qed
  then have ok: "state_ok order cs w1"
    using k(2) None by (auto simp: state_ok_def consumer_ok_def)
  show ?thesis
    using None ar open_batch_ok [OF ok None] handle_io_failure_ok [OF ok] journal_corrupt_ok w1 ok
    by (auto simp: fetch_batch_def w1_def [symmetric] intro!: iteration_ok_state split: sum.split bool.split JournalError.split)
qed (use assms in \<open>simp add: fetch_batch_def\<close>)


lemma next_event_cases:
  assumes "consumer_ok k cs fs" "cs_batch cs = Some rd" "cs_pending_event cs = None"
    and "next_event sip io rd = (rd1, r)"
  obtains (finished) "r = Inr None" "rd1 = rd" "length (file_ids (jf_processing fs)) \<le> k"
  | (event) ev where "r = Inr (Some ev)" "consumer_ok k (cs\<lparr>cs_batch := Some rd1, cs_pending_event := Some ev\<rparr>) fs"
  | (corrupt) msg where "r = Inl (JournalCorrupt msg)"
  | (io) e where "r = Inl (Io e)" "rd1 = rd"
proof -
  obtain c where c: "jf_processing fs = Some c" "RECORD_SIZE dvd length c"
    "jr_complete_records rd = length c div RECORD_SIZE" "jr_read_records rd \<le> length c div RECORD_SIZE"
    "jr_inner rd = drop (jr_read_records rd * RECORD_SIZE) c" "jr_read_records rd \<le> k"
    using assms(1-3) by (auto simp: consumer_ok_def)
  let ?n = "jr_read_records rd"
  consider "?n = length c div RECORD_SIZE" | "?n < length c div RECORD_SIZE" "\<not> rd_read_ok io ?n"
    | "?n < length c div RECORD_SIZE" "rd_read_ok io ?n" using c(4) by fastforce
  then show ?thesis
  proof cases
    case 1
    then show ?thesis using assms(4) c finished by (simp add: next_event_def)
  next
    case 2
    then show ?thesis using assms(4) c io [of OtherIo] by (simp add: next_event_def)
  next
    case 3
    have "?n * RECORD_SIZE + RECORD_SIZE \<le> RECORD_SIZE * (length c div RECORD_SIZE)"
      using 3(1) by (metis Suc_leI add.commute mult.commute mult_Suc mult_le_mono2)
    then have "\<not> length (jr_inner rd) < RECORD_SIZE" using c(2,5) by simp
    then have n: "rd1 = rd\<lparr>jr_inner := drop RECORD_SIZE (jr_inner rd), jr_read_records := ?n + 1\<rparr>"
      "r = map_sum id Some (decode sip (take RECORD_SIZE (jr_inner rd)))"
      using assms(4) 3 c(3) by (simp_all add: next_event_def Let_def)
    show ?thesis
    proof (cases "decode sip (take RECORD_SIZE (jr_inner rd))")
      case (Inl e)
      then show ?thesis using n(2) corrupt by (auto simp: decode_def Let_def split: if_splits)
    next
      case (Inr ev)
      have "ev_event_id ev = record_id c ?n" using decode_id [OF Inr] c(5) by (simp add: record_id_take)
      then have "consumer_ok k (cs\<lparr>cs_batch := Some rd1, cs_pending_event := Some ev\<rparr>) fs"
        using c 3(1) n(1) by (simp add: consumer_ok_def add.commute)
      then show ?thesis using event n(2) Inr by simp
    qed
  qed
qed

lemma finish_batch_ok:
  assumes "world_ok order k w" "cs_pending_event cs = None" "length (file_ids (jf_processing (journal_of w))) \<le> k"
  shows "iteration_ok order (finish_batch t cs w)"
proof -
  obtain fs r where f: "remove_processing (tk_remove_ok t) (tk_remove_sync_ok t) (journal_of w) = (fs, r)" by fastforce
  define w1 where "w1 = on_journal (\<lambda>_. fs) w"
  define w2 where "w2 = w1\<lparr>wd_db := (wd_db w1)\<lparr>db_auth_event_receipts := []\<rparr>\<rparr>"
  have fs: "fs = journal_of w \<and> (\<exists>e. r = Inl e) \<or> fs = (journal_of w)\<lparr>jf_processing := None\<rparr>"
    using f by (auto simp: remove_processing_def Let_def split: if_splits)
  have "world_ok order 0 (on_journal (\<lambda>_. (journal_of w)\<lparr>jf_processing := None\<rparr>) w)"
    using assms(1,3)
    by (auto simp: world_ok_def replay_ok_def waiting_def on_journal_def on_auth_def on_shm_def journal_of_def)
  moreover have "world_ok order k (on_journal (\<lambda>_. journal_of w) w)" by (rule world_ok_journal [OF assms(1)]) simp_all
  ultimately have w1: "\<exists>k. world_ok order k w1"
    unfolding w1_def using fs by (elim disjE conjE) blast+
  then have ok1: "state_ok order (cs\<lparr>cs_batch := None\<rparr>) w1" "state_ok order (cs\<lparr>cs_batch := None, cs_journal_io_failures := 0\<rparr>) w1"
    using assms(2) by (auto simp: state_ok_def consumer_ok_def)
  have "world_ok order 0 w2" if "fs = (journal_of w)\<lparr>jf_processing := None\<rparr>"
    using assms(1,3) unfolding w2_def w1_def that
    by (auto simp: world_ok_def replay_ok_def waiting_def on_journal_def on_auth_def on_shm_def journal_of_def)
  then have ok2: "state_ok order (cs\<lparr>cs_batch := None, cs_journal_io_failures := 0\<rparr>) w2" if "\<exists>x. r = Inr x"
    using that fs assms(2) by (auto simp: state_ok_def consumer_ok_def)
  show ?thesis
    using f ok1 ok2 handle_io_failure_ok [OF ok1(1)]
    by (auto simp: finish_batch_def w1_def [symmetric] w2_def [symmetric] Let_def intro!: iteration_ok_state
        split: sum.split cleanup.split JournalError.split)
qed

lemma fetch_event_ok:
  assumes "state_ok order cs w" shows "iteration_ok order (fetch_event sip t cs w)"
proof (cases "cs_pending_event cs = None \<and> cs_batch cs \<noteq> None")
  case True
  then obtain rd where rd: "cs_batch cs = Some rd" "cs_pending_event cs = None" by auto
  obtain k where k: "world_ok order k w" "consumer_ok k cs (journal_of w)" using assms by (auto simp: state_ok_def)
  obtain rd1 r where r: "next_event sip (tk_reader t) rd = (rd1, r)" by fastforce
  from k(2) rd r show ?thesis
  proof (cases rule: next_event_cases)
    case finished
    have "cs_pending_event (cs\<lparr>cs_batch := Some rd1\<rparr>) = None" using rd by simp
    then show ?thesis using finish_batch_ok [OF k(1) _ finished(3)] r rd finished(1) by (simp add: fetch_event_def)
  next
    case (event ev)
    have "state_ok order (cs\<lparr>cs_batch := Some rd1, cs_journal_io_failures := 0, cs_pending_event := Some ev\<rparr>) w"
      using k(1) event(2) state_ok_cong [OF same_core_refl] unfolding state_ok_def consumer_ok_def by fastforce
    then show ?thesis using r rd event(1) by (simp add: fetch_event_def)
  next
    case (corrupt msg)
    then show ?thesis using journal_corrupt_ok [OF k(1)] r rd by (simp add: fetch_event_def)
  next
    case (io e)
    have "state_ok order (cs\<lparr>cs_batch := Some rd1\<rparr>) w"
      using assms io(2) rd(1) state_ok_cong [OF same_core_refl, of "cs\<lparr>cs_batch := Some rd1\<rparr>" cs] by simp
    then show ?thesis using handle_io_failure_ok r rd io(1) by (simp add: fetch_event_def)
  qed
qed (use assms in \<open>auto simp: fetch_event_def intro: iteration_ok_state\<close>)


subsection \<open>The event's transaction\<close>

lemma matching_claim_journal [simp]: "as_journal (fst (matching_claim i a)) = as_journal a"
  by (simp add: matching_claim_def claim_event_def case_prod_beta split: option.split)

lemma ack_claim_journal [simp]: "as_journal (fst (ack_claim tk a)) = as_journal a"
  by (simp add: ack_claim_def case_prod_beta Let_def split: option.split)

lemma apply_entries_auth [simp]: "sh_auth (apply_entries clock i es s) = sh_auth s"
  by (induction clock i es s rule: apply_entries.induct)
    (simp_all add: apply_entry_def Let_def split: option.split CacheDecision.split PendingExpiry.split)

lemma xact_commit_journal:
  "xact_callback clock XactCommit (p, s) = Inr (p1, s1) \<Longrightarrow> as_journal (sh_auth s1) = as_journal (sh_auth s)"
  by (auto simp: Let_def apply_all_def split: option.splits)

lemma run_event_transaction_journal [simp]:
  "journal_of (fst (run_event_transaction te g i u k fl gen token w)) = journal_of w"
  unfolding run_event_transaction_def journal_of_def
  by (auto simp: Let_def case_prod_beta simp del: xact_callback.simps dest!: xact_commit_journal
      split: sum.split db_error.split)

lemma receipts_after_apply:
  assumes "apply_event te g u k fl gen \<lparr>ss_db = receipted env i d, ss_pending = p\<rparr> = (s1, r)"
  shows "db_auth_event_receipts (ss_db s1) = AList.update i (de_clock env) (db_auth_event_receipts d)"
  using apply_event_receipts [of te g u k fl gen "\<lparr>ss_db = receipted env i d, ss_pending = p\<rparr>"]
  unfolding assms by (simp add: receipted_def)

text \<open>An event before the position of the reader has its receipt, the one at the position has none.\<close>

lemma receipt_of_position:
  assumes "world_ok order k w" and "distinct order" and "n < length (file_ids (jf_processing (journal_of w)))"
    and "i = file_ids (jf_processing (journal_of w)) ! n"
  shows "n < k \<Longrightarrow> has_receipt i (wd_db w)" and "n = k \<Longrightarrow> \<not> has_receipt i (wd_db w)"
proof -
  let ?P = "file_ids (jf_processing (journal_of w))" and ?A = "file_ids (jf_active (journal_of w))"
  show "has_receipt i (wd_db w)" if "n < k"
  proof -
    have "take k ?P ! n = i" "n < length (take k ?P)" using that assms(3,4) by simp_all
    then have "i \<in> set (take k ?P)" by (metis nth_mem)
    then show ?thesis using assms(1) by (auto simp: has_receipt_def world_ok_def replay_ok_def)
  qed
  show "\<not> has_receipt i (wd_db w)" if "n = k"
  proof -
    have "drop k ?P = i # drop (Suc k) ?P" using that assms(3,4) by (simp add: Cons_nth_drop_Suc)
    then have "distinct (wd_applied w @ i # drop (Suc k) ?P @ ?A)"
      using assms(1,2) by (simp add: world_ok_def waiting_def)
    then have "i \<notin> set (wd_applied w)" by simp
    then show ?thesis using assms(1) by (auto simp: has_receipt_def world_ok_def replay_ok_def)
  qed
qed

text \<open>The event of position \<open>n\<close> is applied when it is the next one, and skipped when it is an earlier one.\<close>

lemma event_transaction_progress:
  assumes "world_ok order k w" and "distinct order"
    and "n \<le> k" "n < length (file_ids (jf_processing (journal_of w)))"
    and "i = file_ids (jf_processing (journal_of w)) ! n"
    and "run_event_transaction te g i u knd fl gen token w = (w1, r)"
  shows "world_ok order (if r = Committed \<and> n = k then k + 1 else k) w1" and "journal_of w1 = journal_of w"
proof -
  let ?P = "file_ids (jf_processing (journal_of w))" and ?R = "db_auth_event_receipts (wd_db w)"
  show j: "journal_of w1 = journal_of w" using run_event_transaction_journal assms(6) by (metis fst_conv)
  have idle: "wd_pending w1 = pending_new"
    using run_event_transaction_idle [of w te g i u knd fl gen token] assms(1,6)
    by (simp add: world_ok_def)
  have pn: "pn_ack (wd_pending w) = None" using assms(1) by (simp add: world_ok_def pending_new_def)
  note receipt = receipt_of_position [OF assms(1,2,4,5)]
  show "world_ok order (if r = Committed \<and> n = k then k + 1 else k) w1"
    using assms(6) pn
  proof (cases rule: run_event_transaction_cases)
    case aborted
    then show ?thesis using assms(1) j idle by (simp add: world_ok_def)
  next
    case replay
    then have "n \<noteq> k" using receipt(2) by blast
    then show ?thesis using assms(1) j idle replay by (simp add: world_ok_def)
  next
    case (fresh s1)
    then have nk: "n = k" using receipt(1) assms(3) by (meson le_neq_implies_less)
    have rc: "db_auth_event_receipts (wd_db w1) = AList.update i (de_clock (te_db te)) ?R"
      using receipts_after_apply [OF fresh(4)] fresh(5) by simp
    have tk: "take (Suc k) ?P = take k ?P @ [i]" "drop k ?P = i # drop (Suc k) ?P"
      using nk assms(4,5) by (simp_all add: take_Suc_conv_app_nth Cons_nth_drop_Suc)
    have "replay_ok (Suc k) (wd_applied w1) (db_auth_event_receipts (wd_db w1)) (journal_of w1)"
      using assms(1,4) nk tk(1) unfolding world_ok_def replay_ok_def rc fresh(3) j by auto
    then show ?thesis
      using assms(1) nk tk(2) idle fresh(1,3) j by (simp add: world_ok_def waiting_def)
  qed
qed


lemma degraded_mark_auth [simp]: "sh_auth (snd (degraded_mark a ds)) = sh_auth (snd ds)"
  by (cases ds) (simp add: degraded_mark_def Let_def)

lemma degraded_restore_auth [simp]: "sh_auth (fst (snd (degraded_restore ds))) = sh_auth (snd ds)"
  by (cases ds) (simp add: degraded_restore_def Let_def split: CacheState.split ExpiryCacheState.split)

lemma same_core_shm:
  "as_journal (sh_auth s) = as_journal (sh_auth (wd_shm w)) \<Longrightarrow> same_core w (w\<lparr>wd_shm := s\<rparr>)"
  by (simp add: same_core_def journal_of_def)

lemma suspend_and_backoff_ok:
  assumes "state_ok order cs w" shows "iteration_ok order (suspend_and_backoff t a cs w)"
proof -
  obtain dg s where m: "degraded_mark a (cs_degraded cs, wd_shm w) = (dg, s)" by fastforce
  then have "sh_auth s = sh_auth (wd_shm w)" by (metis degraded_mark_auth snd_conv)
  then have "same_core w (w\<lparr>wd_shm := s\<rparr>)" by (intro same_core_shm) simp
  from state_ok_cong [OF this] show ?thesis
    using assms m by (auto simp: suspend_and_backoff_def intro!: iteration_ok_state)
qed

lemma event_committed_ok:
  assumes "state_ok order (cs\<lparr>cs_pending_event := None\<rparr>) w" shows "iteration_ok order (event_committed cs w)"
proof -
  obtain dg s inc where m: "degraded_restore (cs_degraded cs, wd_shm w) = (dg, s, inc)" by (metis prod_cases3)
  then have "sh_auth s = sh_auth (wd_shm w)" by (metis degraded_restore_auth fst_conv snd_conv)
  then have "same_core w (w\<lparr>wd_shm := s\<rparr>)" by (intro same_core_shm) simp
  from state_ok_cong [OF this, of _ "cs\<lparr>cs_pending_event := None\<rparr>"] show ?thesis
    using assms m by (auto simp: event_committed_def Let_def intro!: iteration_ok_state)
qed

lemma process_event_ok:
  assumes "state_ok order cs w" and "distinct order" shows "iteration_ok order (process_event t g cs w)"
proof (cases "cs_pending_event cs")
  case None
  then show ?thesis using assms(1) by (simp add: process_event_def iteration_ok_state)
next
  case (Some ev)
  obtain a token where m: "matching_claim (ev_event_id ev) (sh_auth (wd_shm w)) = (a, token)" by fastforce
  define w1 where "w1 = on_auth (\<lambda>_. a) w"
  have "as_journal a = as_journal (sh_auth (wd_shm w))" using m by (metis fst_conv matching_claim_journal)
  then have core: "same_core w w1" unfolding w1_def by (rule same_core_auth)
  obtain k where k: "world_ok order k w1" "consumer_ok k cs (journal_of w1)"
    using assms(1) state_ok_cong [OF core, of cs cs] by (auto simp: state_ok_def)
  obtain rd c where c: "cs_batch cs = Some rd" "jf_processing (journal_of w1) = Some c"
    "0 < jr_read_records rd" "jr_read_records rd \<le> k + 1" "jr_read_records rd \<le> length c div RECORD_SIZE"
    "ev_event_id ev = record_id c (jr_read_records rd - 1)"
    using k(2) Some by (auto simp: consumer_ok_def split: option.splits)
  have txn: "iteration_ok order (case run_event_transaction (tk_txn t) g (ev_event_id ev) u knd fl (ev_generation ev) token w1 of
      (w2, Committed) \<Rightarrow> event_committed cs w2 | (w2, _) \<Rightarrow> suspend_and_backoff t b cs w2)" for u knd fl b
  proof -
    obtain w2 r where r: "run_event_transaction (tk_txn t) g (ev_event_id ev) u knd fl (ev_generation ev) token w1 = (w2, r)"
      by fastforce
    let ?n = "jr_read_records rd - 1"
    have "ev_event_id ev = file_ids (jf_processing (journal_of w1)) ! ?n" using c by simp
    note p = event_transaction_progress [OF k(1) assms(2) _ _ this r]
    have w2: "world_ok order (if r = Committed \<and> ?n = k then k + 1 else k) w2" "journal_of w2 = journal_of w1"
      using p c by auto
    show ?thesis
    proof (cases "r = Committed")
      case True
      have "consumer_ok (if r = Committed \<and> ?n = k then k + 1 else k) (cs\<lparr>cs_pending_event := None\<rparr>) (journal_of w2)"
        using k(2) c True unfolding w2(2) by (auto simp: consumer_ok_def Some)
      then have "state_ok order (cs\<lparr>cs_pending_event := None\<rparr>) w2" using w2(1) by (auto simp: state_ok_def)
      then show ?thesis using event_committed_ok r True by simp
    next
      case False
      then have "state_ok order cs w2" using w2 k(2) by (auto simp: state_ok_def)
      then show ?thesis using suspend_and_backoff_ok r False by (cases r) simp_all
    qed
  qed
  show ?thesis
    using txn journal_corrupt_ok [OF k(1)] m
    by (simp add: process_event_def Some w1_def [symmetric] split: option.split)
qed

lemma consume_iteration_ok:
  assumes "state_ok order cs w" and "distinct order"
  shows "iteration_ok order (snd (consume_iteration sip t g cs w))"
proof -
  have "iteration_ok order (flow_then (flow_then (flow_then (consume_bypass_refresh t g1 cs w) (fetch_batch t))
      (fetch_event sip t)) (process_event t g1))" for g1
    by (intro flow_then_ok consume_bypass_refresh_ok fetch_batch_ok fetch_event_ok process_event_ok assms)
  then show ?thesis
    using assms(1) by (auto simp: consume_iteration_def Let_def intro!: iteration_ok_state split: option.split)
qed


section \<open>Preservation by the process\<close>

text \<open>
  What other processes may do: anything to the tables, the caches, the ring and the health words, but
  only the worker writes receipts and its own staging area. Backends append records to the active file
  (\<open>new\<close>); recovery may cut a torn tail off the processing file.
\<close>

definition rely :: "byte list list \<Rightarrow> world \<Rightarrow> world \<Rightarrow> bool" where
  "rely new w w1 \<longleftrightarrow> wd_pending w1 = wd_pending w \<and> wd_applied w1 = wd_applied w
     \<and> db_auth_event_receipts (wd_db w1) = db_auth_event_receipts (wd_db w)
     \<and> (jf_processing (journal_of w1) = jf_processing (journal_of w)
        \<or> jf_processing (journal_of w1) = map_option cut_tail (jf_processing (journal_of w)))
     \<and> file_ids (jf_active (journal_of w1)) = file_ids (jf_active (journal_of w)) @ new"

lemma rely_world_ok:
  assumes "rely new w w1" "world_ok order k w" shows "world_ok (order @ new) k w1"
proof -
  have "file_ids (jf_processing (journal_of w1)) = file_ids (jf_processing (journal_of w))"
    using assms(1) by (cases "jf_processing (journal_of w)") (auto simp: rely_def)
  then show ?thesis using assms by (auto simp: rely_def world_ok_def replay_ok_def waiting_def)
qed

lemma rely_consumer_ok:
  assumes "rely new w w1" "consumer_ok k cs (journal_of w)" shows "consumer_ok k cs (journal_of w1)"
proof (cases "cs_batch cs")
  case (Some rd)
  then obtain c where c: "jf_processing (journal_of w) = Some c" "RECORD_SIZE dvd length c"
    using assms(2) by (auto simp: consumer_ok_def)
  then have eq: "jf_processing (journal_of w1) = jf_processing (journal_of w)"
    using assms(1) by (auto simp: rely_def cut_tail_same)
  show ?thesis using assms(2) unfolding consumer_ok_def eq .
qed (use assms(2) in \<open>simp add: consumer_ok_def\<close>)

lemma hydrate_once_core:
  "same_core w (fst (hydrate_lock_cache_once t f w))" "same_core w (fst (hydrate_expiry_cache_once t f w))"
  "same_core w (fst (refresh_bypass_cache_once t f w))"
  by (auto simp: hydrate_lock_cache_once_def hydrate_expiry_cache_once_def refresh_bypass_cache_once_def
      run_hydration_transaction_def run_expiry_hydration_transaction_def run_bypass_refresh_transaction_def
      case_prod_beta on_shm_def same_core_def journal_of_def split: sum.split)

lemma clear_durable_core: "same_core w (clear_durable_degradation_if_quiet now obs w)"
  by (simp add: clear_durable_degradation_if_quiet_def split: option.split)

lemma hydrate_attempt_core:
  assumes "hydrate_attempt t g d f w = (g1, w1, fl)"
  shows "w1 = w \<or> (\<exists>v. same_core w v \<and> same_core (tk_during t v) w1)"
proof -
  obtain v1 f1 b1 where h1: "hydrate_lock_cache_once t f w = (v1, f1, b1)" by (metis prod_cases3)
  obtain v2 f2 b2 where h2: "hydrate_expiry_cache_once t f1 v1 = (v2, f2, b2)" by (metis prod_cases3)
  obtain v3 f3 b3 where h3: "refresh_bypass_cache_once t f2 v2 = (v3, f3, b3)" by (metis prod_cases3)
  have "same_core w v1" "same_core v1 v2" "same_core v2 v3"
    using hydrate_once_core(1) [of w t f] hydrate_once_core(2) [of v1 t f1] hydrate_once_core(3) [of v2 t f2]
    by (simp_all add: h1 h2 h3)
  then have "same_core w v3" by (meson same_core_trans)
  moreover have "w1 = w \<or> w1 = tk_during t v3 \<or> (\<exists>now obs. w1 = clear_durable_degradation_if_quiet now obs (tk_during t v3))"
    using assms by (auto simp: hydrate_attempt_def h1 h2 h3 Let_def split: if_splits)
  ultimately show ?thesis using clear_durable_core same_core_refl by blast
qed

lemma hydrate_attempt_ok:
  assumes "world_ok order k w" and "\<And>v. rely [] v (tk_during t v)"
    and "hydrate_attempt t g d f w = (g1, w1, fl)"
  shows "world_ok order k w1"
proof (cases "w1 = w")
  case False
  then obtain v where v: "same_core w v" "same_core (tk_during t v) w1" using hydrate_attempt_core [OF assms(3)] by blast
  then have "world_ok order k (tk_during t v)" using rely_world_ok [OF assms(2)] assms(1) same_core_world_ok by fastforce
  then show ?thesis using v(2) same_core_world_ok by blast
qed (use assms(1) in simp)

lemma worker_exit_core: "same_core w (worker_exit e w)"
  by (auto simp: worker_exit_def Let_def on_health_def on_shm_def same_core_def journal_of_def)

lemma exit_with_ok: "world_ok order k w \<Longrightarrow> worker_ok order (exit_with e g w)"
  using same_core_world_ok [OF worker_exit_core] by (auto simp: worker_ok_def exit_with_def)

lemma worker_step_ok:
  assumes "worker_ok order wk" and "rely new (wk_world wk) (tk_others t (wk_world wk))"
    and "\<And>v. rely [] v (tk_during t v)" and "distinct (order @ new)"
  shows "worker_ok (order @ new) (worker_step sip t wk)"
proof -
  let ?w = "tk_others t (wk_world wk)" and ?order = "order @ new"
  obtain k where k: "world_ok order k (wk_world wk)"
    "\<And>cs. wk_phase wk = Consuming cs \<Longrightarrow> consumer_ok k cs (journal_of (wk_world wk))"
    using assms(1) by (auto simp: worker_ok_def)
  have w: "world_ok ?order k ?w" by (rule rely_world_ok [OF assms(2) k(1)])
  show ?thesis
  proof (cases "wk_phase wk")
    case Starting
    have "world_ok ?order k (on_health mark_running ?w)"
      using w same_core_world_ok [OF same_core_health] by blast
    then show ?thesis using Starting exit_with_ok [OF w] by (auto simp: worker_step_def Let_def worker_ok_def)
  next
    case (Hydrating d f)
    obtain g1 w1 fl where h: "hydrate_attempt t (wk_guc wk) d f ?w = (g1, w1, fl)" by (metis prod_cases3)
    have w1: "world_ok ?order k w1" by (rule hydrate_attempt_ok [OF w assms(3) h])
    then show ?thesis using Hydrating h exit_with_ok [OF w1]
      by (auto simp: worker_step_def Let_def worker_ok_def consumer_ok_def consumer_new_def split: hydration_flow.split)
  next
    case (Consuming cs)
    have "state_ok ?order cs ?w"
      using w rely_consumer_ok [OF assms(2) k(2) [OF Consuming]] by (auto simp: state_ok_def)
    note c = consume_iteration_ok [OF this assms(4), of sip t "wk_guc wk"]
    obtain g1 cs1 w1 fl where i: "consume_iteration sip t (wk_guc wk) cs ?w = (g1, cs1, w1, fl)" by (metis prod_cases4)
    then have ok: "iteration_ok ?order (cs1, w1, fl)" using c by simp
    then obtain k1 where w1: "world_ok ?order k1 w1"
      using state_ok_world by (auto simp: iteration_ok_def split: if_splits)
    from ok show ?thesis using Consuming i w1 exit_with_ok [OF w1]
      by (cases fl) (auto simp: worker_step_def Let_def worker_ok_def state_ok_def split: ConsumeOutcome.split)
  next
    case (Suspended n)
    then show ?thesis using w exit_with_ok [OF w]
      by (auto simp: worker_step_def Let_def worker_ok_def split: prod.split sum.split bool.split)
  next
    case (Stopped e)
    then show ?thesis using w by (auto simp: worker_step_def Let_def worker_ok_def)
  qed
qed

lemma server_restart_ok: "worker_ok order wk \<Longrightarrow> worker_ok order (server_restart g wk)"
  by (auto simp: worker_ok_def server_restart_def world_ok_def journal_of_def)

section \<open>Exactly once, in order\<close>

text \<open>A run of the worker: steps, and restarts of the server at any moment; \<open>ids\<close> are the records appended meanwhile.\<close>

inductive worker_run :: "siphash \<Rightarrow> worker \<Rightarrow> byte list list \<Rightarrow> worker \<Rightarrow> bool" for sip wk0 where
  run_start: "worker_run sip wk0 [] wk0"
| run_step: "worker_run sip wk0 ids wk \<Longrightarrow> rely new (wk_world wk) (tk_others t (wk_world wk))
    \<Longrightarrow> (\<And>v. rely [] v (tk_during t v)) \<Longrightarrow> worker_run sip wk0 (ids @ new) (worker_step sip t wk)"
| run_restart: "worker_run sip wk0 ids wk \<Longrightarrow> worker_run sip wk0 ids (server_restart g wk)"

lemma worker_run_ok:
  assumes "worker_run sip wk0 ids wk" and "worker_ok order wk0" and "distinct (order @ ids)"
  shows "worker_ok (order @ ids) wk"
  using assms
proof (induction rule: worker_run.induct)
  case (run_step ids wk new t)
  have "distinct (order @ ids)" using run_step.prems(2) by auto
  note run_step.IH [OF run_step.prems(1) this]
  from worker_step_ok [OF this run_step.hyps(2,3), of sip] run_step.prems(2) show ?case by simp
qed (simp_all add: server_restart_ok)

text \<open>A worker about to start on an installation whose receipts match its journal files.\<close>

definition installed :: "worker \<Rightarrow> bool" where
  "installed wk \<longleftrightarrow> wk_phase wk = Starting \<and> wd_pending (wk_world wk) = pending_new
     \<and> db_auth_event_receipts (wd_db (wk_world wk)) = [] \<and> jf_processing (journal_of (wk_world wk)) = None"


end
