(* ===== verification/Auth_Hook.thy ===== *)
theory Auth_Hook
  imports Login_Attempts
begin

text \<open>
  The authentication hook of \<^verbatim>\<open>lib.rs\<close> (\<^verbatim>\<open>client_auth_hook\<close>) with the parts of the C shim it decides
  with. PostgreSQL calls it after it has verified the credential. Everything the hook reads once is an
  argument: the port, the status, the clocks, the outcomes of its enqueues and the previously
  registered hook, which may change shared memory and may refuse the connection. Other backends run
  between any two accesses of the hook to shared memory; they are the argument \<open>he_others\<close>, one state
  change per access.
\<close>

section \<open>The shim\<close>

datatype auth_status = STATUS_OK | STATUS_ERROR | STATUS_EOF

datatype UserAuth = uaReject | uaImplicitReject | uaTrust | uaIdent | uaPassword | uaMD5 | uaSCRAM
  | uaGSS | uaSSPI | uaPAM | uaBSD | uaLDAP | uaCert | uaRADIUS | uaPeer | uaOther

record Port =
  po_user_name :: "byte list option"
  po_hba :: "UserAuth option"

datatype sqlstate = ERRCODE_INTERNAL_ERROR | ERRCODE_SUCCESSFUL_COMPLETION | ERRCODE_CONNECTION_FAILURE
  | ERRCODE_INVALID_PASSWORD | ERRCODE_INVALID_AUTHORIZATION_SPECIFICATION

definition password_profile_port_username :: "Port option \<Rightarrow> byte list option" where
  "password_profile_port_username port = Option.bind port po_user_name"

definition password_profile_user_exists :: "pg_catalog \<Rightarrow> byte list option \<Rightarrow> int" where
  "password_profile_user_exists cat username =
     (case username of
        None \<Rightarrow> -1
      | Some name \<Rightarrow> if name = [] then -1 else if ct_role_exists cat name then 1 else 0)"

definition password_profile_get_last_sqlstate :: "Port option \<Rightarrow> auth_status \<Rightarrow> sqlstate" where
  "password_profile_get_last_sqlstate port status =
     (case Option.bind port po_hba of
        None \<Rightarrow> ERRCODE_INTERNAL_ERROR
      | Some auth_method \<Rightarrow>
          if status = STATUS_OK then ERRCODE_SUCCESSFUL_COMPLETION
          else if status = STATUS_EOF then ERRCODE_CONNECTION_FAILURE
          else if auth_method \<in> {uaPassword, uaMD5, uaSCRAM} then ERRCODE_INVALID_PASSWORD
          else ERRCODE_INVALID_AUTHORIZATION_SPECIFICATION)"

section \<open>Environment and result\<close>

datatype hook_point = AtHealth | AtLockState | AtExpiryState | AtFailureEvent | AtLockCheck | AtRecheck
  | AtExpiryLookup | AtGrace | AtSuccessEvent | AtReport

record hook_env =
  he_recovery :: bool
  he_guc :: guc
  he_port :: "Port option"
  he_status :: auth_status
  he_catalog :: pg_catalog
  he_prev :: "shm \<Rightarrow> shm \<times> bool"
  he_others :: "hook_point \<Rightarrow> shm \<Rightarrow> shm"
  he_sip :: siphash
  he_enqueue :: enqueue_env
  he_lock_now :: timestamp
  he_expiry_now :: timestamp
  he_warn_now :: timestamp
  he_db_env :: db_env
  he_db :: database

text \<open>
  How the connection attempt ends: PostgreSQL's own decision stands, another extension's hook refused
  it, or this extension refused it.
\<close>

datatype login = Admitted | NativeRejected | RejectedByPrevious | RejectedLocked int | RejectedExpired

datatype hook_log = QueueLog queue_log | PausedLog PausedReason | UserExistenceWarning

definition native :: "hook_env \<Rightarrow> login" where
  "native env = (if he_status env = STATUS_OK then Admitted else NativeRejected)"

section \<open>Health and reporting\<close>

definition auth_queue_corrupt :: "auth_shm \<Rightarrow> bool" where
  "auth_queue_corrupt a \<longleftrightarrow> queue_state a = Corrupt"

definition enforcement_pause_reason :: "auth_shm \<Rightarrow> PausedReason option" where
  "enforcement_pause_reason a =
     (if \<not> is_running (as_health a) then Some WorkerNotRunning
      else if auth_queue_corrupt a then Some QueueCorrupt
      else if durable_degraded_since (as_health a) \<noteq> None then Some DurableRecording
      else None)"

definition warn_paused :: "timestamp \<Rightarrow> PausedReason \<Rightarrow> shm \<Rightarrow> shm \<times> hook_log list" where
  "warn_paused now reason s =
     (let (h, logged) = warn_enforcement_paused now reason (as_health (sh_auth s))
      in (s\<lparr>sh_auth := (sh_auth s)\<lparr>as_health := h\<rparr>\<rparr>, map PausedLog logged))"

definition report_degraded :: "timestamp \<Rightarrow> PausedReason option \<Rightarrow> bool \<Rightarrow> shm \<Rightarrow> shm \<times> hook_log list" where
  "report_degraded now pause_reason event_lost s =
     (case pause_reason of
        Some reason \<Rightarrow> warn_paused now reason s
      | None \<Rightarrow>
          if event_lost
          then warn_paused now (case enforcement_pause_reason (sh_auth s) of
                 Some reason \<Rightarrow> reason | None \<Rightarrow> DurableRecording) s
          else (s, []))"

section \<open>The hook\<close>

text \<open>The call of the previous hook on the paths where this extension does nothing.\<close>

definition call_prev_client_auth_hook :: "hook_env \<Rightarrow> shm \<Rightarrow> shm \<times> login \<times> hook_log list" where
  "call_prev_client_auth_hook env s =
     (let (s1, returned) = he_prev env s
      in (s1, if returned then native env else RejectedByPrevious, []))"

definition hook_enqueue :: "hook_env \<Rightarrow> username \<Rightarrow> byte \<Rightarrow> EventFlags \<Rightarrow> shm \<Rightarrow> shm \<times> bool \<times> hook_log list" where
  "hook_enqueue env username kind flags s =
     (let (a, outcome, logs) = enqueue (he_sip env) (he_enqueue env) username kind flags (sh_auth s)
      in (s\<lparr>sh_auth := a\<rparr>, is_durable outcome, map QueueLog logs))"

text \<open>Failed native authentication.\<close>

definition hook_failure ::
  "hook_env \<Rightarrow> username \<Rightarrow> bool \<Rightarrow> PausedReason option \<Rightarrow> shm \<Rightarrow> shm \<times> hook_log list" where
  "hook_failure env username lockout_runtime_active pause_reason s =
     (let (s1, event_lost, logs) =
        (if lockout_runtime_active
            \<and> password_profile_get_last_sqlstate (he_port env) (he_status env) = ERRCODE_INVALID_PASSWORD
         then
           let user_exists = password_profile_user_exists (he_catalog env)
                 (password_profile_port_username (he_port env))
           in if user_exists = 1
              then let (s1, ok, logs) = hook_enqueue env username EVENT_KIND_FAILURE flags_none
                         (he_others env AtFailureEvent s)
                   in (s1, \<not> ok, logs)
              else if user_exists \<noteq> 0 then (s, False, [UserExistenceWarning])
              else (s, False, [])
         else (s, False, []));
          (s2, warned) = report_degraded (he_warn_now env) pause_reason event_lost
            (he_others env AtReport s1)
      in (s2, logs @ warned))"

text \<open>The lockout that refuses an authenticated user, if any, in whole seconds.\<close>

definition hook_lockout :: "hook_env \<Rightarrow> username \<Rightarrow> bool \<Rightarrow> shm \<Rightarrow> int option" where
  "hook_lockout env username lockout_runtime_active s =
     (if \<not> lockout_runtime_active then None
      else
        let remaining_secs =
          (case remaining_seconds (he_lock_now env) username (sh_lock s) of
             Some seconds \<Rightarrow> Some seconds
           | None \<Rightarrow> check_lockout_from_db (he_db_env env) (he_guc env) username (he_db env))
        in case remaining_secs of
             Some seconds \<Rightarrow> if 0 < seconds then Some (min seconds I32_MAX) else None
           | None \<Rightarrow> None)"

text \<open>The local variables of the success path after the expiry decision.\<close>

record hook_flags =
  hf_event_lost :: bool
  hf_password_expired :: bool
  hf_grace_consumed :: bool
  hf_queue_warn :: bool

definition hook_expiry ::
  "hook_env \<Rightarrow> username \<Rightarrow> bool \<Rightarrow> bool \<Rightarrow> bool \<Rightarrow> shm \<Rightarrow> shm \<times> hook_flags" where
  "hook_expiry env username lockout_runtime_active expiry_runtime_active event_lost s =
     (let unchanged = \<lparr>hf_event_lost = event_lost, hf_password_expired = False,
            hf_grace_consumed = False, hf_queue_warn = False\<rparr>
      in if event_lost \<or> \<not> expiry_runtime_active then (s, unchanged)
         else
           let now = he_expiry_now env; s0 = he_others env AtExpiryLookup s
           in case expiry_lookup username now (sh_expiry s0) of
                NoRow \<Rightarrow> (s0, unchanged)
              | NotExpired \<Rightarrow> (s0, unchanged)
              | ExpiredNoGrace \<Rightarrow> (s0, unchanged\<lparr>hf_password_expired := True\<rparr>)
              | CacheUnavailable \<Rightarrow> (s0, unchanged)
              | ExpiredWithGrace \<Rightarrow>
                  let s1 = he_others env AtGrace s0;
                      ((x, a), result) = try_consume_grace (he_sip env) (he_enqueue env) username now
                        (for_admission lockout_runtime_active) (sh_expiry s1, sh_auth s1);
                      s2 = s1\<lparr>sh_expiry := x, sh_auth := a\<rparr>;
                      warned = unchanged\<lparr>hf_queue_warn := gr_queue_warn result\<rparr>
                  in (s2, case gr_outcome result of
                        Consumed \<Rightarrow> warned\<lparr>hf_grace_consumed := True\<rparr>
                      | NotNeeded \<Rightarrow> warned
                      | NoGrace \<Rightarrow> warned\<lparr>hf_password_expired := True\<rparr>
                      | GraceUnavailable \<Rightarrow> warned\<lparr>hf_event_lost := True\<rparr>))"

definition hook_success ::
  "hook_env \<Rightarrow> username \<Rightarrow> bool \<Rightarrow> bool \<Rightarrow> PausedReason option \<Rightarrow> shm \<Rightarrow> shm \<times> login \<times> hook_log list" where
  "hook_success env username lockout_runtime_active expiry_runtime_active pause_reason s =
     (let s0 = he_others env AtRecheck s;
          event_lost0 = (pause_reason \<noteq> None \<or> enforcement_pause_reason (sh_auth s0) \<noteq> None);
          (s1, flags) = hook_expiry env username lockout_runtime_active expiry_runtime_active event_lost0 s0;
          (s2, event_lost, logs) =
            (if \<not> hf_event_lost flags \<and> \<not> hf_password_expired flags \<and> lockout_runtime_active
                \<and> \<not> hf_grace_consumed flags
             then let (s2, ok, logs) = hook_enqueue env username EVENT_KIND_SUCCESS
                        (for_admission lockout_runtime_active) (he_others env AtSuccessEvent s1)
                  in (s2, \<not> ok, logs)
             else (s1, hf_event_lost flags, []));
          queue_logs = (if hf_queue_warn flags
            then [QueueLog (if event_lost then JournalFailureWarning else QueueFullWarning)] else []);
          (s3, warned) = report_degraded (he_warn_now env) pause_reason event_lost
            (he_others env AtReport s2)
      in (s3, if hf_password_expired flags then RejectedExpired else Admitted,
          logs @ queue_logs @ warned))"

definition hook_username :: "hook_env \<Rightarrow> username option" where
  "hook_username env =
     (case password_profile_port_username (he_port env) of
        None \<Rightarrow> None
      | Some name \<Rightarrow> if utf8_valid name then Some name else None)"

definition hook_bypass :: "hook_env \<Rightarrow> shm \<Rightarrow> BypassDecision" where
  "hook_bypass env s =
     (case hook_username env of
        Some name \<Rightarrow> bypass_lookup name (sh_bypass s)
      | None \<Rightarrow> NotBypassed)"

definition client_auth_hook :: "hook_env \<Rightarrow> shm \<Rightarrow> shm \<times> login \<times> hook_log list" where
  "client_auth_hook env s =
     (if he_recovery env then call_prev_client_auth_hook env s
      else
        let lockout_active = LOCKOUT_ENFORCEMENT (he_guc env);
            expiry_active = expiry_login_enforcement_active (he_guc env)
        in if \<not> lockout_active \<and> \<not> expiry_active then call_prev_client_auth_hook env s
           else
             let bypass = hook_bypass env s; (s1, returned) = he_prev env s
             in if \<not> returned then (s1, RejectedByPrevious, [])
                else if bypass = Bypassed then (s1, native env, [])
                else case hook_username env of
                  None \<Rightarrow> (s1, native env, [])
                | Some username \<Rightarrow>
                    let s2 = he_others env AtHealth s1;
                        pause_reason = enforcement_pause_reason (sh_auth s2);
                        healthy = (pause_reason = None);
                        s3 = he_others env AtLockState s2;
                        lockout_runtime_active = (lockout_active \<and> healthy \<and> lock_state (sh_lock s3) = Ready);
                        s4 = he_others env AtExpiryState s3;
                        expiry_runtime_active = (expiry_active \<and> healthy \<and> expiry_state (sh_expiry s4) = ExpiryReady)
                    in if he_status env \<noteq> STATUS_OK
                       then let (s5, logs) = hook_failure env username lockout_runtime_active pause_reason s4
                            in (s5, NativeRejected, logs)
                       else
                         let s5 = he_others env AtLockCheck s4
                         in case hook_lockout env username lockout_runtime_active s5 of
                              Some seconds \<Rightarrow> (s5, RejectedLocked seconds, [])
                            | None \<Rightarrow> hook_success env username lockout_runtime_active
                                expiry_runtime_active pause_reason s5)"

section \<open>Lemmas\<close>

text \<open>No other backend touches shared memory while the hook runs.\<close>

definition quiet :: "hook_env \<Rightarrow> bool" where
  "quiet env \<longleftrightarrow> he_others env = (\<lambda>_ s. s)"

lemma quiet_others [simp]: "quiet env \<Longrightarrow> he_others env p s = s"
  by (simp add: quiet_def)

text \<open>Reporting changes only the words that limit the rate of warnings.\<close>

definition same_but_warned :: "shm \<Rightarrow> shm \<Rightarrow> bool" where
  "same_but_warned s s1 \<longleftrightarrow> sh_lock s1 = sh_lock s \<and> sh_expiry s1 = sh_expiry s \<and> sh_bypass s1 = sh_bypass s
     \<and> as_journal (sh_auth s1) = as_journal (sh_auth s) \<and> as_ring (sh_auth s1) = as_ring (sh_auth s)
     \<and> as_lock (sh_auth s1) = as_lock (sh_auth s)
     \<and> enforcement_pause_reason (sh_auth s1) = enforcement_pause_reason (sh_auth s)
     \<and> durable_degraded_since (as_health (sh_auth s1)) = durable_degraded_since (as_health (sh_auth s))"

lemma same_but_warned_refl [simp]: "same_but_warned s s"
  by (simp add: same_but_warned_def)

lemma queue_state_health [simp]: "queue_state (a\<lparr>as_health := h\<rparr>) = queue_state a"
  by (simp add: queue_state_def split: option.split)

lemma warn_paused_same: "same_but_warned s (fst (warn_paused now reason s))"
  using warn_enforcement_paused_health [of now reason "as_health (sh_auth s)"]
  by (simp add: warn_paused_def same_but_warned_def enforcement_pause_reason_def auth_queue_corrupt_def
      case_prod_beta)

lemma report_degraded_same: "same_but_warned s (fst (report_degraded now pause lost s))"
  by (simp add: report_degraded_def warn_paused_same split: option.split)

text \<open>The record an enqueue or a grace consumption leaves, or the trace of its failure.\<close>

definition appended :: "hook_env \<Rightarrow> username \<Rightarrow> byte \<Rightarrow> EventFlags \<Rightarrow> timestamp \<Rightarrow> auth_shm \<Rightarrow> auth_shm \<Rightarrow> bool" where
  "appended env u k fl g a a1 \<longleftrightarrow> (\<exists>i. en_event_id (he_enqueue env) = Some i
     \<and> jf_active (as_journal a1) = Some (active_bytes (as_journal a)
         @ encode (he_sip env) (journaled_event (he_enqueue env) (encode_username u) k fl g i))
     \<and> jf_processing (as_journal a1) = jf_processing (as_journal a))"

lemma hook_enqueue_cases:
  assumes "hook_enqueue env u k fl s = (s1, ok, logs)" and "as_health (sh_auth s) \<noteq> None"
  shows "s1 = s\<lparr>sh_auth := sh_auth s1\<rparr>"
    and "if ok then appended env u k fl 0 (sh_auth s) (sh_auth s1)
         else durable_degraded_since (as_health (sh_auth s1)) \<noteq> None"
proof -
  obtain a step where e: "enqueue_encoded_silent (he_sip env) (he_enqueue env) (encode_username u) k fl 0
      (sh_auth s) = (a, step)" by fastforce
  then have s1: "s1 = s\<lparr>sh_auth := a\<rparr>" "ok = is_durable (st_outcome step)"
    using assms(1) by (auto simp: hook_enqueue_def enqueue_def)
  then show "s1 = s\<lparr>sh_auth := sh_auth s1\<rparr>" by simp
  show "if ok then appended env u k fl 0 (sh_auth s) (sh_auth s1)
         else durable_degraded_since (as_health (sh_auth s1)) \<noteq> None"
    using enqueue_silent_durable [OF e] enqueue_silent_not_durable [OF e _ assms(2)] s1
    by (auto simp: appended_def)
qed

lemma grace_cases:
  assumes "try_consume_grace (he_sip env) (he_enqueue env) u now fl (x, a) = ((x1, a1), res)"
    and "as_health a \<noteq> None"
  shows "if gr_outcome res = Consumed
         then \<exists>gen. appended env u EVENT_KIND_GRACE_CONSUMED fl gen a a1
         else x1 = x \<and> (a1 = a \<or> gr_outcome res = GraceUnavailable
                \<and> durable_degraded_since (as_health a1) \<noteq> None)"
proof (cases x)
  case None
  then show ?thesis using assms(1) by (auto simp: try_consume_grace_def grace_result_def)
next
  case (Some cache)
  let ?here = "\<lambda>e. slot_used (ex_username e) \<and> ex_username e = encode_username u"
  show ?thesis
  proof (cases "\<exists>e. xc_state cache = expiry_state_raw ExpiryReady
      \<and> List.find ?here (xc_entries cache) = Some e \<and> classify e now = ExpiredWithGrace")
    case True
    then obtain e where e: "expiry_state_from_raw (xc_state cache) = ExpiryReady"
      "List.find ?here (xc_entries cache) = Some e" "classify e now = ExpiredWithGrace" by auto
    obtain a2 step where q: "enqueue_encoded_silent (he_sip env) (he_enqueue env) (encode_username u)
        EVENT_KIND_GRACE_CONSUMED fl (ex_generation e) a = (a2, step)" by fastforce
    have "a1 = a2" and "gr_outcome res = (if is_durable (st_outcome step) then Consumed else GraceUnavailable)"
      and "\<not> is_durable (st_outcome step) \<Longrightarrow> x1 = x"
      using assms(1) Some e q
      by (auto simp: try_consume_grace_def grace_result_def Let_def split: if_splits)
    then show ?thesis
      using enqueue_silent_durable [OF q] enqueue_silent_not_durable [OF q _ assms(2)]
      by (auto simp: appended_def)
  next
    case False
    then have "x1 = x \<and> a1 = a \<and> gr_outcome res \<noteq> Consumed"
      using assms(1) Some
      by (auto simp: try_consume_grace_def grace_result_def Let_def expiry_state_from_raw_def
          split: option.splits ExpiryDecision.splits if_splits)
    then show ?thesis by simp
  qed
qed

text \<open>
  The shared memory a login finds when it reads the health words, and the two ways a call ends: only
  the previous hook acted, or the policy was consulted under the switches and states that were read.
\<close>

definition at_health :: "hook_env \<Rightarrow> shm \<Rightarrow> shm" where
  "at_health env s = he_others env AtHealth (fst (he_prev env s))"

lemma client_auth_hook_cases:
  assumes "client_auth_hook env s = (s', out, logs)"
  obtains
    (transparent) "s' = fst (he_prev env s)"
      "out = (if snd (he_prev env s) then native env else RejectedByPrevious)"
  | (active) u pause lra era s4 where "snd (he_prev env s)" "\<not> he_recovery env"
      "hook_username env = Some u" "hook_bypass env s \<noteq> Bypassed"
      "pause = enforcement_pause_reason (sh_auth (at_health env s))"
      "s4 = he_others env AtExpiryState (he_others env AtLockState (at_health env s))"
      "lra \<longleftrightarrow> LOCKOUT_ENFORCEMENT (he_guc env) \<and> pause = None
         \<and> lock_state (sh_lock (he_others env AtLockState (at_health env s))) = Ready"
      "era \<longleftrightarrow> expiry_login_enforcement_active (he_guc env) \<and> pause = None
         \<and> expiry_state (sh_expiry s4) = ExpiryReady"
      "(s', out, logs) = (if he_status env \<noteq> STATUS_OK
         then let (s5, l) = hook_failure env u lra pause s4 in (s5, NativeRejected, l)
         else case hook_lockout env u lra (he_others env AtLockCheck s4) of
             Some seconds \<Rightarrow> (he_others env AtLockCheck s4, RejectedLocked seconds, [])
           | None \<Rightarrow> hook_success env u lra era pause (he_others env AtLockCheck s4))"
proof -
  let ?off = "he_recovery env \<or> \<not> LOCKOUT_ENFORCEMENT (he_guc env)
      \<and> \<not> expiry_login_enforcement_active (he_guc env)"
  show ?thesis
  proof (cases "?off \<or> \<not> snd (he_prev env s) \<or> hook_bypass env s = Bypassed \<or> hook_username env = None")
    case True
    then show ?thesis
      using assms by (intro transparent)
        (auto simp: client_auth_hook_def call_prev_client_auth_hook_def Let_def split: if_splits prod.splits)
  next
    case False
    then obtain u where u: "hook_username env = Some u" by auto
    show ?thesis
      by (rule active [OF _ _ u _ refl refl refl refl])
        (use False u assms in \<open>unfold at_health_def client_auth_hook_def Let_def case_prod_beta, auto\<close>)
  qed
qed

lemma hook_lockout_bounds:
  "hook_lockout env u lra s = Some n \<Longrightarrow> lra \<and> 1 \<le> n \<and> n \<le> I32_MAX"
  by (auto simp: hook_lockout_def Let_def width_defs split: if_splits option.splits)

lemma hook_success_out:
  "fst (snd (hook_success env u lra era pause s)) = Admitted
   \<or> fst (snd (hook_success env u lra era pause s)) = RejectedExpired \<and> era \<and> pause = None
     \<and> enforcement_pause_reason (sh_auth (he_others env AtRecheck s)) = None"
  by (auto simp: hook_success_def hook_expiry_def Let_def case_prod_beta split: ExpiryDecision.split GraceOutcome.split)

section \<open>Properties of the hook\<close>

text \<open>
  Property C16: the extension refuses a login only by its healthy policy. Whatever other backends and
  the previous hook do, a refusal by this extension means that PostgreSQL accepted the credential, that
  the server is not in recovery, that the role is not exempt, that the worker was running, the queue
  not corrupt and durable recording not degraded when health was read, and that the switch of that
  policy was on. A lockout refusal announces between one second and the largest \<^verbatim>\<open>int\<close>. In every other
  case PostgreSQL's own decision, or the previous hook's refusal, stands.
\<close>

theorem refusals_only_by_healthy_policy:
  assumes "client_auth_hook env s = (s', out, logs)"
  shows "(case out of
      Admitted \<Rightarrow> he_status env = STATUS_OK \<and> snd (he_prev env s)
    | NativeRejected \<Rightarrow> he_status env \<noteq> STATUS_OK \<and> snd (he_prev env s)
    | RejectedByPrevious \<Rightarrow> \<not> snd (he_prev env s)
    | RejectedLocked n \<Rightarrow> LOCKOUT_ENFORCEMENT (he_guc env) \<and> 1 \<le> n \<and> n \<le> I32_MAX
    | RejectedExpired \<Rightarrow> EXPIRY_ENFORCEMENT (he_guc env) \<and> 0 < PASSWORD_EXPIRY_DAYS (he_guc env))
    \<and> (out \<in> insert RejectedExpired (range RejectedLocked) \<longrightarrow>
         he_status env = STATUS_OK \<and> \<not> he_recovery env \<and> hook_bypass env s \<noteq> Bypassed
         \<and> enforcement_pause_reason (sh_auth (at_health env s)) = None)"
proof (cases rule: client_auth_hook_cases [OF assms])
  case 1
  then show ?thesis by (auto simp: native_def)
next
  case (2 u pause lra era s4)
  show ?thesis
  proof (cases "he_status env = STATUS_OK")
    case True
    let ?s5 = "he_others env AtLockCheck s4"
    show ?thesis
    proof (cases "hook_lockout env u lra ?s5")
      case None
      then have "out = fst (snd (hook_success env u lra era pause ?s5))"
        using 2(9) True by (metis fst_conv snd_conv option.simps(4))
      then show ?thesis
        using hook_success_out [of env u lra era pause ?s5] 2(1,2,4,5,8) True
        by (auto simp: expiry_login_enforcement_active_def)
    next
      case (Some n)
      then show ?thesis using hook_lockout_bounds [OF Some] 2(1,2,4,5,7,9) True by simp
    qed
  next
    case False
    then show ?thesis using 2(1,9) by (auto simp: Let_def case_prod_beta)
  qed
qed

text \<open>A login of user \<open>a\<close> with the right password, on a server with default settings.\<close>

definition sample_login :: hook_env where
  "sample_login = \<lparr>he_recovery = False, he_guc = guc_default,
     he_port = Some \<lparr>po_user_name = Some [0x61], po_hba = Some uaSCRAM\<rparr>, he_status = STATUS_OK,
     he_catalog = plain_catalog, he_prev = (\<lambda>s. (s, True)), he_others = (\<lambda>_ s. s),
     he_sip = (\<lambda>_ _ _. 0), he_enqueue = \<lparr>en_event_id = Some (replicate 16 7), en_now = 30, en_append = append_ok\<rparr>,
     he_lock_now = 30, he_expiry_now = 30, he_warn_now = 30, he_db_env = plain_env 30,
     he_db = empty_database\<rparr>"

lemma sample_login_simps [simp]:
  "he_recovery sample_login = False" "he_guc sample_login = guc_default" "he_status sample_login = STATUS_OK"
  "he_prev sample_login s = (s, True)" "quiet sample_login" "he_lock_now sample_login = 30"
  "he_expiry_now sample_login = 30" "hook_username sample_login = Some [0x61]"
  by (simp_all add: sample_login_def quiet_def hook_username_def password_profile_port_username_def
      utf8_valid.simps(2))

lemma at_health_quiet [simp]: "quiet env \<Longrightarrow> at_health env s = fst (he_prev env s)"
  by (simp add: at_health_def)

lemma fresh_shm_paused: "enforcement_pause_reason (sh_auth fresh_shm) = Some WorkerNotRunning"
  by (simp add: enforcement_pause_reason_def fresh_shm_def fresh_auth_def health_new_def is_running_def)

theorem refusals_only_by_healthy_policy_witness:
  "fst (snd (client_auth_hook sample_login fresh_shm)) \<noteq> RejectedExpired"
proof -
  obtain s' out logs where c: "client_auth_hook sample_login fresh_shm = (s', out, logs)"
    by (metis prod_cases3)
  from refusals_only_by_healthy_policy [OF c] fresh_shm_paused c show ?thesis by auto
qed

text \<open>A login while enforcement is paused.\<close>

lemma paused_login:
  assumes "client_auth_hook env s = (s', out, logs)"
    and "enforcement_pause_reason (sh_auth (at_health env s)) \<noteq> None"
  shows "out = (if snd (he_prev env s) then native env else RejectedByPrevious)
    \<and> (quiet env \<longrightarrow> same_but_warned (fst (he_prev env s)) s')"
proof (cases rule: client_auth_hook_cases [OF assms(1)])
  case 1
  then show ?thesis by simp
next
  case (2 u pause lra era s4)
  then have off: "\<not> lra" "\<not> era" "pause \<noteq> None" using assms(2) by auto
  have fail: "fst (hook_failure env u lra pause s4) =
      fst (report_degraded (he_warn_now env) pause False (he_others env AtReport s4))"
    using off by (simp add: hook_failure_def case_prod_beta)
  have succ: "hook_success env u lra era pause s5 =
      (let (s3, warned) = report_degraded (he_warn_now env) pause True
         (he_others env AtReport (he_others env AtRecheck s5)) in (s3, Admitted, warned))" for s5
    using off by (simp add: hook_success_def hook_expiry_def Let_def case_prod_beta)
  have "hook_lockout env u lra s5 = None" for s5 using off by (simp add: hook_lockout_def)
  with 2(1,9) show ?thesis
    using fail succ report_degraded_same 2(6)
    by (auto simp: native_def case_prod_beta Let_def)
qed

text \<open>
  Property C21: an unhealthy extension is transparent. If the worker is not running, the queue is
  corrupt or durable recording is degraded when the hook reads the health words, then the login ends
  exactly as PostgreSQL and the previous hook decided it, whatever other backends do; and without
  interference neither a cache nor the queue nor the journal changes, only the words that limit the
  rate of warnings.
\<close>

theorem paused_enforcement_is_transparent:
  assumes "client_auth_hook env s = (s', out, logs)"
    and "enforcement_pause_reason (sh_auth (at_health env s)) \<noteq> None"
  shows "out = (if snd (he_prev env s) then native env else RejectedByPrevious)
    \<and> (quiet env \<longrightarrow> same_but_warned (fst (he_prev env s)) s')"
  using paused_login [OF assms] .

theorem paused_enforcement_is_transparent_witness:
  "fst (snd (client_auth_hook sample_login fresh_shm)) = Admitted"
proof -
  obtain s' out logs where c: "client_auth_hook sample_login fresh_shm = (s', out, logs)"
    by (metis prod_cases3)
  from paused_enforcement_is_transparent [OF c] fresh_shm_paused c show ?thesis
    by (auto simp: native_def)
qed

section \<open>What a login records\<close>

lemma appended_warned:
  "same_but_warned s1 s2 \<Longrightarrow> appended env u k fl g a (sh_auth s2) = appended env u k fl g a (sh_auth s1)"
  by (simp add: appended_def same_but_warned_def)

lemma hook_expiry_cases:
  assumes "hook_expiry env u lra era lost s = (s1, fl)" and "quiet env" and "as_health (sh_auth s) \<noteq> None"
  shows "s1 = s\<lparr>sh_expiry := sh_expiry s1, sh_auth := sh_auth s1\<rparr>"
    and "if hf_grace_consumed fl
         then \<not> hf_event_lost fl \<and> \<not> hf_password_expired fl
           \<and> (\<exists>gen. appended env u EVENT_KIND_GRACE_CONSUMED (for_admission lra) gen (sh_auth s) (sh_auth s1))
         else sh_expiry s1 = sh_expiry s \<and> (sh_auth s1 = sh_auth s
           \<or> hf_event_lost fl \<and> \<not> hf_password_expired fl \<and> durable_degraded_since (as_health (sh_auth s1)) \<noteq> None)"
    and "hf_password_expired fl \<Longrightarrow> \<not> hf_event_lost fl \<and> \<not> hf_grace_consumed fl \<and> sh_auth s1 = sh_auth s"
proof -
  have *: "s1 = s\<lparr>sh_expiry := sh_expiry s1, sh_auth := sh_auth s1\<rparr>
    \<and> (if hf_grace_consumed fl
       then \<not> hf_event_lost fl \<and> \<not> hf_password_expired fl
         \<and> (\<exists>gen. appended env u EVENT_KIND_GRACE_CONSUMED (for_admission lra) gen (sh_auth s) (sh_auth s1))
       else sh_expiry s1 = sh_expiry s \<and> (sh_auth s1 = sh_auth s
         \<or> hf_event_lost fl \<and> \<not> hf_password_expired fl \<and> durable_degraded_since (as_health (sh_auth s1)) \<noteq> None))
    \<and> (hf_password_expired fl \<longrightarrow> \<not> hf_event_lost fl \<and> \<not> hf_grace_consumed fl \<and> sh_auth s1 = sh_auth s)"
  proof (cases "\<not> lost \<and> era \<and> expiry_lookup u (he_expiry_now env) (sh_expiry s) = ExpiredWithGrace")
    case True
    obtain x a res where g: "try_consume_grace (he_sip env) (he_enqueue env) u (he_expiry_now env)
        (for_admission lra) (sh_expiry s, sh_auth s) = ((x, a), res)" by (metis prod.collapse)
    have "s1 = s\<lparr>sh_expiry := x, sh_auth := a\<rparr>"
      and "hf_grace_consumed fl \<longleftrightarrow> gr_outcome res = Consumed"
      and "hf_password_expired fl \<longleftrightarrow> gr_outcome res = NoGrace"
      and "hf_event_lost fl \<longleftrightarrow> gr_outcome res = GraceUnavailable"
      using assms(1,2) True g
      by (auto simp: hook_expiry_def Let_def split: GraceOutcome.splits)
    then show ?thesis using grace_cases [OF g assms(3)] by (auto split: if_splits)
  next
    case False
    then show ?thesis
      using assms(1,2)
      by (auto simp: hook_expiry_def Let_def split: if_splits ExpiryDecision.splits)
  qed
  then show "s1 = s\<lparr>sh_expiry := sh_expiry s1, sh_auth := sh_auth s1\<rparr>" by blast
  from * show "if hf_grace_consumed fl
         then \<not> hf_event_lost fl \<and> \<not> hf_password_expired fl
           \<and> (\<exists>gen. appended env u EVENT_KIND_GRACE_CONSUMED (for_admission lra) gen (sh_auth s) (sh_auth s1))
         else sh_expiry s1 = sh_expiry s \<and> (sh_auth s1 = sh_auth s
           \<or> hf_event_lost fl \<and> \<not> hf_password_expired fl \<and> durable_degraded_since (as_health (sh_auth s1)) \<noteq> None)"
    by blast
  from * show "hf_password_expired fl \<Longrightarrow> \<not> hf_event_lost fl \<and> \<not> hf_grace_consumed fl \<and> sh_auth s1 = sh_auth s"
    by blast
qed

text \<open>
  What a call of the hook may leave in the journal: nothing, the trace of a failed append, or one
  record that matches how the login ended.
\<close>

definition login_trace :: "hook_env \<Rightarrow> username \<Rightarrow> login \<Rightarrow> shm \<Rightarrow> shm \<Rightarrow> bool" where
  "login_trace env u out s s' \<longleftrightarrow>
     sh_lock s' = sh_lock s \<and> sh_bypass s' = sh_bypass s \<and> (out \<noteq> Admitted \<longrightarrow> sh_expiry s' = sh_expiry s)
     \<and> (same_but_warned s s'
        \<or> out \<in> {Admitted, NativeRejected} \<and> sh_expiry s' = sh_expiry s
            \<and> durable_degraded_since (as_health (sh_auth s')) \<noteq> None
        \<or> out = NativeRejected \<and> appended env u EVENT_KIND_FAILURE flags_none 0 (sh_auth s) (sh_auth s')
        \<or> out = Admitted \<and> sh_expiry s' = sh_expiry s
            \<and> appended env u EVENT_KIND_SUCCESS (for_admission True) 0 (sh_auth s) (sh_auth s')
        \<or> out = Admitted \<and> (\<exists>gen lra. appended env u EVENT_KIND_GRACE_CONSUMED (for_admission lra) gen
            (sh_auth s) (sh_auth s')))"

lemma same_but_warned_frame:
  "same_but_warned s s1 \<Longrightarrow> sh_lock s1 = sh_lock s \<and> sh_expiry s1 = sh_expiry s \<and> sh_bypass s1 = sh_bypass s
     \<and> durable_degraded_since (as_health (sh_auth s1)) = durable_degraded_since (as_health (sh_auth s))"
  by (simp add: same_but_warned_def)

lemma hook_enqueue_frame:
  assumes "hook_enqueue env u k fl s = (s1, ok, logs)"
  shows "sh_lock s1 = sh_lock s \<and> sh_expiry s1 = sh_expiry s \<and> sh_bypass s1 = sh_bypass s"
  using assms by (auto simp: hook_enqueue_def case_prod_beta)

text \<open>The ways to establish a trace; reporting at the end does not disturb it.\<close>

lemma trace_same: "same_but_warned s s' \<Longrightarrow> login_trace env u out s s'"
  by (auto simp: login_trace_def same_but_warned_def)

lemma trace_recorded:
  assumes "sh_lock s1 = sh_lock s" "sh_bypass s1 = sh_bypass s" "out \<noteq> Admitted \<longrightarrow> sh_expiry s1 = sh_expiry s"
    and "out \<in> {Admitted, NativeRejected} \<and> sh_expiry s1 = sh_expiry s
            \<and> durable_degraded_since (as_health (sh_auth s1)) \<noteq> None
        \<or> out = NativeRejected \<and> appended env u EVENT_KIND_FAILURE flags_none 0 (sh_auth s) (sh_auth s1)
        \<or> out = Admitted \<and> sh_expiry s1 = sh_expiry s
            \<and> appended env u EVENT_KIND_SUCCESS (for_admission True) 0 (sh_auth s) (sh_auth s1)
        \<or> out = Admitted \<and> (\<exists>gen lra. appended env u EVENT_KIND_GRACE_CONSUMED (for_admission lra) gen
            (sh_auth s) (sh_auth s1))"
    and "same_but_warned s1 s2"
  shows "login_trace env u out s s2"
proof -
  note w = appended_warned [OF assms(5)]
  from same_but_warned_frame [OF assms(5)] have
    "sh_lock s2 = sh_lock s" "sh_bypass s2 = sh_bypass s" "sh_expiry s2 = sh_expiry s1"
    "durable_degraded_since (as_health (sh_auth s2)) = durable_degraded_since (as_health (sh_auth s1))"
    using assms(1,2) by simp_all
  with assms(3,4) show ?thesis unfolding login_trace_def w by auto
qed

lemma hook_failure_trace:
  assumes "quiet env" and "as_health (sh_auth s) \<noteq> None"
  shows "login_trace env u NativeRejected s (fst (hook_failure env u lra pause s))"
proof (cases "lra \<and> password_profile_get_last_sqlstate (he_port env) (he_status env) = ERRCODE_INVALID_PASSWORD
    \<and> password_profile_user_exists (he_catalog env) (password_profile_port_username (he_port env)) = 1")
  case True
  obtain s1 ok logs where q: "hook_enqueue env u EVENT_KIND_FAILURE flags_none s = (s1, ok, logs)"
    by (metis prod_cases3)
  have r: "fst (hook_failure env u lra pause s) = fst (report_degraded (he_warn_now env) pause (\<not> ok) s1)"
    using True assms(1) q by (simp add: hook_failure_def Let_def case_prod_beta)
  show ?thesis
    unfolding r
    by (rule trace_recorded [OF _ _ _ _ report_degraded_same])
      (use hook_enqueue_cases(2) [OF q assms(2)] hook_enqueue_frame [OF q] in \<open>simp_all split: if_splits\<close>)
next
  case False
  then have "fst (hook_failure env u lra pause s) = fst (report_degraded (he_warn_now env) pause False s)"
    using assms(1) by (auto simp: hook_failure_def Let_def case_prod_beta)
  then show ?thesis using trace_same report_degraded_same by metis
qed

lemma hook_success_trace:
  assumes "quiet env" and "as_health (sh_auth s) \<noteq> None"
  shows "login_trace env u (fst (snd (hook_success env u lra era pause s))) s
    (fst (hook_success env u lra era pause s))"
proof -
  let ?lost = "pause \<noteq> None \<or> enforcement_pause_reason (sh_auth s) \<noteq> None"
  obtain s1 fl where x: "hook_expiry env u lra era ?lost s = (s1, fl)" by fastforce
  note c = hook_expiry_cases [OF x assms]
  have f1: "sh_lock s1 = sh_lock s" "sh_bypass s1 = sh_bypass s"
    by (subst c(1), simp)+
  show ?thesis
  proof (cases "\<not> hf_event_lost fl \<and> \<not> hf_password_expired fl \<and> lra \<and> \<not> hf_grace_consumed fl")
    case True
    obtain s2 ok logs where q: "hook_enqueue env u EVENT_KIND_SUCCESS (for_admission lra) s1 = (s2, ok, logs)"
      by (metis prod_cases3)
    have same: "sh_expiry s1 = sh_expiry s" "sh_auth s1 = sh_auth s" using c(2) True by auto
    have r: "fst (hook_success env u lra era pause s) = fst (report_degraded (he_warn_now env) pause (\<not> ok) s2)"
      "fst (snd (hook_success env u lra era pause s)) = Admitted"
      using x True assms(1) q by (simp_all add: hook_success_def Let_def case_prod_beta)
    have h: "as_health (sh_auth s1) \<noteq> None" using assms(2) same by simp
    show ?thesis
      unfolding r
      by (rule trace_recorded [OF _ _ _ _ report_degraded_same])
        (use hook_enqueue_cases(2) [OF q h] hook_enqueue_frame [OF q] same f1 True in \<open>simp_all split: if_splits\<close>)
  next
    case False
    then have r: "fst (hook_success env u lra era pause s) =
        fst (report_degraded (he_warn_now env) pause (hf_event_lost fl) s1)"
      "fst (snd (hook_success env u lra era pause s)) = (if hf_password_expired fl then RejectedExpired else Admitted)"
      using x assms(1) by (auto simp: hook_success_def Let_def case_prod_beta)
    note w = report_degraded_same [of s1 "he_warn_now env" pause "hf_event_lost fl"]
    show ?thesis
    proof (cases "sh_auth s1 = sh_auth s \<and> sh_expiry s1 = sh_expiry s")
      case True
      then have "same_but_warned s (fst (hook_success env u lra era pause s))"
        using f1 w unfolding r by (simp add: same_but_warned_def)
      then show ?thesis by (rule trace_same)
    next
      case False
      then have "\<not> hf_password_expired fl" using c(2,3) by auto
      then show ?thesis
        unfolding r
        by (intro trace_recorded [OF f1 _ _ w]) (use False c(2) in \<open>auto split: if_splits\<close>)
    qed
  qed
qed

text \<open>
  Property C20: a login leaves at most the record of what happened. Without interference, after the
  previous hook, a call leaves the lock and bypass caches alone and the journal either untouched, or
  marked degraded after a failed append, or extended by exactly one record: a failure when PostgreSQL
  rejected the credential, a success or a grace consumption only when the login is admitted. A
  connection that is refused, by whomever, takes no grace login and leaves no record of a success.
\<close>

theorem login_records_what_happened:
  assumes "client_auth_hook env s = (s', out, logs)" and "quiet env"
    and "as_health (sh_auth (fst (he_prev env s))) \<noteq> None"
  shows "(\<exists>u. login_trace env u out (fst (he_prev env s)) s' \<and> (hook_username env = Some u \<or> s' = fst (he_prev env s)))
    \<and> (out \<notin> {Admitted, NativeRejected} \<longrightarrow> same_but_warned (fst (he_prev env s)) s')"
proof (cases rule: client_auth_hook_cases [OF assms(1)])
  case 1
  then show ?thesis by (simp add: login_trace_def)
next
  case (2 u pause lra era s4)
  let ?s1 = "fst (he_prev env s)"
  have s4: "s4 = ?s1" using 2(6) assms(2) by simp
  have t: "login_trace env u out ?s1 s'"
  proof (cases "he_status env = STATUS_OK")
    case True
    show ?thesis
    proof (cases "hook_lockout env u lra ?s1")
      case None
      then have "hook_success env u lra era pause ?s1 = (s', out, logs)"
        using 2(9) s4 assms(2) True by simp
      with hook_success_trace [OF assms(2,3), of u lra era pause] show ?thesis by simp
    qed (use 2(9) s4 assms(2) True in \<open>simp add: trace_same\<close>)
  next
    case False
    then show ?thesis
      using 2(9) s4 hook_failure_trace [OF assms(2,3), of u lra pause] by (simp add: case_prod_beta)
  qed
  then have "out \<notin> {Admitted, NativeRejected} \<longrightarrow> same_but_warned ?s1 s'"
    by (auto simp: login_trace_def)
  with t 2(3) show ?thesis by blast
qed

theorem login_records_what_happened_witness:
  "\<exists>u. login_trace sample_login u (fst (snd (client_auth_hook sample_login fresh_shm))) fresh_shm
     (fst (client_auth_hook sample_login fresh_shm))"
proof -
  obtain s' out logs where c: "client_auth_hook sample_login fresh_shm = (s', out, logs)"
    by (metis prod_cases3)
  have "as_health (sh_auth (fst (he_prev sample_login fresh_shm))) \<noteq> None"
    by (simp add: fresh_shm_def fresh_auth_def)
  from login_records_what_happened [OF c _ this] c show ?thesis by auto
qed

section \<open>Enforcement\<close>

text \<open>A login the policy is consulted for: right password, healthy extension, no exemption, no interference.\<close>

definition policed :: "hook_env \<Rightarrow> username \<Rightarrow> shm \<Rightarrow> bool" where
  "policed env u s \<longleftrightarrow> quiet env \<and> \<not> he_recovery env \<and> he_status env = STATUS_OK \<and> snd (he_prev env s)
     \<and> hook_username env = Some u \<and> hook_bypass env s \<noteq> Bypassed
     \<and> enforcement_pause_reason (sh_auth (fst (he_prev env s))) = None"

definition lockout_in_force :: "hook_env \<Rightarrow> shm \<Rightarrow> bool" where
  "lockout_in_force env s \<longleftrightarrow> LOCKOUT_ENFORCEMENT (he_guc env) \<and> lock_state (sh_lock s) = Ready"

definition expiry_in_force :: "hook_env \<Rightarrow> shm \<Rightarrow> bool" where
  "expiry_in_force env s \<longleftrightarrow> expiry_login_enforcement_active (he_guc env) \<and> expiry_state (sh_expiry s) = ExpiryReady"

lemma policed_hook:
  assumes "policed env u s" and "s1 = fst (he_prev env s)"
    and "LOCKOUT_ENFORCEMENT (he_guc env) \<or> expiry_login_enforcement_active (he_guc env)"
  shows "client_auth_hook env s =
    (case hook_lockout env u (lockout_in_force env s1) s1 of
       Some seconds \<Rightarrow> (s1, RejectedLocked seconds, [])
     | None \<Rightarrow> hook_success env u (lockout_in_force env s1) (expiry_in_force env s1) None s1)"
  using assms unfolding policed_def
  by (auto simp: client_auth_hook_def lockout_in_force_def expiry_in_force_def Let_def case_prod_beta
      split: option.split)

text \<open>A login the lock cache has an active entry for.\<close>

lemma locked_login:
  assumes "policed env u s" and "s1 = fst (he_prev env s)" and "lockout_in_force env s1"
    and "lock_opt_inv (sh_lock s1)" and "lock_opt_view (he_lock_now env) (sh_lock s1) (encode_username u) = Some x"
    and "0 \<le> he_lock_now env" and "is_i64 x"
  shows "\<exists>n. client_auth_hook env s = (s1, RejectedLocked (min n I32_MAX), []) \<and> 1 \<le> n
    \<and> (n - 1) * MICROS_PER_SEC < x - he_lock_now env \<and> x - he_lock_now env \<le> n * MICROS_PER_SEC"
proof -
  obtain cache where c: "sh_lock s1 = Some cache" "lock_inv cache" using assms(4) by (auto simp: lock_opt_inv_def)
  have v: "lock_view (he_lock_now env) cache (encode_username u) = Some x"
    using assms(5) c(1) by (simp add: lock_opt_view_def)
  then have x: "he_lock_now env < x" by (auto simp: lock_view_def split: option.splits if_splits)
  obtain n where n: "1 \<le> n" "remaining_seconds_ceil x (he_lock_now env) = Some n"
    "(n - 1) * MICROS_PER_SEC < x - he_lock_now env" "x - he_lock_now env \<le> n * MICROS_PER_SEC"
    using remaining_seconds_ceil_bounds [OF assms(6,7) x] by blast
  have "remaining_seconds (he_lock_now env) u (sh_lock s1) = Some n"
    using remaining_seconds_view [OF c(2)] v n(2) c(1) by simp
  then have "hook_lockout env u (lockout_in_force env s1) s1 = Some (min n I32_MAX)"
    using assms(3) n(1) by (simp add: hook_lockout_def)
  moreover have "LOCKOUT_ENFORCEMENT (he_guc env)" using assms(3) by (simp add: lockout_in_force_def)
  ultimately have "client_auth_hook env s = (s1, RejectedLocked (min n I32_MAX), [])"
    using policed_hook [OF assms(1,2)] by simp
  with n show ?thesis by blast
qed

text \<open>
  Property C17: a locked user is refused even with the right password. If the policy is consulted, the
  lockout switch is on and the lock cache is \<open>Ready\<close> and agrees with \<^verbatim>\<open>login_attempts\<close>, then a user
  whose row is locked at the time of the check is refused, with the remaining time rounded up to whole
  seconds (never zero, capped at the largest \<^verbatim>\<open>int\<close>), and nothing in shared memory changes.
\<close>

theorem locked_user_is_refused:
  assumes "policed env u s" and "s1 = fst (he_prev env s)" and "lockout_in_force env s1"
    and "lock_opt_inv (sh_lock s1)" and "lock_coherent (he_lock_now env) tab (sh_lock s1)"
    and "representable u" and "live_lockout (he_lock_now env) tab u = Some x"
    and "0 \<le> he_lock_now env" and "is_i64 x"
  shows "\<exists>n. client_auth_hook env s = (s1, RejectedLocked (min n I32_MAX), []) \<and> 1 \<le> n
    \<and> (n - 1) * MICROS_PER_SEC < x - he_lock_now env \<and> x - he_lock_now env \<le> n * MICROS_PER_SEC"
proof -
  have "lock_opt_view (he_lock_now env) (sh_lock s1) (encode_username u) = Some x"
    using assms(5-7) by (simp add: lock_coherent_def)
  from locked_login [OF assms(1-4) this assms(8,9)] show ?thesis .
qed

text \<open>A server whose worker runs and whose caches are loaded; user \<open>a\<close> is locked until 50 microseconds.\<close>

definition locked_cache :: LockCache where
  "locked_cache = (case lock_set 0 user_a 50 (Some lock_cache_new) of
     (Some c, _) \<Rightarrow> c\<lparr>lc_state := cache_state_raw Ready\<rparr> | _ \<Rightarrow> lock_cache_new)"

definition locked_shm :: shm where
  "locked_shm = fresh_shm\<lparr>sh_auth := fresh_auth\<lparr>as_health := mark_running (Some health_new)\<rparr>,
     sh_lock := Some locked_cache\<rparr>"

lemma locked_cache:
  "lock_inv locked_cache" "lock_state (Some locked_cache) = Ready"
  "lock_view t locked_cache u = (if u = user_a \<and> t < 50 \<and> 0 \<le> t then Some 50 else lock_view t locked_cache u)"
  "u \<noteq> user_a \<Longrightarrow> 0 \<le> t \<Longrightarrow> lock_view t locked_cache u = None"
proof -
  obtain c where s: "lock_set 0 user_a 50 (Some lock_cache_new) = (Some c, Applied)"
    using user_a_used by (simp add: lock_set_def lock_cache_new_def update_first_replicate
        LockEntry_new_def LOCK_CACHE_SIZE_def)
  have l: "locked_cache = c\<lparr>lc_state := cache_state_raw Ready\<rparr>" by (simp add: locked_cache_def s)
  have a: "lock_inv c" "\<And>t. 0 \<le> t \<Longrightarrow> lock_view t c = (lock_view t lock_cache_new)(user_a := if t < 50 then Some 50 else None)"
    using lock_set_applied [OF lock_cache_new_inv _ user_a_used s] by auto
  show "lock_inv locked_cache" "lock_state (Some locked_cache) = Ready"
    using a(1) by (simp_all add: l lock_state_def)
  show "lock_view t locked_cache u = (if u = user_a \<and> t < 50 \<and> 0 \<le> t then Some 50 else lock_view t locked_cache u)"
    using a(2) [of t] by (simp add: l)
  show "u \<noteq> user_a \<Longrightarrow> 0 \<le> t \<Longrightarrow> lock_view t locked_cache u = None"
    using a(2) [of t] by (simp add: l lock_cache_new_view)
qed

lemma locked_shm_policed: "policed sample_login [0x61] locked_shm"
proof -
  have "hook_bypass sample_login locked_shm \<noteq> Bypassed"
    by (simp add: hook_bypass_def locked_shm_def fresh_shm_def bypass_lookup_def bypass_cache_new_def
        bypass_state_from_raw_def Let_def)
  moreover have "enforcement_pause_reason (sh_auth locked_shm) = None"
    by (simp add: enforcement_pause_reason_def locked_shm_def fresh_shm_def fresh_auth_def auth_queue_corrupt_def
        queue_state_def ring_new_def mark_running_def is_running_def health_new_def durable_degraded_since_def)
  ultimately show ?thesis by (simp add: policed_def)
qed

theorem locked_user_is_refused_witness:
  "client_auth_hook sample_login locked_shm = (locked_shm, RejectedLocked 1, [])"
proof -
  let ?tab = "[([0x61], \<lparr>la_fail_count = 3, la_last_fail = 1, la_lockout_until = Some 50\<rparr>)]"
  have rep: "representable [0x61]" by (simp add: representable_def LOCK_USERNAME_BYTES_def)
  have "lock_coherent 30 ?tab (sh_lock locked_shm)"
  proof (unfold lock_coherent_def, intro allI impI)
    fix u assume u: "representable u"
    show "lock_opt_view 30 (sh_lock locked_shm) (encode_username u) = live_lockout 30 ?tab u"
      using locked_cache(3) [of 30 "encode_username u"] locked_cache(4) [of "encode_username u" 30]
        encode_username_inj [OF u rep]
      by (cases "u = [0x61]") (auto simp: locked_shm_def lock_opt_view_def live_lockout_def lockout_until_of_def user_a_def)
  qed
  moreover have "lockout_in_force sample_login locked_shm" "lock_opt_inv (sh_lock locked_shm)"
    using locked_cache by (simp_all add: lockout_in_force_def locked_shm_def guc_default_def lock_opt_inv_def)
  moreover have "live_lockout 30 ?tab [0x61] = Some 50" by (simp add: live_lockout_def lockout_until_of_def)
  ultimately obtain n where n: "client_auth_hook sample_login locked_shm = (locked_shm, RejectedLocked (min n I32_MAX), [])"
    "1 \<le> n" "(n - 1) * MICROS_PER_SEC < 20"
    using locked_user_is_refused [OF locked_shm_policed _ _ _ _ rep, of locked_shm ?tab 50]
    by (auto simp: is_i64_def width_defs)
  then have "n = 1" by (simp add: MICROS_PER_SEC_def)
  with n(1) show ?thesis by (simp add: width_defs)
qed

text \<open>What the success path reports and whether it refuses, in terms of the expiry decision.\<close>

lemma hook_success_quiet:
  assumes "quiet env" and "enforcement_pause_reason (sh_auth s) = None"
    and "hook_expiry env u lra era False s = (s1, fl)"
  shows "fst (snd (hook_success env u lra era None s)) = (if hf_password_expired fl then RejectedExpired else Admitted)"
    and "hf_grace_consumed fl \<or> hf_event_lost fl \<or> hf_password_expired fl \<Longrightarrow>
      same_but_warned s1 (fst (hook_success env u lra era None s))"
    and "sh_expiry (fst (hook_success env u lra era None s)) = sh_expiry s1"
proof -
  show "fst (snd (hook_success env u lra era None s)) = (if hf_password_expired fl then RejectedExpired else Admitted)"
    using assms by (simp add: hook_success_def Let_def case_prod_beta)
  show "hf_grace_consumed fl \<or> hf_event_lost fl \<or> hf_password_expired fl \<Longrightarrow>
      same_but_warned s1 (fst (hook_success env u lra era None s))"
    using assms report_degraded_same by (auto simp: hook_success_def Let_def case_prod_beta)
  show "sh_expiry (fst (hook_success env u lra era None s)) = sh_expiry s1"
    using assms same_but_warned_frame [OF report_degraded_same]
    by (auto simp: hook_success_def hook_enqueue_def Let_def case_prod_beta)
qed

text \<open>The expiry branch for an expired password with grace logins left.\<close>

lemma hook_expiry_grace:
  assumes "quiet env" and "as_health (sh_auth s) \<noteq> None" and "sh_expiry s = Some cache" and "expiry_inv cache"
    and "xc_state cache = expiry_state_raw ExpiryReady"
    and "expiry_lookup u (he_expiry_now env) (Some cache) = ExpiredWithGrace"
    and "view_decision (expiry_view cache (encode_username u)) (he_expiry_now env) = ExpiredWithGrace"
    and "hook_expiry env u lra True False s = (s2, fl)"
  shows "\<not> hf_password_expired fl \<and> (hf_grace_consumed fl \<or> hf_event_lost fl) \<and> (\<exists>must gen grace.
        expiry_opt_view (sh_expiry s) (encode_username u) = Some (must, gen, grace)
        \<and> (expiry_opt_view (sh_expiry s2) = (expiry_opt_view (sh_expiry s))(encode_username u \<mapsto> (must, gen, grace - 1))
           \<and> appended env u EVENT_KIND_GRACE_CONSUMED (for_admission lra) gen (sh_auth s) (sh_auth s2)
         \<or> sh_expiry s2 = sh_expiry s \<and> durable_degraded_since (as_health (sh_auth s2)) \<noteq> None))"
proof -
  obtain x' a res where g: "try_consume_grace (he_sip env) (he_enqueue env) u (he_expiry_now env) (for_admission lra)
      (Some cache, sh_auth s) = ((x', a), res)" by (metis prod.collapse)
  have s2: "s2 = s\<lparr>sh_expiry := x', sh_auth := a\<rparr>"
    "hf_grace_consumed fl = (gr_outcome res = Consumed)" "hf_password_expired fl = (gr_outcome res = NoGrace)"
    "hf_event_lost fl = (gr_outcome res = GraceUnavailable)"
    using assms g by (auto simp: hook_expiry_def Let_def split: GraceOutcome.splits)
  from try_consume_grace_cases [OF assms(4,5) g] show ?thesis
  proof cases
    case 1
    then show ?thesis using assms(7) by simp
  next
    case (2 step must gen grace)
    have "durable_degraded_since (as_health a) \<noteq> None"
      using enqueue_silent_not_durable [OF 2(4,5) assms(2)] by simp
    then show ?thesis using 2 s2 assms(3,7) by (auto simp: expiry_opt_view_def)
  next
    case (3 cache' step must gen grace)
    have "appended env u EVENT_KIND_GRACE_CONSUMED (for_admission lra) gen (sh_auth s) a"
      using enqueue_silent_durable [OF 3(9,10)] by (auto simp: appended_def)
    then show ?thesis using 3 s2 assms(3,7) by (auto simp: expiry_opt_view_def)
  qed
qed


definition graced_shm :: shm where
  "graced_shm = locked_shm\<lparr>sh_lock := Some lock_cache_new, sh_expiry := Some graced_cache\<rparr>"


text \<open>The failure path neither reads nor writes the entries of the lock and expiry caches.\<close>

lemma report_degraded_caches:
  "report_degraded now p l (s\<lparr>sh_lock := a, sh_expiry := b\<rparr>) =
     apfst (\<lambda>s. s\<lparr>sh_lock := a, sh_expiry := b\<rparr>) (report_degraded now p l s)"
  by (simp add: report_degraded_def warn_paused_def case_prod_beta split: option.split)

lemma hook_enqueue_caches:
  "hook_enqueue env u k fl (s\<lparr>sh_lock := a, sh_expiry := b\<rparr>) =
     apfst (\<lambda>s. s\<lparr>sh_lock := a, sh_expiry := b\<rparr>) (hook_enqueue env u k fl s)"
  by (simp add: hook_enqueue_def case_prod_beta)

lemma hook_failure_caches:
  "quiet env \<Longrightarrow> hook_failure env u lra p (s\<lparr>sh_lock := a, sh_expiry := b\<rparr>) =
     apfst (\<lambda>s. s\<lparr>sh_lock := a, sh_expiry := b\<rparr>) (hook_failure env u lra p s)"
  by (simp add: hook_failure_def hook_enqueue_caches report_degraded_caches Let_def case_prod_beta)

lemma hook_failure_frame:
  "quiet env \<Longrightarrow> sh_lock (fst (hook_failure env u lra p s)) = sh_lock s
     \<and> sh_expiry (fst (hook_failure env u lra p s)) = sh_expiry s"
  using same_but_warned_frame [OF report_degraded_same]
  by (simp add: hook_failure_def hook_enqueue_def Let_def case_prod_beta)

text \<open>
  Property C19: a wrong password reveals nothing. For a credential PostgreSQL rejected, two servers
  that agree on the queue, the journal, the health words, the exemptions and the readiness of the lock
  cache, but differ arbitrarily in who is locked, whose password has expired and how many grace logins
  are left, treat the login alike: same end, same log, same queue and journal; and neither cache changes.
\<close>

theorem wrong_password_reveals_nothing:
  assumes "he_status env \<noteq> STATUS_OK" and "quiet env" and "he_prev env = (\<lambda>s. (s, returned))"
    and "sh_auth s = sh_auth t" and "sh_bypass s = sh_bypass t" and "lock_state (sh_lock s) = lock_state (sh_lock t)"
  shows "snd (client_auth_hook env s) = snd (client_auth_hook env t)
    \<and> sh_auth (fst (client_auth_hook env s)) = sh_auth (fst (client_auth_hook env t))
    \<and> sh_lock (fst (client_auth_hook env s)) = sh_lock s \<and> sh_expiry (fst (client_auth_hook env s)) = sh_expiry s"
proof -
  have t: "t = s\<lparr>sh_lock := sh_lock t, sh_expiry := sh_expiry t\<rparr>" using assms(4,5) by simp
  have fail: "snd (hook_failure env u lra p s) = snd (hook_failure env u lra p t)
      \<and> sh_auth (fst (hook_failure env u lra p s)) = sh_auth (fst (hook_failure env u lra p t))" for u lra p
    using hook_failure_caches [OF assms(2), where s = s and a = "sh_lock t" and b = "sh_expiry t"]
    unfolding t [symmetric] by simp
  have "hook_bypass env s = hook_bypass env t" using assms(5) by (simp add: hook_bypass_def split: option.split)
  then show ?thesis
    using assms fail hook_failure_frame [OF assms(2)]
    by (auto simp: client_auth_hook_def call_prev_client_auth_hook_def Let_def case_prod_beta split: option.split)
qed

theorem wrong_password_reveals_nothing_witness:
  "snd (client_auth_hook (sample_login\<lparr>he_status := STATUS_ERROR\<rparr>) locked_shm) =
   snd (client_auth_hook (sample_login\<lparr>he_status := STATUS_ERROR\<rparr>)
     (locked_shm\<lparr>sh_lock := Some (lock_cache_new\<lparr>lc_state := cache_state_raw Ready\<rparr>)\<rparr>))"
proof -
  let ?env = "sample_login\<lparr>he_status := STATUS_ERROR\<rparr>"
  have "he_status ?env \<noteq> STATUS_OK" "quiet ?env" "he_prev ?env = (\<lambda>s. (s, True))"
    by (simp_all add: sample_login_def quiet_def)
  from wrong_password_reveals_nothing [OF this, of locked_shm
      "locked_shm\<lparr>sh_lock := Some (lock_cache_new\<lparr>lc_state := cache_state_raw Ready\<rparr>)\<rparr>"]
  show ?thesis using locked_cache(2) by (simp add: locked_shm_def lock_state_def)
qed

end
