(* ===== verification/Worker_Props.thy ===== *)
theory Worker_Props
  imports Worker_Replay Auth_Hook
begin

text \<open>
  What the worker promises the login hook: enforcement is announced only while a worker runs, a worker
  that ends leaves no cache in service, a durable-recording failure is forgotten only after a fresh
  hydration, a journal batch is drained when transactions and storage work, and an event that can never
  be applied keeps the worker from everything behind it.
\<close>

section \<open>The end of the worker\<close>

lemma health_of_on_health [simp]: "health_of (on_health f w) = f (health_of w)"
  by (simp add: health_of_def on_health_def on_shm_def)

lemma worker_exit_states:
  "lock_state (sh_lock (wd_shm (worker_exit e w))) =
     (if lock_state (sh_lock (wd_shm w)) = Ready then WorkerFailed else lock_state (sh_lock (wd_shm w)))"
  "expiry_state (sh_expiry (wd_shm (worker_exit e w))) =
     (if expiry_state (sh_expiry (wd_shm w)) = ExpiryReady then ExpiryWorkerFailed
      else expiry_state (sh_expiry (wd_shm w)))"
  "bypass_state (sh_bypass (wd_shm (worker_exit e w))) =
     (if bypass_state (sh_bypass (wd_shm w)) = BypassReady then BypassWorkerFailed
      else bypass_state (sh_bypass (wd_shm w)))"
  by (auto simp: worker_exit_def Let_def on_health_def on_shm_def lock_state_def lock_set_state_def
      expiry_state_def expiry_set_state_def bypass_state_def bypass_set_state_def map_option_case
      cache_state_from_raw_def expiry_state_from_raw_def bypass_state_from_raw_def split: option.splits)

lemma worker_exit_health: "\<not> is_running (health_of (worker_exit e w))"
proof -
  have "health_of (worker_exit e w) =
      mark_stopped (case e of ExitNormal \<Rightarrow> STOP_SHUTDOWN | ExitContained \<Rightarrow> STOP_CONTAINED) (health_of w)"
    by (simp add: worker_exit_def Let_def on_health_def on_shm_def health_of_def)
  then show ?thesis by simp
qed

lemma worker_step_stops:
  assumes "wk_phase (worker_step sip t wk) = Stopped e" and "\<forall>e. wk_phase wk \<noteq> Stopped e"
  shows "\<exists>w. wk_world (worker_step sip t wk) = worker_exit e w"
  using assms
  by (auto simp: worker_step_def exit_with_def Let_def split: phase.splits if_splits prod.splits
      hydration_flow.splits flow.splits ConsumeOutcome.splits sum.splits bool.splits)

text \<open>
  Property C7: however the worker ends (a shutdown request in any loop, a failing start, an error that
  reaches the outer guard), the step that ends it leaves no cache Ready and withdraws the running flag,
  so that the login hook finds enforcement paused.
\<close>
theorem stopped_worker_pauses_enforcement:
  assumes "wk_phase (worker_step sip t wk) = Stopped e" and "\<forall>e. wk_phase wk \<noteq> Stopped e"
  shows "let s = wd_shm (wk_world (worker_step sip t wk)) in
    lock_state (sh_lock s) \<noteq> Ready \<and> expiry_state (sh_expiry s) \<noteq> ExpiryReady
    \<and> bypass_state (sh_bypass s) \<noteq> BypassReady
    \<and> enforcement_pause_reason (sh_auth s) = Some WorkerNotRunning"
proof -
  obtain w where w: "wk_world (worker_step sip t wk) = worker_exit e w" using worker_step_stops [OF assms] by blast
  have "\<not> is_running (as_health (sh_auth (wd_shm (worker_exit e w))))"
    using worker_exit_health [of e w] by (simp add: health_of_def)
  then show ?thesis by (simp add: w worker_exit_states Let_def enforcement_pause_reason_def)
qed


section \<open>The marker of a durable-recording failure\<close>

definition marked :: "world \<Rightarrow> bool" where
  "marked w \<longleftrightarrow> durable_degraded_since (health_of w) \<noteq> None"

lemma marked_segment: "marked w \<Longrightarrow> health_of w \<noteq> None"
  by (cases "health_of w") (simp_all add: marked_def durable_degraded_since_def)

lemma marked_failure: "marked w \<Longrightarrow> marked (on_health (mark_durable_failure now) w)"
  using marked_segment [of w] mark_durable_failure_degraded [of "health_of w"] by (auto simp: marked_def)

lemma marked_running [simp]: "marked (on_health mark_running w) = marked w"
  by (simp add: marked_def)

lemma health_shm [simp]:
  "(\<And>s. sh_auth (f s) = sh_auth s) \<Longrightarrow> health_of (on_shm f w) = health_of w"
  by (simp add: health_of_def on_shm_def)

lemma health_auth: "as_health (f (sh_auth (wd_shm w))) = as_health (sh_auth (wd_shm w)) \<Longrightarrow> health_of (on_auth f w) = health_of w"
  by (simp add: health_of_def on_auth_def on_shm_def)

lemma health_journal [simp]: "health_of (on_journal f w) = health_of w"
  by (simp add: on_journal_def health_auth)

lemma handle_io_marked: "marked w \<Longrightarrow> marked (fst (snd (handle_journal_io_failure t cs w)))"
  by (simp add: handle_journal_io_failure_def Let_def marked_failure)

lemma journal_corrupt_marked: "marked w \<Longrightarrow> marked (fst (snd (journal_corrupt cs w)))"
proof -
  have "health_of (on_auth mark_corrupt w) = health_of w"
    by (rule health_auth) (simp add: mark_corrupt_def split: option.split)
  then show "marked w \<Longrightarrow> ?thesis" by (simp add: journal_corrupt_def marked_def)
qed

lemma flow_then_marked:
  "marked (fst (snd r)) \<Longrightarrow> (\<And>cs w. marked w \<Longrightarrow> marked (fst (snd (next cs w)))) \<Longrightarrow> marked (fst (snd (flow_then r next)))"
  by (cases r) (auto simp: flow_then_def split: flow.split)

lemma bypass_refresh_marked: "marked w \<Longrightarrow> marked (fst (snd (consume_bypass_refresh t g cs w)))"
proof -
  have "health_of (fst (run_bypass_refresh_transaction t w)) = health_of w"
    by (simp add: run_bypass_refresh_transaction_def case_prod_beta)
  then show "marked w \<Longrightarrow> ?thesis"
    by (simp add: consume_bypass_refresh_def case_prod_beta Let_def marked_def split: sum.split)
qed

lemma open_batch_marked: "marked w \<Longrightarrow> marked (fst (snd (open_batch t cs w)))"
proof -
  assume a: "marked w"
  have "marked (on_journal f w)" for f using a by (simp add: marked_def)
  then show ?thesis
    using a handle_io_marked journal_corrupt_marked
    by (auto simp: open_batch_def case_prod_beta split: option.split sum.split JournalError.split)
qed

lemma fetch_batch_marked: "marked w \<Longrightarrow> marked (fst (snd (fetch_batch t cs w)))"
proof -
  assume a: "marked w"
  have "health_of (on_auth (\<lambda>_. fst (rotate_journal (tk_rotate t) (sh_auth (wd_shm w)))) w) = health_of w"
    by (rule health_auth) (simp add: rotate_journal_def case_prod_beta)
  then have "marked (on_auth (\<lambda>_. fst (rotate_journal (tk_rotate t) (sh_auth (wd_shm w)))) w)"
    using a by (simp add: marked_def)
  then show ?thesis
    using a open_batch_marked handle_io_marked journal_corrupt_marked
    by (auto simp: fetch_batch_def case_prod_beta Let_def split: sum.split bool.split JournalError.split)
qed

lemma finish_batch_marked: "marked w \<Longrightarrow> marked (fst (snd (finish_batch t cs w)))"
proof -
  assume a: "marked w"
  have "marked (on_journal f w)" for f using a by (simp add: marked_def)
  moreover then have "marked ((on_journal f w)\<lparr>wd_db := d\<rparr>)" for f d by (simp add: marked_def health_of_def)
  ultimately show ?thesis
    using handle_io_marked
    by (auto simp: finish_batch_def case_prod_beta Let_def split: sum.split cleanup.split JournalError.split)
qed

lemma fetch_event_marked: "marked w \<Longrightarrow> marked (fst (snd (fetch_event sip t cs w)))"
  using finish_batch_marked handle_io_marked journal_corrupt_marked
  by (auto simp: fetch_event_def case_prod_beta split: option.split sum.split JournalError.split)

lemma ack_claim_health [simp]: "as_health (fst (ack_claim tk a)) = as_health a"
  by (simp add: ack_claim_def case_prod_beta Let_def split: option.split)

lemma run_event_transaction_health [simp]:
  "health_of (fst (run_event_transaction te g i u k fl gen token w)) = health_of w"
proof -
  have "xact_callback clock XactCommit (p, s) = Inr (p1, s1) \<Longrightarrow> as_health (sh_auth s1) = as_health (sh_auth s)"
    for clock p s p1 s1 by (auto simp: Let_def apply_all_def split: option.splits)
  then show ?thesis
    unfolding run_event_transaction_def health_of_def
    by (auto simp: Let_def case_prod_beta simp del: xact_callback.simps split: sum.split db_error.split)
qed

lemma process_event_marked: "marked w \<Longrightarrow> marked (fst (snd (process_event t g cs w)))"
proof (cases "cs_pending_event cs")
  case (Some ev)
  assume a: "marked w"
  define w1 where "w1 = on_auth (\<lambda>_. fst (matching_claim (ev_event_id ev) (sh_auth (wd_shm w)))) w"
  have "health_of w1 = health_of w"
    unfolding w1_def by (rule health_auth) (simp add: matching_claim_def claim_event_def case_prod_beta split: option.split)
  then have w1: "marked w1" using a by (simp add: marked_def)
  have txn: "marked (fst (run_event_transaction te g i u k fl gen token w1))" for te i u k fl gen token
    using w1 by (simp add: marked_def)
  have mk: "marked v \<Longrightarrow> marked (fst (snd (suspend_and_backoff t b cs v)))" for v b
    by (simp add: suspend_and_backoff_def case_prod_beta marked_def health_of_def)
  have rs: "marked v \<Longrightarrow> marked (fst (snd (event_committed cs v)))" for v
    by (simp add: event_committed_def case_prod_beta Let_def marked_def health_of_def)
  show ?thesis
    using journal_corrupt_marked [OF w1] mk rs txn
    by (simp add: process_event_def Some case_prod_beta Let_def w1_def [symmetric] split: option.split EventTxnOutcome.split)
qed (simp add: process_event_def)

lemma consume_iteration_marked: "marked w \<Longrightarrow> marked (fst (snd (snd (consume_iteration sip t g cs w))))"
  by (auto simp: consume_iteration_def Let_def split: option.split intro!: flow_then_marked bypass_refresh_marked
      fetch_batch_marked fetch_event_marked process_event_marked)


lemma worker_exit_marked [simp]: "marked (worker_exit e w) = marked w"
  by (simp add: marked_def worker_exit_def Let_def health_of_def on_health_def on_shm_def)

lemma hydrate_once_ok:
  "snd (snd (hydrate_lock_cache_once t f w)) \<longleftrightarrow> (\<exists>r. snd (run_hydration_transaction t w) = Inr r)"
  "snd (snd (hydrate_expiry_cache_once t f w)) \<longleftrightarrow> (\<exists>r. snd (run_expiry_hydration_transaction t w) = Inr r)"
  "snd (snd (refresh_bypass_cache_once t f w)) \<longleftrightarrow> (\<exists>r. snd (run_bypass_refresh_transaction t w) = Inr r)"
  by (auto simp: hydrate_lock_cache_once_def hydrate_expiry_cache_once_def refresh_bypass_cache_once_def
      case_prod_beta split: sum.split)

text \<open>The three passes do not see each other: each reads the tables and its own cache.\<close>

lemma passes_independent:
  "snd (run_expiry_hydration_transaction t (fst (hydrate_lock_cache_once t f w))) = snd (run_expiry_hydration_transaction t w)"
  "snd (run_bypass_refresh_transaction t (fst (hydrate_expiry_cache_once t f1 (fst (hydrate_lock_cache_once t f w)))))
     = snd (run_bypass_refresh_transaction t w)"
  by (auto simp: hydrate_lock_cache_once_def hydrate_expiry_cache_once_def run_hydration_transaction_def
      run_expiry_hydration_transaction_def run_bypass_refresh_transaction_def case_prod_beta on_shm_def split: sum.split)

lemma hydrate_once_health:
  "health_of (fst (hydrate_lock_cache_once t f w)) = health_of w"
  "health_of (fst (hydrate_expiry_cache_once t f w)) = health_of w"
  "health_of (fst (refresh_bypass_cache_once t f w)) = health_of w"
  by (auto simp: hydrate_lock_cache_once_def hydrate_expiry_cache_once_def refresh_bypass_cache_once_def
      run_hydration_transaction_def run_expiry_hydration_transaction_def run_bypass_refresh_transaction_def
      case_prod_beta on_shm_def health_of_def split: sum.split)

lemma clear_durable_unmarked:
  assumes "marked v" and "\<not> marked (clear_durable_degradation_if_quiet now obs v)"
  shows "\<exists>since. obs = Some since \<and> DURABLE_QUIET_PERIOD_US \<le> saturating_i64 (now - since)
    \<and> durable_degraded_since (health_of v) = Some since"
proof -
  obtain h where h: "health_of v = Some h" "wh_durable_degraded_us h \<noteq> 0"
    using assms(1) by (cases "health_of v") (auto simp: marked_def durable_degraded_since_def split: if_splits)
  obtain since where s: "obs = Some since" "\<not> saturating_i64 (now - since) < DURABLE_QUIET_PERIOD_US"
    using assms by (auto simp: clear_durable_degradation_if_quiet_def split: option.splits if_splits)
  then have "wh_durable_degraded_us h = since"
    using assms(2) h
    by (auto simp: clear_durable_degradation_if_quiet_def marked_def durable_degraded_since_def
        clear_durable_degraded_def split: if_splits)
  then show ?thesis using s h by (simp add: durable_degraded_since_def)
qed

text \<open>What a hydration attempt has to have achieved before it forgets a failure.\<close>

lemma hydrate_attempt_unmarks:
  assumes "hydrate_attempt t g d f w = (g1, w1, fl)" and "marked w" "\<not> marked w1"
    and "\<And>v. marked v \<Longrightarrow> marked (tk_during t v)"
  shows "fl = HydrationReady
    \<and> (\<exists>since v. durable_degraded_since (health_of w) = Some since
        \<and> DURABLE_QUIET_PERIOD_US \<le> saturating_i64 (tk_now t - since)
        \<and> durable_degraded_since (health_of (tk_during t v)) = Some since)
    \<and> (lockout_enforcement_enabled g1 \<longrightarrow> (\<exists>r. snd (run_hydration_transaction t w) = Inr r))
    \<and> (expiry_login_enforcement_active g1 \<longrightarrow> (\<exists>r. snd (run_expiry_hydration_transaction t w) = Inr r))
    \<and> (lockout_enforcement_enabled g1 \<or> expiry_login_enforcement_active g1 \<longrightarrow>
         (\<exists>r. snd (run_bypass_refresh_transaction t w) = Inr r))"
proof -
  obtain v1 f1 b1 where h1: "hydrate_lock_cache_once t f w = (v1, f1, b1)" by (metis prod_cases3)
  obtain v2 f2 b2 where h2: "hydrate_expiry_cache_once t f1 v1 = (v2, f2, b2)" by (metis prod_cases3)
  obtain v3 f3 b3 where h3: "refresh_bypass_cache_once t f2 v2 = (v3, f3, b3)" by (metis prod_cases3)
  have b: "b1 \<longleftrightarrow> (\<exists>r. snd (run_hydration_transaction t w) = Inr r)"
    "b2 \<longleftrightarrow> (\<exists>r. snd (run_expiry_hydration_transaction t w) = Inr r)"
    "b3 \<longleftrightarrow> (\<exists>r. snd (run_bypass_refresh_transaction t w) = Inr r)"
    using hydrate_once_ok(1) [of t f w] hydrate_once_ok(2) [of t f1 v1] hydrate_once_ok(3) [of t f2 v2]
      passes_independent(1) [of t f w] passes_independent(2) [of t f1 f w] h1 h2 h3 by auto
  have "health_of v3 = health_of w"
    using hydrate_once_health(1) [of t f w] hydrate_once_health(2) [of t f1 v1] hydrate_once_health(3) [of t f2 v2]
      h1 h2 h3 by simp
  then have m: "marked (tk_during t v3)" using assms(2,4) by (simp add: marked_def)
  have "w1 \<noteq> w" "w1 \<noteq> tk_during t v3" using assms(2,3) m by auto
  then have "w1 = clear_durable_degradation_if_quiet (tk_now t) (durable_degraded_since (health_of w)) (tk_during t v3)"
    and "fl = HydrationReady" and "(lockout_enforcement_enabled g1 \<longrightarrow> b1) \<and> (expiry_login_enforcement_active g1 \<longrightarrow> b2)
      \<and> (lockout_enforcement_enabled g1 \<or> expiry_login_enforcement_active g1 \<longrightarrow> b3)"
    using assms(1) by (auto simp: hydrate_attempt_def h1 h2 h3 Let_def split: if_splits)
  then show ?thesis using clear_durable_unmarked [OF m] assms(3) b by metis
qed

text \<open>
  Property C8: enforcement that a durable-recording failure has paused resumes only after a fresh
  hydration. If the marker of a failure is set when a step of the worker begins and gone when it ends,
  while other processes only set it, then the step is a hydration attempt that lets consumption start:
  the failure is at least the quiet period old, no newer one was recorded during the attempt, and every
  cache an enabled feature consults has just been rebuilt from the tables.
\<close>
theorem enforcement_resumes_only_after_hydration:
  assumes "marked (tk_others t (wk_world wk))" and "\<not> marked (wk_world (worker_step sip t wk))"
    and "\<And>v. marked v \<Longrightarrow> marked (tk_during t v)"
  defines "w \<equiv> tk_others t (wk_world wk)" and "g \<equiv> wk_guc (worker_step sip t wk)"
  shows "(\<exists>d f cs. wk_phase wk = Hydrating d f \<and> wk_phase (worker_step sip t wk) = Consuming cs)
    \<and> (\<exists>since v. durable_degraded_since (health_of w) = Some since
        \<and> DURABLE_QUIET_PERIOD_US \<le> saturating_i64 (tk_now t - since)
        \<and> durable_degraded_since (health_of (tk_during t v)) = Some since)
    \<and> (lockout_enforcement_enabled g \<longrightarrow> (\<exists>r. snd (run_hydration_transaction t w) = Inr r))
    \<and> (expiry_login_enforcement_active g \<longrightarrow> (\<exists>r. snd (run_expiry_hydration_transaction t w) = Inr r))
    \<and> (lockout_enforcement_enabled g \<or> expiry_login_enforcement_active g \<longrightarrow>
         (\<exists>r. snd (run_bypass_refresh_transaction t w) = Inr r))"
proof (cases "wk_phase wk")
  case (Hydrating d f)
  obtain g1 w1 fl where h: "hydrate_attempt t (wk_guc wk) d f w = (g1, w1, fl)" by (metis prod_cases3)
  have "\<not> marked w1"
    using assms(2) Hydrating h by (cases fl) (auto simp: worker_step_def Let_def w_def exit_with_def)
  note u = hydrate_attempt_unmarks [OF h _ this assms(3)]
  then have "fl = HydrationReady" using assms(1) by (simp add: w_def)
  then have "g = g1" "\<exists>cs. wk_phase (worker_step sip t wk) = Consuming cs"
    using Hydrating h by (auto simp: worker_step_def Let_def w_def g_def)
  then show ?thesis using u assms(1) Hydrating by (simp add: w_def)
next
  case (Consuming cs)
  have "marked (fst (snd (snd (consume_iteration sip t (wk_guc wk) cs w))))"
    using assms(1) consume_iteration_marked by (simp add: w_def)
  then show ?thesis using assms(2) Consuming
    by (auto simp: worker_step_def Let_def w_def exit_with_def split: prod.splits flow.splits ConsumeOutcome.splits)
qed (use assms(1,2) in \<open>auto simp: worker_step_def Let_def w_def exit_with_def
      split: if_splits prod.splits sum.splits bool.splits\<close>)

end
