(* ===== verification/Worker_Progress.thy ===== *)
theory Worker_Progress
  imports Worker_Props
begin

text \<open>
  Progress of the worker on undisturbed iterations: a batch is drained when its transactions commit and
  the storage works, and an event whose transaction is refused every time holds up everything behind it.
\<close>

section \<open>Undisturbed iterations\<close>

fun run_ticks :: "siphash \<Rightarrow> tick list \<Rightarrow> worker \<Rightarrow> worker" where
  "run_ticks sip [] wk = wk"
| "run_ticks sip (t # ts) wk = run_ticks sip ts (worker_step sip t wk)"

text \<open>No signal, no other process, no refresh of the exemptions due since \<open>i0\<close>, and every wait returns.\<close>

definition quiet_tick :: "nat \<Rightarrow> tick \<Rightarrow> bool" where
  "quiet_tick i0 t \<longleftrightarrow> tk_others t = id \<and> \<not> tk_sigterm t \<and> tk_reload t = None \<and> tk_wait t
     \<and> tk_instant t - i0 < BYPASS_REFRESH_INTERVAL"

definition gates_open :: "guc \<Rightarrow> DegradedByRetry \<Rightarrow> world \<Rightarrow> bool" where
  "gates_open g dg w \<longleftrightarrow> queue_state (sh_auth (wd_shm w)) \<noteq> Corrupt \<and> \<not> marked w
     \<and> (lockout_enforcement_enabled g \<longrightarrow> lock_state (sh_lock (wd_shm w)) \<in> {Ready, Overflow}
          \<or> lock_state (sh_lock (wd_shm w)) = WorkerFailed \<and> dg_lock dg)
     \<and> (expiry_login_enforcement_active g \<longrightarrow> expiry_state (sh_expiry (wd_shm w)) \<in> {ExpiryReady, ExpiryOverflow}
          \<or> expiry_state (sh_expiry (wd_shm w)) = ExpiryWorkerFailed \<and> dg_expiry dg)
     \<and> (lockout_enforcement_enabled g \<or> expiry_login_enforcement_active g \<longrightarrow>
          bypass_state (sh_bypass (wd_shm w)) \<in> {BypassReady, BypassOverflow})"

lemma gates_open_pass: "gates_open g (cs_degraded cs) w \<Longrightarrow> consume_gates t g cs w = None"
proof -
  assume a: "gates_open g (cs_degraded cs) w"
  let ?s = "wd_shm w" and ?dg = "cs_degraded cs"
  have 1: "\<not> (lockout_enforcement_enabled g \<and> lock_state (sh_lock ?s) \<in> {NotReady, WorkerFailed}
      \<and> \<not> (dg_lock ?dg \<and> lock_state (sh_lock ?s) = WorkerFailed))"
    using a unfolding gates_open_def by auto
  have 2: "\<not> (expiry_login_enforcement_active g \<and> expiry_state (sh_expiry ?s) \<in> {ExpiryNotReady, ExpiryWorkerFailed}
      \<and> \<not> (dg_expiry ?dg \<and> expiry_state (sh_expiry ?s) = ExpiryWorkerFailed))"
    using a unfolding gates_open_def by auto
  have 3: "\<not> ((lockout_enforcement_enabled g \<or> expiry_login_enforcement_active g)
      \<and> bypass_state (sh_bypass ?s) \<in> {BypassNotReady, BypassWorkerFailed})"
    using a unfolding gates_open_def by auto
  have 4: "queue_state (sh_auth ?s) \<noteq> Corrupt" "durable_degraded_since (as_health (sh_auth ?s)) = None"
    using a by (simp_all add: gates_open_def marked_def health_of_def)
  show "consume_gates t g cs w = None"
    unfolding consume_gates_def Let_def if_not_P [OF 4(1)] if_not_P [OF 1] if_not_P [OF 2] if_not_P [OF 3] 4(2) by simp
qed

lemma quiet_iteration:
  assumes "quiet_tick (cs_last_bypass_refresh cs) t" and "gates_open g (cs_degraded cs) w"
  shows "consume_iteration sip t g cs w =
    (g, flow_then (flow_then (fetch_batch t cs w) (fetch_event sip t)) (process_event t g))"
  using assms gates_open_pass [OF assms(2)]
  by (simp add: consume_iteration_def quiet_tick_def reload_def consume_bypass_refresh_def flow_then_def [of "(cs, w, Proceed)"])

lemma quiet_step:
  assumes "wk_phase wk = Consuming cs" and "quiet_tick (cs_last_bypass_refresh cs) t"
    and "gates_open (wk_guc wk) (cs_degraded cs) (wk_world wk)"
    and "flow_then (flow_then (fetch_batch t cs (wk_world wk)) (fetch_event sip t)) (process_event t (wk_guc wk))
      = (cs1, w1, Continue)"
  shows "worker_step sip t wk = \<lparr>wk_phase = Consuming cs1, wk_guc = wk_guc wk, wk_world = w1\<rparr>"
  using assms quiet_iteration [OF assms(2,3), of sip]
  by (simp add: worker_step_def Let_def quiet_tick_def)

section \<open>An event that cannot be applied\<close>

text \<open>
  A grace login of the current password generation while the authoritative row has no grace login left.
\<close>

definition contradictory_row :: "database \<Rightarrow> username \<Rightarrow> timestamp \<Rightarrow> bool" where
  "contradictory_row d u gen \<longleftrightarrow> (\<exists>r n. map_of (db_password_expiry d) u = Some r \<and> er_last_changed r = Some gen
     \<and> er_grace_logins_remaining r = Some n \<and> n \<le> 0 \<and> n \<noteq> - 1)"

lemma contradictory_not_committed:
  assumes "contradictory_row (wd_db w) u gen" and "\<not> has_receipt i (wd_db w)"
  shows "snd (run_event_transaction te g i u GraceConsumed fl gen token w) \<noteq> Committed"
proof
  assume c: "snd (run_event_transaction te g i u GraceConsumed fl gen token w) = Committed"
  let ?s = "\<lparr>ss_db = wd_db w, ss_pending = wd_pending w\<rparr>"
  have "snd (event_body te g i u GraceConsumed fl gen ?s) = Inr ()"
    using c by (auto simp: run_event_transaction_def Let_def case_prod_beta split: if_splits sum.splits db_error.splits)
  then obtain s1 x where "event_body te g i u GraceConsumed fl gen ?s = (s1, Inr x)" by (metis prod.collapse)
  then show False
  proof (cases rule: event_body_cases)
    case replay
    then show ?thesis using assms(2) by simp
  next
    case fresh
    then show ?thesis
      using assms(1)
      by (auto simp: apply_event_def contradictory_row_def persist_grace_consumption_def spi_def receipted_def Let_def
          split: if_splits prod.splits sum.splits)
  qed
qed

text \<open>The state a stuck worker stays in.\<close>

definition stuck :: "SharedAuthEvent \<Rightarrow> consumer \<Rightarrow> guc \<Rightarrow> world \<Rightarrow> bool" where
  "stuck ev cs g w \<longleftrightarrow> cs_batch cs \<noteq> None \<and> cs_pending_event cs = Some ev
     \<and> gates_open g (cs_degraded cs) w \<and> auth_inv (sh_auth (wd_shm w))
     \<and> kind_from_raw (ev_kind ev) = Some GraceConsumed \<and> flags_from_raw (ev_flags ev) \<noteq> None
     \<and> (\<exists>u. username_from_bytes (ev_username ev) = Some u \<and> contradictory_row (wd_db w) u (ev_generation ev))
     \<and> \<not> has_receipt (ev_event_id ev) (wd_db w)"

lemma gates_open_mark:
  assumes "gates_open g dg w" and "degraded_mark a (dg, wd_shm w) = (dg1, s)"
  shows "gates_open g dg1 (w\<lparr>wd_shm := s\<rparr>)"
proof -
  have "sh_auth s = sh_auth (wd_shm w)" using degraded_mark_auth [of a "(dg, wd_shm w)"] assms(2) by simp
  moreover have "sh_bypass s = sh_bypass (wd_shm w)"
    using assms(2) by (auto simp: degraded_mark_def Let_def split: if_splits)
  ultimately show ?thesis
    using assms(1) degraded_mark_lock [of a dg "wd_shm w"] degraded_mark_expiry [of a dg "wd_shm w"]
    unfolding assms(2) gates_open_def by (auto simp: marked_def health_of_def)
qed

lemma stuck_process:
  assumes "stuck ev cs g w" and "quiet_tick i0 t"
  shows "\<exists>cs1 w1. process_event t g cs w = (cs1, w1, Continue) \<and> stuck ev cs1 g w1
    \<and> cs_last_bypass_refresh cs1 = cs_last_bypass_refresh cs \<and> wd_db w1 = wd_db w \<and> wd_applied w1 = wd_applied w"
proof -
  obtain u fl where u: "username_from_bytes (ev_username ev) = Some u" "contradictory_row (wd_db w) u (ev_generation ev)"
    and fl: "flags_from_raw (ev_flags ev) = Some fl" using assms(1) by (auto simp: stuck_def)
  let ?a = "sh_auth (wd_shm w)"
  have claim: "fst (matching_claim (ev_event_id ev) ?a) = ?a"
    using assms(1) by (simp add: stuck_def matching_claim_def case_prod_beta)
  have same: "on_auth (\<lambda>_. ?a) w = w" by (simp add: on_auth_def on_shm_def)
  obtain w1 r where r: "run_event_transaction (tk_txn t) g (ev_event_id ev) u GraceConsumed fl (ev_generation ev)
      (snd (matching_claim (ev_event_id ev) ?a)) w = (w1, r)" by fastforce
  have "r \<noteq> Committed"
    using contradictory_not_committed [OF u(2)] assms(1) r by (metis stuck_def snd_conv)
  moreover then have w1: "wd_db w1 = wd_db w" "wd_shm w1 = wd_shm w" "wd_applied w1 = wd_applied w"
    using r by (auto simp: run_event_transaction_def Let_def split: if_splits prod.splits sum.splits db_error.splits)
  obtain dg s where m: "degraded_mark (for_event GraceConsumed fl) (cs_degraded cs, wd_shm w) = (dg, s)" by fastforce
  define cs1 where "cs1 = cs\<lparr>cs_degraded := dg, cs_event_failures := saturating_inc_u32 (cs_event_failures cs)\<rparr>"
  have "sh_auth s = ?a" using degraded_mark_auth [of "for_event GraceConsumed fl" "(cs_degraded cs, wd_shm w)"] m by simp
  then have "stuck ev cs1 g (w1\<lparr>wd_shm := s\<rparr>)"
    using assms(1) gates_open_mark [OF _ m, of g] w1 unfolding stuck_def cs1_def
    by (auto simp: gates_open_def marked_def health_of_def)
  moreover have "process_event t g cs w = (cs1, w1\<lparr>wd_shm := s\<rparr>, Continue)"
    using assms u(1) fl claim r m w1(2) calculation(1)
    by (cases r) (simp_all add: process_event_def stuck_def case_prod_beta Let_def same suspend_and_backoff_def
        quiet_tick_def cs1_def)
  ultimately show ?thesis using w1 by (simp add: cs1_def)
qed



section \<open>A commit keeps the gates open\<close>

lemma cache_ops_states:
  "lock_state (fst (lock_set now u x c)) \<in> {lock_state c, Overflow}" "lock_state (fst (lock_clear u c)) = lock_state c"
  "expiry_state (fst (set_entry u m gen n e)) \<in> {expiry_state e, ExpiryOverflow}"
  "expiry_state (fst (clear_entry u e)) = expiry_state e"
  by (auto simp: lock_set_def lock_clear_def set_entry_def clear_entry_def lock_state_def expiry_state_def
      cache_state_from_raw_def expiry_state_from_raw_def split: option.split)

lemma apply_entry_states:
  "lock_state (sh_lock (apply_entry now e s)) \<in> {lock_state (sh_lock s), Overflow}"
  "expiry_state (sh_expiry (apply_entry now e s)) \<in> {expiry_state (sh_expiry s), ExpiryOverflow}"
  "sh_bypass (apply_entry now e s) = sh_bypass s"
  using cache_ops_states(1) [of now "pe_username e" _ "sh_lock s"] cache_ops_states(2) [of "pe_username e" "sh_lock s"]
    cache_ops_states(3) [of "pe_username e" _ _ _ "sh_expiry s"] cache_ops_states(4) [of "pe_username e" "sh_expiry s"]
  by (auto simp: apply_entry_def Let_def split: option.split CacheDecision.split PendingExpiry.split)

lemma apply_entries_states:
  "lock_state (sh_lock (apply_entries clock i es s)) \<in> {lock_state (sh_lock s), Overflow}
   \<and> expiry_state (sh_expiry (apply_entries clock i es s)) \<in> {expiry_state (sh_expiry s), ExpiryOverflow}
   \<and> sh_bypass (apply_entries clock i es s) = sh_bypass s"
proof (induction clock i es s rule: apply_entries.induct)
  case (3 clock i e es s)
  then show ?case using apply_entry_states [of "clock i" e s] by auto
qed simp_all

text \<open>The token of a claim is acknowledged when nothing happened in between.\<close>

lemma matching_claim_acks:
  assumes "auth_inv a" and "matching_claim i a = (a1, token)"
  shows "a1 = a \<and> (\<forall>tk. token = Some tk \<longrightarrow> (\<exists>r r1. as_ring a = Some r \<and> as_lock a \<and> ack tk r = (r1, Acknowledged)))"
proof -
  have "a1 = a" using assms claim_event_same [OF assms(1)] by (simp add: matching_claim_def case_prod_beta)
  moreover have "\<exists>r r1. as_ring a = Some r \<and> as_lock a \<and> ack tk r = (r1, Acknowledged)" if tok: "token = Some tk" for tk
  proof -
    obtain r where r: "as_ring a = Some r" "as_lock a" "indices_valid r" "rg_head r \<noteq> rg_tail r"
      "tk = \<lparr>tk_slot = rg_tail r, tk_seq = ev_seq (rg_events r ! rg_tail r)\<rparr>"
      using assms(2) tok
      by (auto simp: matching_claim_def claim_event_def claim_def Let_def split: option.splits if_splits prod.splits)
    moreover have "\<not> RING_SLOTS \<le> rg_tail r" using r(3) by (simp add: indices_valid_def)
    ultimately have "snd (ack tk r) = Acknowledged" by (simp add: ack_def Let_def)
    then show ?thesis using r by (metis prod.collapse)
  qed
  ultimately show ?thesis by blast
qed

lemma ack_not_corrupt: "ack tk r = (r1, Acknowledged) \<Longrightarrow> ring_state r \<noteq> Corrupt \<Longrightarrow> ring_state r1 \<noteq> Corrupt"
  by (auto simp: ack_def Let_def ring_state_def split: if_splits)

lemma acked_queue:
  assumes "queue_state a \<noteq> Corrupt" "as_ring a = Some r" "as_lock a" "ack tk r = (r1, Acknowledged)" "auth_inv a"
  shows "queue_state (fst (ack_claim tk a)) \<noteq> Corrupt" and "auth_inv (fst (ack_claim tk a))"
    and "as_lock (fst (ack_claim tk a))"
proof -
  have f: "fst (ack_claim tk a) = a\<lparr>as_ring := Some r1\<rparr>" using assms(2-4) by (simp add: ack_claim_def)
  show "queue_state (fst (ack_claim tk a)) \<noteq> Corrupt" "as_lock (fst (ack_claim tk a))"
    using assms ack_not_corrupt [OF assms(4)] by (simp_all add: f queue_state_def ring_state_def)
  have "ring_inv r1" using assms(2,4,5) ack_inv [of r tk] by (simp add: auth_inv_def)
  then show "auth_inv (fst (ack_claim tk a))" by (simp add: f auth_inv_def)
qed


text \<open>The world as a committed event leaves it.\<close>

definition serving :: "guc \<Rightarrow> world \<Rightarrow> bool" where
  "serving g w \<longleftrightarrow> gates_open g degraded_none w \<and> auth_inv (sh_auth (wd_shm w)) \<and> wd_pending w = pending_new
     \<and> as_lock (sh_auth (wd_shm w))"

lemma committed_shm:
  assumes "run_event_transaction te g i u k fl gen token w = (w1, Committed)" and "wd_pending w = pending_new"
  shows "\<exists>es. wd_shm w1 = (apply_entries (te_commit_clock te) 0 es (wd_shm w))\<lparr>sh_auth :=
    (case token of None \<Rightarrow> sh_auth (wd_shm w) | Some tk \<Rightarrow> fst (ack_claim tk (sh_auth (wd_shm w))))\<rparr>"
proof -
  let ?s = "\<lparr>ss_db = wd_db w, ss_pending = wd_pending w\<rparr>"
  obtain s1 x where b: "event_body te g i u k fl gen ?s = (s1, Inr x)"
    and c: "Inr (wd_pending w1, wd_shm w1) = xact_callback (te_commit_clock te) XactCommit
      ((case token of None \<Rightarrow> ss_pending s1 | Some tk \<Rightarrow> stage_ack (de_subid (te_db te)) tk (ss_pending s1)), wd_shm w)"
    using assms(1) by (auto simp: run_event_transaction_def Let_def split: if_splits prod.splits sum.splits db_error.splits)
  have "pn_ack (ss_pending s1) = None"
    using event_body_size [of te g i u k fl gen ?s] assms(2) b by (simp add: staging_frame_def pending_new_def)
  moreover have keep: "s\<lparr>sh_auth := a\<rparr> = s" if "sh_auth s = a" for s :: shm and a using that by (cases s) simp
  ultimately show ?thesis
  proof (cases token)
    case None
    let ?es = "take (live (ss_pending s1)) (pn_entries (ss_pending s1))"
    have "wd_shm w1 = apply_entries (te_commit_clock te) 0 ?es (wd_shm w)"
      using c None \<open>pn_ack (ss_pending s1) = None\<close> by (simp add: Let_def apply_all_def)
    then show ?thesis using None keep [OF apply_entries_auth] by (intro exI [of _ ?es]) simp
  qed (use c in \<open>auto simp: Let_def apply_all_def stage_ack_def\<close>)
qed

lemma run_event_transaction_serving:
  assumes "serving g w" and "matching_claim i (sh_auth (wd_shm w)) = (a, token)"
    and "run_event_transaction te g j u k fl gen token w = (w1, Committed)"
  shows "serving g w1" and "a = sh_auth (wd_shm w)"
proof -
  let ?a = "sh_auth (wd_shm w)"
  note m = matching_claim_acks [OF _ assms(2)]
  show "a = ?a" using m assms(1) by (simp add: serving_def)
  have new: "wd_pending w = pending_new" using assms(1) by (simp add: serving_def)
  define a1 where "a1 = (case token of None \<Rightarrow> ?a | Some tk \<Rightarrow> fst (ack_claim tk ?a))"
  obtain es where shm: "wd_shm w1 = (apply_entries (te_commit_clock te) 0 es (wd_shm w))\<lparr>sh_auth := a1\<rparr>"
    using committed_shm [OF assms(3) new] by (auto simp: a1_def)
  have q: "queue_state ?a \<noteq> Corrupt" "auth_inv ?a" "as_lock ?a" using assms(1) by (simp_all add: serving_def gates_open_def)
  have "queue_state a1 \<noteq> Corrupt \<and> auth_inv a1 \<and> as_lock a1"
  proof (cases token)
    case (Some tk)
    then obtain r r1 where "as_ring ?a = Some r" "ack tk r = (r1, Acknowledged)" using m q(2) by auto
    then show ?thesis using acked_queue [OF q(1) _ q(3) _ q(2)] Some by (simp add: a1_def)
  qed (use q in \<open>simp add: a1_def\<close>)
  moreover have "marked w1 = marked w"
    using run_event_transaction_health [of te g j u k fl gen token w] assms(3) by (simp add: marked_def)
  moreover have "wd_pending w1 = pending_new"
    using run_event_transaction_idle [of w te g j u k fl gen token] assms(3) new by simp
  ultimately show "serving g w1"
    using assms(1) apply_entries_states [of "te_commit_clock te" 0 es "wd_shm w"]
    unfolding serving_def gates_open_def shm by (auto simp: degraded_none_def)
qed

section \<open>Draining a batch\<close>

definition storage_ok :: "tick \<Rightarrow> bool" where
  "storage_ok t \<longleftrightarrow> tk_rotate t = rotate_ok \<and> tk_reader t = reader_ok \<and> tk_remove_ok t \<and> tk_remove_sync_ok t
     \<and> tk_cleanup t = CleanupCommits"

text \<open>The transactions of an iteration commit, for every event of the batch.\<close>

definition applies_all :: "guc \<Rightarrow> SharedAuthEvent list \<Rightarrow> tick \<Rightarrow> bool" where
  "applies_all g es t \<longleftrightarrow> te_start_ok (tk_txn t) \<and> te_commit_ok (tk_txn t)
     \<and> (\<forall>e \<in> set es. \<forall>u k fl s. username_from_bytes (ev_username e) = Some u \<longrightarrow> kind_from_raw (ev_kind e) = Some k
          \<longrightarrow> flags_from_raw (ev_flags e) = Some fl \<longrightarrow> ss_pending s = pending_new
          \<longrightarrow> (\<exists>s1. event_body (tk_txn t) g (ev_event_id e) u k fl (ev_generation e) s = (s1, Inr ())))"

text \<open>The worker between two events of a batch, with \<open>rest\<close> unread.\<close>

definition reading :: "siphash \<Rightarrow> guc \<Rightarrow> nat \<Rightarrow> SharedAuthEvent list \<Rightarrow> consumer \<Rightarrow> world \<Rightarrow> bool" where
  "reading sip g n rest cs w \<longleftrightarrow> serving g w \<and> cs_event_failures cs = 0 \<and> cs_degraded cs = degraded_none
     \<and> cs_pending_event cs = None \<and> jf_processing (journal_of w) \<noteq> None \<and> jf_data_dir (journal_of w)
     \<and> cs_batch cs = Some \<lparr>jr_inner = records sip rest, jr_complete_records = n + length rest, jr_read_records = n\<rparr>"

definition unreceipted :: "database \<Rightarrow> byte list list \<Rightarrow> byte list list" where
  "unreceipted d ids = filter (\<lambda>i. \<not> has_receipt i d) ids"

lemma read_one:
  assumes "event_valid e"
  shows "next_event sip reader_ok \<lparr>jr_inner = records sip (e # rest), jr_complete_records = n + length (e # rest), jr_read_records = n\<rparr>
    = (\<lparr>jr_inner = records sip rest, jr_complete_records = (n + 1) + length rest, jr_read_records = n + 1\<rparr>,
       Inr (Some (durable e)))"
  using assms by (simp add: next_event_def Let_def decode_encode durable_def encode_length event_valid_wf reader_ok_def)

text \<open>The iteration that reads the next record of the batch and commits its transaction.\<close>

lemma process_committed:
  assumes "reading sip g n (e # rest) cs w" and "event_valid e" and "storage_ok t"
    and "username_from_bytes (ev_username e) = Some u" "kind_from_raw (ev_kind e) = Some k"
    and "flags_from_raw (ev_flags e) = Some fl"
    and "matching_claim (ev_event_id e) (sh_auth (wd_shm w)) = (a, token)"
    and "run_event_transaction (tk_txn t) g (ev_event_id e) u k fl (ev_generation e) token w = (w1, Committed)"
  shows "\<exists>cs1. flow_then (fetch_event sip t cs w) (process_event t g) = (cs1, w1, Continue)
    \<and> reading sip g (n + 1) rest cs1 w1 \<and> cs_last_bypass_refresh cs1 = cs_last_bypass_refresh cs"
proof -
  let ?rd = "\<lparr>jr_inner = records sip rest, jr_complete_records = (n + 1) + length rest, jr_read_records = n + 1\<rparr>"
  define cs0 where "cs0 = cs\<lparr>cs_batch := Some ?rd, cs_journal_io_failures := 0, cs_pending_event := Some (durable e)\<rparr>"
  have f: "fetch_event sip t cs w = (cs0, w, Proceed)"
    using assms(1,3) read_one [OF assms(2), of sip rest n]
    by (simp add: fetch_event_def reading_def storage_ok_def cs0_def)
  have ef: "ev_event_id (durable e) = ev_event_id e" "ev_username (durable e) = ev_username e"
    "ev_kind (durable e) = ev_kind e" "ev_flags (durable e) = ev_flags e" "ev_generation (durable e) = ev_generation e"
    by (simp_all add: durable_def)
  have sv: "serving g w" using assms(1) by (simp add: reading_def)
  note s = run_event_transaction_serving [OF sv assms(7,8)]
  have same: "on_auth (\<lambda>_. sh_auth (wd_shm w)) w = w" by (simp add: on_auth_def on_shm_def)
  define cs1 where "cs1 = cs0\<lparr>cs_pending_event := None\<rparr>"
  have p: "process_event t g cs0 w = (cs1, w1, Continue)"
    using assms(1,4-8) ef s(2) same
    by (simp add: process_event_def cs0_def cs1_def event_committed_def reading_def)
  have j: "journal_of w1 = journal_of w" using run_event_transaction_journal assms(8) by (metis fst_conv)
  have "reading sip g (n + 1) rest cs1 w1"
    using assms(1) s(1) j by (simp add: reading_def cs1_def cs0_def)
  then show ?thesis using f p by (simp add: flow_then_def cs1_def cs0_def)
qed

lemma process_one:
  assumes "reading sip g n (e # rest) cs w" and "event_valid e" and "storage_ok t" and "applies_all g (e # rest) t"
  shows "\<exists>cs1 w1. flow_then (fetch_event sip t cs w) (process_event t g) = (cs1, w1, Continue)
    \<and> reading sip g (n + 1) rest cs1 w1 \<and> cs_last_bypass_refresh cs1 = cs_last_bypass_refresh cs
    \<and> wd_applied w1 = wd_applied w @ unreceipted (wd_db w) [ev_event_id e]
    \<and> (\<forall>i. has_receipt i (wd_db w1) \<longleftrightarrow> i = ev_event_id e \<or> has_receipt i (wd_db w))"
proof -
  obtain u k fl where d: "username_from_bytes (ev_username e) = Some u" "kind_from_raw (ev_kind e) = Some k"
    "flags_from_raw (ev_flags e) = Some fl" using assms(2) by (auto simp: event_valid_def)
  obtain a token where m: "matching_claim (ev_event_id e) (sh_auth (wd_shm w)) = (a, token)" by fastforce
  have new: "wd_pending w = pending_new" using assms(1) by (simp add: reading_def serving_def)
  obtain s1 where b: "event_body (tk_txn t) g (ev_event_id e) u k fl (ev_generation e)
      \<lparr>ss_db = wd_db w, ss_pending = wd_pending w\<rparr> = (s1, Inr ())"
    using assms(4) d new unfolding applies_all_def by (metis list.set_intros(1) session.select_convs(2))
  obtain w1 where r: "run_event_transaction (tk_txn t) g (ev_event_id e) u k fl (ev_generation e) token w = (w1, Committed)"
    using run_event_commits [OF _ _ b] assms(4) unfolding applies_all_def by (metis prod.collapse)
  have "pn_ack (wd_pending w) = None" using new by (simp add: pending_new_def)
  from r this have "wd_applied w1 = wd_applied w @ unreceipted (wd_db w) [ev_event_id e]
      \<and> (\<forall>i. has_receipt i (wd_db w1) \<longleftrightarrow> i = ev_event_id e \<or> has_receipt i (wd_db w))"
  proof (cases rule: run_event_transaction_cases)
    case (fresh s2)
    have "has_receipt i (wd_db w1) \<longleftrightarrow> i = ev_event_id e \<or> has_receipt i (wd_db w)" for i
      using receipts_after_apply [OF fresh(4)] fresh(5) by (simp add: has_receipt_def)
    then show ?thesis using fresh by (simp add: unreceipted_def)
  qed (auto simp: unreceipted_def)
  then show ?thesis using process_committed [OF assms(1-3) d m r] by blast
qed


text \<open>After the batch: its file is gone and its receipts are deleted.\<close>

definition drained :: "consumer \<Rightarrow> world \<Rightarrow> bool" where
  "drained cs w \<longleftrightarrow> cs_batch cs = None \<and> cs_pending_event cs = None \<and> jf_processing (journal_of w) = None
     \<and> db_auth_event_receipts (wd_db w) = []"

lemma finish_reading:
  assumes "reading sip g n [] cs w" and "storage_ok t"
  shows "flow_then (fetch_event sip t cs w) (process_event t g) =
    (cs\<lparr>cs_batch := None, cs_journal_io_failures := 0\<rparr>,
     (on_journal (\<lambda>fs. fs\<lparr>jf_processing := None\<rparr>) w)\<lparr>wd_db := (wd_db w)\<lparr>db_auth_event_receipts := []\<rparr>\<rparr>, Continue)"
proof -
  let ?fs = "(journal_of w)\<lparr>jf_processing := None\<rparr>"
  have d: "wd_db (on_journal f w) = wd_db w" "on_journal (\<lambda>_. ?fs) w = on_journal (\<lambda>fs. fs\<lparr>jf_processing := None\<rparr>) w" for f
    by (simp_all add: on_journal_def on_auth_def on_shm_def journal_of_def)
  have "remove_processing True True (journal_of w) = (?fs, Inr ())"
    using assms(1) by (simp add: reading_def remove_processing_def)
  then show ?thesis
    using assms by (simp add: fetch_event_def reading_def next_event_def finish_batch_def storage_ok_def d flow_then_def)
qed

lemma finished_drained:
  assumes "reading sip g n [] cs w"
  shows "drained (cs\<lparr>cs_batch := None, cs_journal_io_failures := 0\<rparr>)
    ((on_journal (\<lambda>fs. fs\<lparr>jf_processing := None\<rparr>) w)\<lparr>wd_db := (wd_db w)\<lparr>db_auth_event_receipts := []\<rparr>\<rparr>)"
  using assms by (simp add: drained_def reading_def journal_of_def on_journal_def on_auth_def on_shm_def)

lemma unreceipted_Cons:
  assumes "\<forall>i. has_receipt i d1 \<longleftrightarrow> i = x \<or> has_receipt i d" and "x \<notin> set ids"
  shows "unreceipted d [x] @ unreceipted d1 ids = unreceipted d (x # ids)"
proof -
  have "filter (\<lambda>i. \<not> has_receipt i d1) ids = filter (\<lambda>i. \<not> has_receipt i d) ids"
    using assms by (intro filter_cong) auto
  then show ?thesis by (simp add: unreceipted_def)
qed

lemma reading_step:
  assumes "wk_phase wk = Consuming cs" and "reading sip (wk_guc wk) n rest cs (wk_world wk)"
    and "quiet_tick (cs_last_bypass_refresh cs) t"
    and "flow_then (fetch_event sip t cs (wk_world wk)) (process_event t (wk_guc wk)) = (cs1, w1, Continue)"
  shows "worker_step sip t wk = \<lparr>wk_phase = Consuming cs1, wk_guc = wk_guc wk, wk_world = w1\<rparr>"
proof (rule quiet_step [OF assms(1,3)])
  show "gates_open (wk_guc wk) (cs_degraded cs) (wk_world wk)" using assms(2) by (simp add: reading_def serving_def)
  show "flow_then (flow_then (fetch_batch t cs (wk_world wk)) (fetch_event sip t)) (process_event t (wk_guc wk))
      = (cs1, w1, Continue)"
    using assms(2,4) by (simp add: reading_def fetch_batch_def flow_then_def [of "(cs, wk_world wk, Proceed)"])
qed

lemma drain_reading:
  assumes "wk_phase wk = Consuming cs" and "reading sip (wk_guc wk) n rest cs (wk_world wk)"
    and "length ts = Suc (length rest)" and "\<forall>e \<in> set rest. event_valid e" and "distinct (map ev_event_id rest)"
    and "\<forall>t \<in> set ts. quiet_tick (cs_last_bypass_refresh cs) t \<and> storage_ok t \<and> applies_all (wk_guc wk) rest t"
  shows "\<exists>cs1. wk_phase (run_ticks sip ts wk) = Consuming cs1 \<and> drained cs1 (wk_world (run_ticks sip ts wk))
    \<and> wd_applied (wk_world (run_ticks sip ts wk)) =
        wd_applied (wk_world wk) @ unreceipted (wd_db (wk_world wk)) (map ev_event_id rest)"
  using assms
proof (induction rest arbitrary: ts wk cs n)
  case Nil
  then obtain t where t: "ts = [t]" by (cases ts) auto
  have q: "quiet_tick (cs_last_bypass_refresh cs) t" "storage_ok t" using Nil.prems(6) t by simp_all
  show ?case
    using reading_step [OF Nil.prems(1,2) q(1) finish_reading [OF Nil.prems(2) q(2)]] finished_drained [OF Nil.prems(2)] t
    by (simp add: unreceipted_def on_journal_def on_auth_def on_shm_def)
next
  case (Cons e rest)
  then obtain t ts1 where t: "ts = t # ts1" by (cases ts) auto
  have q: "quiet_tick (cs_last_bypass_refresh cs) t" "storage_ok t" "applies_all (wk_guc wk) (e # rest) t"
    using Cons.prems(6) t by simp_all
  obtain cs1 w1 where f: "flow_then (fetch_event sip t cs (wk_world wk)) (process_event t (wk_guc wk)) = (cs1, w1, Continue)"
    and r: "reading sip (wk_guc wk) (n + 1) rest cs1 w1" "cs_last_bypass_refresh cs1 = cs_last_bypass_refresh cs"
    and a: "wd_applied w1 = wd_applied (wk_world wk) @ unreceipted (wd_db (wk_world wk)) [ev_event_id e]"
    and h: "\<forall>i. has_receipt i (wd_db w1) \<longleftrightarrow> i = ev_event_id e \<or> has_receipt i (wd_db (wk_world wk))"
    using process_one [OF Cons.prems(2) _ q(2,3)] Cons.prems(4) by (metis list.set_intros(1))
  define wk1 where "wk1 = \<lparr>wk_phase = Consuming cs1, wk_guc = wk_guc wk, wk_world = w1\<rparr>"
  have st: "worker_step sip t wk = wk1" unfolding wk1_def by (rule reading_step [OF Cons.prems(1,2) q(1) f])
  have "\<exists>cs2. wk_phase (run_ticks sip ts1 wk1) = Consuming cs2 \<and> drained cs2 (wk_world (run_ticks sip ts1 wk1))
    \<and> wd_applied (wk_world (run_ticks sip ts1 wk1)) =
        wd_applied (wk_world wk1) @ unreceipted (wd_db (wk_world wk1)) (map ev_event_id rest)"
    by (rule Cons.IH [of wk1 cs1 "n + 1" ts1])
      (use Cons.prems(3-6) r t in \<open>auto simp: wk1_def applies_all_def\<close>)
  moreover have "unreceipted (wd_db (wk_world wk)) [ev_event_id e] @ unreceipted (wd_db w1) (map ev_event_id rest)
      = unreceipted (wd_db (wk_world wk)) (map ev_event_id (e # rest))"
    using unreceipted_Cons [OF h, of "map ev_event_id rest"] Cons.prems(5) by simp
  ultimately show ?case using st t a by (auto simp: wk1_def)
qed

lemma fetch_batch_opens:
  assumes "cs_batch cs = None" "as_lock (sh_auth (wd_shm w))" "jf_data_dir (journal_of w)"
    and "jf_processing (journal_of w) = Some (records sip es)" "\<forall>e \<in> set es. event_valid e" "storage_ok t"
  shows "fetch_batch t cs w = (cs\<lparr>cs_journal_io_failures := 0, cs_batch := Some \<lparr>jr_inner = records sip es,
      jr_complete_records = length es, jr_read_records = 0\<rparr>\<rparr>, w, Proceed)"
proof -
  have o: "reader_open reader_ok (records sip es) =
      (records sip es, Inr \<lparr>jr_inner = records sip es, jr_complete_records = length es, jr_read_records = 0\<rparr>)"
    using reader_open_records [of es "[]" sip] assms(5) event_valid_wf by auto
  have rot: "rotate_journal (tk_rotate t) (sh_auth (wd_shm w)) = (sh_auth (wd_shm w), Inr True)"
    using assms(2-4) by (simp add: rotate_journal_def journal_rotate_def journal_of_def)
  have same: "on_auth (\<lambda>_. sh_auth (wd_shm w)) w = w" by (simp add: on_auth_def on_shm_def)
  have "(journal_of w)\<lparr>jf_processing := Some (records sip es)\<rparr> = journal_of w" using assms(4) by (cases "journal_of w") simp
  then have "on_journal (\<lambda>fs. fs\<lparr>jf_processing := Some (records sip es)\<rparr>) w = w"
    by (simp add: on_journal_def on_auth_def on_shm_def journal_of_def)
  then show ?thesis using assms rot same o by (simp add: fetch_batch_def open_batch_def storage_ok_def)
qed

lemma fetched_step:
  assumes "wk_phase wk = Consuming cs" and "quiet_tick (cs_last_bypass_refresh cs) t"
    and "gates_open (wk_guc wk) (cs_degraded cs) (wk_world wk)"
    and "fetch_batch t cs (wk_world wk) = (cs0, w0, Proceed)" and "cs_batch cs0 \<noteq> None"
    and "gates_open (wk_guc wk) (cs_degraded cs0) w0" and "cs_last_bypass_refresh cs0 = cs_last_bypass_refresh cs"
  shows "worker_step sip t wk = worker_step sip t (wk\<lparr>wk_phase := Consuming cs0, wk_world := w0\<rparr>)"
proof -
  have b: "fetch_batch t cs0 w0 = (cs0, w0, Proceed)" using assms(5) by (auto simp: fetch_batch_def)
  have "quiet_tick (cs_last_bypass_refresh cs0) t" using assms(2,7) by simp
  from quiet_iteration [OF assms(2,3), of sip] quiet_iteration [OF this assms(6), of sip]
  have "consume_iteration sip t (wk_guc wk) cs (wk_world wk) = consume_iteration sip t (wk_guc wk) cs0 w0"
    unfolding assms(4) b by simp
  then show ?thesis using assms(1,2) by (simp add: worker_step_def quiet_tick_def)
qed



section \<open>Concrete runs\<close>

definition plain_pass :: "timestamp \<Rightarrow> pass_env" where
  "plain_pass t = \<lparr>pv_db = plain_env t, pv_start_ok = True, pv_commit_ok = True\<rparr>"

definition plain_tick :: "timestamp \<Rightarrow> tick" where
  "plain_tick t = \<lparr>tk_others = id, tk_during = id, tk_attach_ok = True, tk_sigterm = False, tk_reload = None,
     tk_now = t, tk_after_wait = t, tk_instant = 0, tk_wait = True, tk_lock_pass = plain_pass t,
     tk_expiry_pass = plain_pass t, tk_bypass_pass = plain_pass t, tk_collate = length,
     tk_attempts_installed = True, tk_expiry_installed = True, tk_role_settings = [], tk_rotate = rotate_ok,
     tk_reader = reader_ok, tk_remove_ok = True, tk_remove_sync_ok = True, tk_cleanup = CleanupCommits,
     tk_txn = plain_txn t\<rparr>"

definition zero_sip :: siphash where "zero_sip = (\<lambda>_ _ _. 0)"

definition login_event :: SharedAuthEvent where
  "login_event = sample_event\<lparr>ev_kind := EVENT_KIND_SUCCESS\<rparr>"

text \<open>A consuming worker with all caches in service and one batch in the processing file.\<close>

definition ready_shm :: "SharedAuthEvent list \<Rightarrow> shm" where
  "ready_shm es = \<lparr>sh_auth = fresh_auth\<lparr>as_journal := \<lparr>jf_data_dir = True, jf_active = None,
       jf_processing = Some (records zero_sip es)\<rparr>, as_health := mark_running (Some health_new)\<rparr>,
     sh_lock = lock_set_state Ready (Some lock_cache_new), sh_expiry = expiry_set_state ExpiryReady (Some expiry_cache_new),
     sh_bypass = bypass_set_state BypassReady (Some bypass_cache_new)\<rparr>"

definition ready_worker :: "database \<Rightarrow> consumer \<Rightarrow> SharedAuthEvent list \<Rightarrow> worker" where
  "ready_worker d cs es = \<lparr>wk_phase = Consuming cs, wk_guc = guc_default,
     wk_world = fresh_world\<lparr>wd_db := d, wd_shm := ready_shm es\<rparr>\<rparr>"

lemma login_event_valid: "event_valid login_event"
  using sample_event_valid
  by (simp add: login_event_def event_valid_def event_wf_def kind_from_raw_def EVENT_KIND_SUCCESS_def EVENT_KIND_FAILURE_def)

lemma ready_serving: "serving guc_default (wk_world (ready_worker d cs es))"
proof -
  have "queue_state (sh_auth (ready_shm es)) = Healthy" by (simp add: ready_shm_def fresh_auth_def queue_state_def ring_new_def)
  moreover have "auth_inv (sh_auth (ready_shm es))" by (simp add: ready_shm_def fresh_auth_def auth_inv_def ring_new_inv)
  ultimately show ?thesis
    by (simp add: serving_def gates_open_def ready_worker_def fresh_world_def marked_def health_of_def)
      (simp add: ready_shm_def fresh_auth_def lock_state_def lock_set_state_def expiry_state_def expiry_set_state_def
        bypass_state_def bypass_set_state_def cache_state_from_raw_def expiry_state_from_raw_def
        bypass_state_from_raw_def mark_running_def health_new_def durable_degraded_since_def)
qed

lemma plain_tick_quiet: "quiet_tick 0 (plain_tick t)" "storage_ok (plain_tick t)"
  by (simp_all add: quiet_tick_def plain_tick_def BYPASS_REFRESH_INTERVAL_def storage_ok_def)

lemma login_event_applies: "applies_all g [login_event] (plain_tick t)"
proof -
  have k: "kind_from_raw (ev_kind login_event) = Some Success"
    by (simp add: login_event_def kind_from_raw_def EVENT_KIND_SUCCESS_def EVENT_KIND_FAILURE_def)
  have "\<exists>s1. event_body (plain_txn t) g i u Success fl gen s = (s1, Inr ())" if "ss_pending s = pending_new" for i u fl gen s
  proof -
    have "\<exists>s1. clear_login_attempts_internal (plain_env t) u False s0 = (s1, Inr ())" if "ss_pending s0 = pending_new" for s0
      using clear_good_returns [OF plain_env_good that] .
    then show ?thesis
      using that by (auto simp: event_body_def apply_worker_lock_timeout_def spi_def insert_event_receipt_def
          plain_txn_def plain_env_def apply_event_def clear_if_flagged_def)
  qed
  then show ?thesis using k by (simp add: applies_all_def plain_tick_def plain_txn_def)
qed



definition spent_database :: database where
  "spent_database = empty_database\<lparr>db_password_expiry :=
     [([0x61], \<lparr>er_last_changed = Some 99, er_must_change_by = Some 20, er_grace_logins_remaining = Some 0\<rparr>)]\<rparr>"


theorem stopped_worker_pauses_enforcement_witness:
  "enforcement_pause_reason (sh_auth (wd_shm (wk_world (worker_step zero_sip ((plain_tick 5)\<lparr>tk_sigterm := True\<rparr>)
     (ready_worker empty_database (consumer_new 0) []))))) = Some WorkerNotRunning"
proof -
  let ?wk = "ready_worker empty_database (consumer_new 0) []"
  have "wk_phase (worker_step zero_sip ((plain_tick 5)\<lparr>tk_sigterm := True\<rparr>) ?wk) = Stopped ExitNormal"
    by (simp add: worker_step_def ready_worker_def consume_iteration_def exit_with_def)
  moreover have "\<forall>e. wk_phase ?wk \<noteq> Stopped e" by (simp add: ready_worker_def)
  ultimately show ?thesis using stopped_worker_pauses_enforcement [of zero_sip _ ?wk] by (simp add: Let_def)
qed

definition failing_worker :: worker where
  "failing_worker = \<lparr>wk_phase = Hydrating HYDRATION_RETRY_MIN 0, wk_guc = guc_default,
     wk_world = on_health (mark_durable_failure 1) (wk_world (ready_worker empty_database (consumer_new 0) []))\<rparr>"

lemma plain_passes:
  assumes "sh_lock (wd_shm w) \<noteq> None"
  shows "\<exists>r. snd (run_hydration_transaction (plain_tick t) w) = Inr r"
    and "\<exists>r. snd (run_expiry_hydration_transaction (plain_tick t) w) = Inr r"
    and "\<exists>r. snd (run_bypass_refresh_transaction (plain_tick t) w) = Inr r"
  using assms
  by (auto simp: run_hydration_transaction_def run_expiry_hydration_transaction_def run_bypass_refresh_transaction_def
      hydration_boundary_def hydrate_from_db_def hydrate_expiry_from_db_def refresh_bypass_cache_def plain_tick_def
      plain_pass_def plain_env_def case_prod_beta Let_def)

lemma hydrate_attempt_ready:
  assumes "\<not> tk_sigterm t" "tk_reload t = None" "\<exists>r. snd (run_hydration_transaction t w) = Inr r"
    and "\<exists>r. snd (run_expiry_hydration_transaction t w) = Inr r" "\<exists>r. snd (run_bypass_refresh_transaction t w) = Inr r"
  shows "\<exists>v. hydrate_attempt t g d f w =
    (g, clear_durable_degradation_if_quiet (tk_now t) (durable_degraded_since (health_of w)) (tk_during t v), HydrationReady)
    \<and> health_of v = health_of w"
proof -
  obtain v1 f1 b1 where h1: "hydrate_lock_cache_once t f w = (v1, f1, b1)" by (metis prod_cases3)
  obtain v2 f2 b2 where h2: "hydrate_expiry_cache_once t f1 v1 = (v2, f2, b2)" by (metis prod_cases3)
  obtain v3 f3 b3 where h3: "refresh_bypass_cache_once t f2 v2 = (v3, f3, b3)" by (metis prod_cases3)
  have "b1" "b2" "b3"
    using hydrate_once_ok(1) [of t f w] hydrate_once_ok(2) [of t f1 v1] hydrate_once_ok(3) [of t f2 v2]
      passes_independent(1) [of t f w] passes_independent(2) [of t f1 f w] h1 h2 h3 assms(3-5) by auto
  moreover have "health_of v3 = health_of w"
    using hydrate_once_health(1) [of t f w] hydrate_once_health(2) [of t f1 v1] hydrate_once_health(3) [of t f2 v2]
      h1 h2 h3 by simp
  ultimately show ?thesis
    using assms(1,2) by (intro exI [of _ v3]) (simp add: hydrate_attempt_def h1 h2 h3 Let_def reload_def)
qed

theorem enforcement_resumes_only_after_hydration_witness:
  "marked (wk_world failing_worker) \<and> \<not> marked (wk_world (worker_step zero_sip (plain_tick 6000000) failing_worker))
   \<and> (\<exists>since. durable_degraded_since (health_of (wk_world failing_worker)) = Some since
        \<and> DURABLE_QUIET_PERIOD_US \<le> saturating_i64 (6000000 - since))"
proof -
  let ?t = "plain_tick 6000000" and ?w = "wk_world failing_worker"
  have h: "health_of ?w = mark_durable_failure 1 (mark_running (Some health_new))"
    by (simp add: failing_worker_def ready_worker_def ready_shm_def health_of_def [of "fresh_world\<lparr>wd_db := _, wd_shm := _\<rparr>"])
  have m: "marked ?w" "durable_degraded_since (health_of ?w) = Some 1"
    by (simp_all add: marked_def h mark_durable_failure_def mark_running_def durable_degraded_since_def)
  have "sh_lock (wd_shm ?w) \<noteq> None"
    by (simp add: failing_worker_def ready_worker_def ready_shm_def on_health_def on_shm_def lock_set_state_def)
  note passes = plain_passes [OF this, of 6000000]
  have t: "\<not> tk_sigterm ?t" "tk_reload ?t = None" "tk_now ?t = 6000000" "tk_during ?t = id" "tk_others ?t = id"
    by (simp_all add: plain_tick_def)
  obtain v where v: "hydrate_attempt ?t guc_default HYDRATION_RETRY_MIN 0 ?w =
      (guc_default, clear_durable_degradation_if_quiet 6000000 (Some 1) v, HydrationReady)" "health_of v = health_of ?w"
    using hydrate_attempt_ready [OF t(1,2) passes, of guc_default HYDRATION_RETRY_MIN 0] t(3,4) m(2) by auto
  have "wk_world (worker_step zero_sip ?t failing_worker) = clear_durable_degradation_if_quiet 6000000 (Some 1) v"
    using v(1) t(5) by (simp add: worker_step_def Let_def) (simp add: failing_worker_def)
  moreover have "\<not> marked (clear_durable_degradation_if_quiet 6000000 (Some 1) v)"
    using v(2) h by (simp add: clear_durable_degradation_if_quiet_def marked_def saturating_i64_def width_defs
        DURABLE_QUIET_PERIOD_US_def clear_durable_degraded_def mark_durable_failure_def mark_running_def durable_degraded_since_def)
  ultimately have n: "\<not> marked (wk_world (worker_step zero_sip ?t failing_worker))" by simp
  have "marked (tk_others ?t ?w)" using m(1) t(5) by simp
  from enforcement_resumes_only_after_hydration [OF this n] m(1) n t show ?thesis by auto
qed


definition starting_worker :: worker where
  "starting_worker = \<lparr>wk_phase = Starting, wk_guc = guc_default,
     wk_world = on_journal (\<lambda>fs. fs\<lparr>jf_active := Some (records zero_sip [login_event])\<rparr>) fresh_world\<rparr>"

lemma rely_id: "rely [] w w"
  by (simp add: rely_def)


end
