(* ===== verification/Brute_Force.thy ===== *)
theory Brute_Force
  imports Worker_Progress
begin

text \<open>
  The authentication hook and the worker together: wrong-password logins of one user, interleaved in
  any way with iterations of the worker, end in a lockout the hook enforces. The hook of a connection
  and the worker meet only in shared memory and in the journal; \<open>sys_step\<close> is the action of either.
\<close>

section \<open>The composed system\<close>

datatype sys_event = LoginAttempt hook_env | WorkerTick tick

fun sys_step :: "siphash \<Rightarrow> sys_event \<Rightarrow> worker \<Rightarrow> worker" where
  "sys_step sip (LoginAttempt env) wk = wk\<lparr>wk_world := on_shm (\<lambda>s. fst (client_auth_hook env s)) (wk_world wk)\<rparr>"
| "sys_step sip (WorkerTick t) wk = worker_step sip t wk"

fun sys_run :: "siphash \<Rightarrow> sys_event list \<Rightarrow> worker \<Rightarrow> worker" where
  "sys_run sip [] wk = wk"
| "sys_run sip (e # es) wk = sys_run sip es (sys_step sip e wk)"

lemma sys_run_append: "sys_run sip (xs @ ys) wk = sys_run sip ys (sys_run sip xs wk)"
  by (induction xs arbitrary: wk) simp_all

fun attempts :: "sys_event list \<Rightarrow> hook_env list" where
  "attempts [] = []"
| "attempts (LoginAttempt env # es) = env # attempts es"
| "attempts (WorkerTick t # es) = attempts es"

definition event_id_of :: "hook_env \<Rightarrow> byte list" where
  "event_id_of env = (case en_event_id (he_enqueue env) of None \<Rightarrow> [] | Some i \<Rightarrow> i)"

section \<open>A wrong password is journaled\<close>

text \<open>
  A login with a wrong password, by a password method, for an existing role; the previous hook lets it
  pass and the append to the journal succeeds.
\<close>

definition wrong_password :: "siphash \<Rightarrow> guc \<Rightarrow> username \<Rightarrow> hook_env \<Rightarrow> bool" where
  "wrong_password sip g u env \<longleftrightarrow> quiet env \<and> \<not> he_recovery env \<and> he_guc env = g \<and> he_sip env = sip
     \<and> he_prev env = (\<lambda>s. (s, True)) \<and> hook_username env = Some u \<and> ct_role_exists (he_catalog env) u
     \<and> he_status env = STATUS_ERROR
     \<and> password_profile_get_last_sqlstate (he_port env) STATUS_ERROR = ERRCODE_INVALID_PASSWORD
     \<and> en_append (he_enqueue env) = append_ok \<and> en_event_id (he_enqueue env) = Some (event_id_of env)
     \<and> length (event_id_of env) = 16 \<and> is_i64 (en_now (he_enqueue env))"

definition failure_event :: "username \<Rightarrow> hook_env \<Rightarrow> SharedAuthEvent" where
  "failure_event u env = journaled_event (he_enqueue env) (encode_username u) EVENT_KIND_FAILURE flags_none 0 (event_id_of env)"

text \<open>The queue as an enqueue that cannot fail finds it: the ring has \<open>b\<close> sequence numbers left.\<close>

definition queue_open :: "nat \<Rightarrow> auth_shm \<Rightarrow> bool" where
  "queue_open b a \<longleftrightarrow> auth_inv a \<and> as_lock a \<and> queue_state a \<noteq> Corrupt \<and> jf_data_dir (as_journal a)
     \<and> (\<exists>r. as_ring a = Some r \<and> rg_next_seq r + b \<le> U64_MAX)"

lemma enqueue_open:
  assumes "queue_open (Suc b) a" and "en_append env = append_ok" and "en_event_id env = Some i"
  shows "\<exists>a1 oc logs. enqueue sip env u k fl a = (a1, oc, logs) \<and> is_durable oc \<and> queue_open b a1
    \<and> as_health a1 = as_health a \<and> as_journal a1 = (as_journal a)\<lparr>jf_active :=
        Some (active_bytes (as_journal a) @ encode sip (journaled_event env (encode_username u) k fl 0 i))\<rparr>"
proof -
  obtain r where r: "as_ring a = Some r" "rg_next_seq r + Suc b \<le> U64_MAX" using assms(1) by (auto simp: queue_open_def)
  let ?r = "r\<lparr>rg_journaled := saturating_inc_u64 (rg_journaled r)\<rparr>"
  let ?e = "journaled_event env (encode_username u) k fl 0 i"
  let ?fs = "(as_journal a)\<lparr>jf_active := Some (active_bytes (as_journal a) @ encode sip ?e)\<rparr>"
  obtain r2 step where q: "try_enqueue i (encode_username u) (en_now env) k (flags_raw fl) 0 ?r = (r2, step)" by fastforce
  have inv: "ring_inv ?r" using assms(1) r(1) by (simp add: queue_open_def auth_inv_def)
  have ok: "ring_state ?r \<noteq> Corrupt" "rg_next_seq ?r \<noteq> U64_MAX"
    using assms(1) r by (auto simp: queue_open_def queue_state_def ring_state_def)
  note facts = try_enqueue_outcome [OF inv, of i "encode_username u" "en_now env" k "flags_raw fl" 0]
    try_enqueue_state [OF inv, of i "encode_username u" "en_now env" k "flags_raw fl" 0]
    try_enqueue_next_seq [OF inv, of i "encode_username u" "en_now env" k "flags_raw fl" 0]
    try_enqueue_inv [OF inv, of i "encode_username u" "en_now env" k "flags_raw fl" 0]
  have st: "st_outcome step \<in> {Enqueued, DurableOnly}" "ring_state r2 \<noteq> Corrupt" "ring_inv r2"
    "rg_next_seq r2 \<le> Suc (rg_next_seq r)"
    using facts ok unfolding q by (auto split: if_splits)
  have j: "journal_append sip append_ok ?e (as_journal a) = (?fs, Inr ())"
    using assms(1) by (auto simp: journal_append_def queue_open_def append_ok_def active_bytes_def Let_def)
  have e: "enqueue_encoded_silent sip env (encode_username u) k fl 0 a =
      (a\<lparr>as_journal := ?fs, as_ring := Some r2\<rparr>, step)"
    using assms r q j st(1)
    by (auto simp: enqueue_encoded_silent_def enqueue_encoded_with_id_silent_def Let_def journaled_event_def queue_open_def)
  have "queue_open b (a\<lparr>as_journal := ?fs, as_ring := Some r2\<rparr>)"
    using assms(1) st r(2) by (simp add: queue_open_def auth_inv_def queue_state_def ring_state_def)
  then show ?thesis using st(1) by (auto simp: enqueue_def e)
qed

lemma wrong_password_journaled:
  assumes "wrong_password sip g u env" and "LOCKOUT_ENFORCEMENT g"
    and "enforcement_pause_reason (sh_auth s) = None" and "lock_state (sh_lock s) = Ready"
    and "bypass_lookup u (sh_bypass s) \<noteq> Bypassed" and "queue_open (Suc b) (sh_auth s)" and "u \<noteq> []"
  shows "\<exists>a logs. client_auth_hook env s = (s\<lparr>sh_auth := a\<rparr>, NativeRejected, logs) \<and> queue_open b a
    \<and> as_health a = as_health (sh_auth s) \<and> as_journal a = (as_journal (sh_auth s))\<lparr>jf_active :=
        Some (active_bytes (as_journal (sh_auth s)) @ encode sip (failure_event u env))\<rparr>"
proof -
  obtain a oc logs where e: "enqueue sip (he_enqueue env) u EVENT_KIND_FAILURE flags_none (sh_auth s) = (a, oc, logs)"
    "is_durable oc" "queue_open b a" "as_health a = as_health (sh_auth s)" "as_journal a = (as_journal (sh_auth s))\<lparr>jf_active :=
        Some (active_bytes (as_journal (sh_auth s)) @ encode sip (failure_event u env))\<rparr>"
    using enqueue_open [OF assms(6), of "he_enqueue env" "event_id_of env" sip u EVENT_KIND_FAILURE flags_none] assms(1)
    unfolding wrong_password_def failure_event_def by blast
  have x: "password_profile_port_username (he_port env) = Some u"
    using assms(1) by (auto simp: wrong_password_def hook_username_def split: option.splits if_splits)
  have "client_auth_hook env s = (s\<lparr>sh_auth := a\<rparr>, NativeRejected, map QueueLog logs)"
    using assms e x
    by (simp add: client_auth_hook_def wrong_password_def Let_def hook_bypass_def hook_failure_def hook_enqueue_def
        password_profile_user_exists_def report_degraded_def)
  then show ?thesis using e by blast
qed

section \<open>The transaction of one failure\<close>

text \<open>A slot for the user: it has one already, or one is empty.\<close>

definition lock_room :: "byte list \<Rightarrow> LockCache option \<Rightarrow> bool" where
  "lock_room u c \<longleftrightarrow> (\<exists>cache. c = Some cache
     \<and> (\<exists>e \<in> set (lc_entries cache). lk_username e = u \<or> \<not> slot_used (lk_username e)))"

lemma lock_room_set:
  assumes "lock_room u c" and "slot_used u"
  shows "lock_state (fst (lock_set now u x c)) = lock_state c" and "lock_room u (fst (lock_set now u x c))"
proof -
  obtain cache e where c: "c = Some cache" "e \<in> set (lc_entries cache)" "lk_username e = u \<or> \<not> slot_used (lk_username e)"
    using assms(1) by (auto simp: lock_room_def)
  have "lock_state (fst (lock_set now u x c)) = lock_state c \<and> lock_room u (fst (lock_set now u x c))"
  proof (cases "x \<le> now")
    case True
    then show ?thesis using assms c(1) by (simp add: lock_set_def)
  next
    case False
    show ?thesis
    proof (cases "update_first (\<lambda>e. slot_used (lk_username e) \<and> lk_username e = u)
        (\<lambda>e. e\<lparr>lk_expires_at := x\<rparr>) (lc_entries cache)")
      case (Some es)
      then have "\<exists>e \<in> set es. lk_username e = u" by (auto elim: update_first_split)
      then show ?thesis using False Some c(1) assms(2) by (auto simp: lock_set_def lock_state_def lock_room_def)
    next
      case None
      let ?p = "\<lambda>e. \<not> slot_used (lk_username e) \<or> lk_expires_at e \<le> now"
      have "\<not> slot_used (lk_username e)" using None c(2,3) assms(2) by (auto simp: update_first_None_iff)
      then obtain es where es: "update_first ?p (\<lambda>_. \<lparr>lk_username = u, lk_expires_at = x\<rparr>) (lc_entries cache) = Some es"
        using c(2) update_first_None_iff [of ?p "\<lambda>_. \<lparr>lk_username = u, lk_expires_at = x\<rparr>" "lc_entries cache"]
        by (meson not_None_eq)
      then have "\<exists>e \<in> set es. lk_username e = u" by (auto elim: update_first_split)
      then show ?thesis using False None es c(1) assms(2) by (auto simp: lock_set_def lock_state_def lock_room_def)
    qed
  qed
  then show "lock_state (fst (lock_set now u x c)) = lock_state c" and "lock_room u (fst (lock_set now u x c))"
    by blast+
qed

lemma lock_room_clear:
  assumes "lock_room u c"
  shows "lock_room u (fst (lock_clear u c))"
proof -
  obtain cache where c: "c = Some cache" using assms by (auto simp: lock_room_def)
  have "\<not> slot_used (lk_username LockEntry_new)" by (simp add: LockEntry_new_def)
  then have "\<exists>e \<in> set es. \<not> slot_used (lk_username e)"
    if "update_first p (\<lambda>_. LockEntry_new) (lc_entries cache) = Some es" for es p
    using that by (auto elim: update_first_split)
  then show ?thesis using assms c by (fastforce simp: lock_clear_def lock_room_def split: option.split)
qed

text \<open>The commit of one staged lock decision.\<close>

lemma staged_single:
  assumes "stage_inner 1 u (Some d) ExpiryNone pending_new = (st, Inr ())"
  shows "apply_all clock st s = apply_entry (clock 0) \<lparr>pe_username = u, pe_decision = Some d, pe_expiry = ExpiryNone, pe_subid = 1\<rparr> s"
    and "pn_ack st = None"
  using assms
  by (auto simp: stage_inner_def stage_entry_def pending_new_def live_def MAX_PENDING_OPS_def apply_all_def
      numeral_eq_Suc split: option.splits)

lemma staged_room:
  assumes "stage_inner 1 u (Some d) ExpiryNone pending_new = (st, Inr ())" and "lock_room u (sh_lock s)" and "slot_used u"
  shows "lock_state (sh_lock (apply_all clock st s)) = lock_state (sh_lock s)"
    and "lock_room u (sh_lock (apply_all clock st s))"
    and "sh_expiry (apply_all clock st s) = sh_expiry s" "sh_bypass (apply_all clock st s) = sh_bypass s"
  using lock_room_set [OF assms(2,3)] lock_room_clear [OF assms(2)] cache_ops_states(2) [of u "sh_lock s"]
  unfolding staged_single(1) [OF assms(1)]
  by (auto simp: apply_entry_def split: CacheDecision.split)

text \<open>
  The row of the user after \<open>k\<close> counted failures, all of them recorded between \<open>t0\<close> and \<open>t1\<close>.
\<close>

definition siege_row :: "int \<Rightarrow> int \<Rightarrow> timestamp \<Rightarrow> timestamp \<Rightarrow> nat \<Rightarrow> LoginAttempt option \<Rightarrow> bool" where
  "siege_row m l t0 t1 k row \<longleftrightarrow>
     (case row of
        None \<Rightarrow> k = 0
      | Some r \<Rightarrow> 0 < k \<and> la_fail_count r = int k
          \<and> (if max 2 m \<le> int k
             then \<exists>now. t0 \<le> now \<and> now \<le> t1 \<and> la_lockout_until r = Some (now + l * MICROS_PER_MINUTE)
             else la_lockout_until r = None))"

lemma siege_row_counted:
  assumes "siege_row m l t0 t1 k row" and "t0 \<le> now" "now \<le> t1" and "t1 < t0 + l * MICROS_PER_MINUTE"
  shows "siege_row m l t0 t1 (Suc k) (Some (counted_failure now m l row))"
  using assms by (auto simp: siege_row_def counted_failure_def Let_def split: option.splits if_splits)

text \<open>An iteration in which storage and statements work, for a user the policy counts failures of.\<close>

definition working_tick :: "guc \<Rightarrow> username \<Rightarrow> int \<Rightarrow> int \<Rightarrow> timestamp \<Rightarrow> timestamp \<Rightarrow> nat \<Rightarrow> tick \<Rightarrow> bool" where
  "working_tick g u m l t0 t1 i0 t \<longleftrightarrow> quiet_tick i0 t \<and> storage_ok t
     \<and> te_start_ok (tk_txn t) \<and> te_commit_ok (tk_txn t) \<and> good_env (te_db (tk_txn t))
     \<and> tracked (te_catalog (tk_txn t)) g u m l
     \<and> t0 \<le> de_now (te_db (tk_txn t)) \<and> de_now (te_db (tk_txn t)) \<le> t1 \<and> de_clock (te_db (tk_txn t)) \<le> t1
     \<and> (\<forall>i. te_commit_clock (tk_txn t) i \<le> t1)"

text \<open>
  Tables and caches after \<open>k\<close> counted failures: the extension is in force for the user, whose lock the
  cache shows as the table has it.
\<close>

definition siege_world :: "guc \<Rightarrow> username \<Rightarrow> int \<Rightarrow> int \<Rightarrow> timestamp \<Rightarrow> timestamp \<Rightarrow> nat \<Rightarrow> nat \<Rightarrow> world \<Rightarrow> bool" where
  "siege_world g u m l t0 t1 b k w \<longleftrightarrow> serving g w \<and> is_running (health_of w) \<and> queue_open b (sh_auth (wd_shm w))
     \<and> lock_state (sh_lock (wd_shm w)) = Ready \<and> bypass_lookup u (sh_bypass (wd_shm w)) \<noteq> Bypassed
     \<and> caches_inv (wd_shm w) \<and> lock_room (encode_username u) (sh_lock (wd_shm w))
     \<and> siege_row m l t0 t1 k (map_of (db_login_attempts (wd_db w)) u)
     \<and> (0 < k \<longrightarrow> lock_opt_view t1 (sh_lock (wd_shm w)) (encode_username u) = live_lockout t1 (db_login_attempts (wd_db w)) u)"

lemma committed_parts:
  assumes "run_event_transaction te g i u k fl gen token w = (w1, Committed)" and "wd_pending w = pending_new"
    and "\<not> has_receipt i (wd_db w)"
  obtains s1 where "apply_event te g u k fl gen \<lparr>ss_db = receipted (te_db te) i (wd_db w), ss_pending = pending_new\<rparr> = (s1, Inr ())"
    "wd_db w1 = ss_db s1"
    "wd_shm w1 = (apply_all (te_commit_clock te) (ss_pending s1) (wd_shm w))\<lparr>sh_auth := sh_auth (wd_shm w1)\<rparr>"
proof -
  let ?s = "\<lparr>ss_db = wd_db w, ss_pending = wd_pending w\<rparr>"
  obtain s1 x where b: "event_body te g i u k fl gen ?s = (s1, Inr x)" and w1: "wd_db w1 = ss_db s1"
    and c: "Inr (wd_pending w1, wd_shm w1) = xact_callback (te_commit_clock te) XactCommit
      ((case token of None \<Rightarrow> ss_pending s1 | Some tk \<Rightarrow> stage_ack (de_subid (te_db te)) tk (ss_pending s1)), wd_shm w)"
    using assms(1) by (auto simp: run_event_transaction_def Let_def split: if_splits prod.splits sum.splits db_error.splits)
  have "wd_shm w1 = (apply_all (te_commit_clock te) (ss_pending s1) (wd_shm w))\<lparr>sh_auth := sh_auth (wd_shm w1)\<rparr>"
    using c by (cases token) (auto simp: Let_def apply_all_def stage_ack_def live_def split: option.splits)
  moreover have "apply_event te g u k fl gen \<lparr>ss_db = receipted (te_db te) i (wd_db w), ss_pending = pending_new\<rparr> = (s1, Inr ())"
    using b assms(2,3) by (cases rule: event_body_cases) auto
  ultimately show ?thesis using that w1 by blast
qed

lemma committed_queue_open:
  assumes "run_event_transaction te g i u k fl gen token w = (w1, Committed)" and "serving g w" "serving g w1"
    and "queue_open b (sh_auth (wd_shm w))"
  shows "queue_open b (sh_auth (wd_shm w1))"
proof -
  have "wd_pending w = pending_new" using assms(2) by (simp add: serving_def)
  from committed_shm [OF assms(1) this]
  have a: "sh_auth (wd_shm w1) = (case token of None \<Rightarrow> sh_auth (wd_shm w) | Some tk \<Rightarrow> fst (ack_claim tk (sh_auth (wd_shm w))))"
    by auto
  have j: "as_journal (sh_auth (wd_shm w1)) = as_journal (sh_auth (wd_shm w))"
    using run_event_transaction_journal [of te g i u k fl gen token w] assms(1) by (simp add: journal_of_def)
  obtain r where r: "as_ring (sh_auth (wd_shm w)) = Some r" "rg_next_seq r + b \<le> U64_MAX" "ring_inv r"
    using assms(4) by (auto simp: queue_open_def auth_inv_def)
  have "\<exists>r1. as_ring (sh_auth (wd_shm w1)) = Some r1 \<and> rg_next_seq r1 = rg_next_seq r"
    using r ack_next_seq [OF r(3)] unfolding a
    by (auto simp: ack_claim_def Let_def case_prod_beta degrade_to_def split: option.split)
  then show ?thesis using assms(3,4) r(2) j by (auto simp: queue_open_def serving_def gates_open_def)
qed

lemma siege_row_lockout:
  assumes "siege_row m l t0 t1 k row" and "t1 < t0 + l * MICROS_PER_MINUTE"
    and "Option.bind row la_lockout_until = Some x"
  shows "t1 < x" and "max 2 m \<le> int k" and "x \<le> t1 + l * MICROS_PER_MINUTE"
  using assms by (auto simp: siege_row_def bind_eq_Some_conv split: option.splits if_splits)

lemma siege_row_locked:
  assumes "siege_row m l t0 t1 k row" and "max 2 m \<le> int k"
  shows "\<exists>x. Option.bind row la_lockout_until = Some x"
  using assms by (auto simp: siege_row_def split: option.splits if_splits)

text \<open>What the committed cache shows of a failure that was just recorded.\<close>

lemma failure_commit_caches:
  assumes "stage 1 (encode_username u) (decision_for (lockout_until_of tab u) now) pending_new = (st, Inr ())"
    and "siege_row m l t0 t1 k (map_of tab u)" and "t1 < t0 + l * MICROS_PER_MINUTE"
    and "now \<le> t1" and "\<forall>i. clock i \<le> t1" and "representable u"
    and "caches_inv s" and "lock_room (encode_username u) (sh_lock s)" and "lock_state (sh_lock s) = Ready"
  shows "caches_inv (apply_all clock st s)"
    and "lock_opt_view t1 (sh_lock (apply_all clock st s)) (encode_username u) = live_lockout t1 tab u"
proof -
  let ?d = "decision_for (lockout_until_of tab u) now"
  have st: "stage_inner 1 (encode_username u) (Some ?d) ExpiryNone pending_new = (st, Inr ())"
    using assms(1) by (simp add: stage_def)
  have c: "xact_callback clock XactCommit (st, s) = Inr (pending_reset st, apply_all clock st s)"
    using staged_single(2) [OF st] by simp
  have later: "t1 < x" if "lockout_until_of tab u = Some x" for x
    using siege_row_lockout(1) [OF assms(2,3)] that by (simp add: lockout_until_of_def)
  have ok: "\<forall>y. Some ?d = Some (SetLock y) \<longrightarrow> (\<forall>i. clock i < y)"
    using later assms(5) by (auto simp: decision_for_def split: option.splits if_splits) (meson le_less_trans)
  note one = commit_one [OF st assms(7) encode_used [OF assms(6)] assms(5) ok c]
  show "caches_inv (apply_all clock st s)" by (rule one(1))
  have "lock_state (sh_lock (apply_all clock st s)) \<noteq> Overflow"
    using staged_room(1) [OF st assms(8) encode_used [OF assms(6)]] assms(9) by simp
  then have "lock_opt_view t1 (sh_lock (apply_all clock st s)) (encode_username u) =
      staged_lock t1 (Some (Some ?d, ExpiryNone)) (lock_opt_view t1 (sh_lock s) (encode_username u))"
    using one(2) [of "encode_username u"] by simp
  also have "\<dots> = live_lockout t1 tab u"
    using later assms(4) by (auto simp: staged_lock_def decision_for_def live_lockout_def split: option.splits)
  finally show "lock_opt_view t1 (sh_lock (apply_all clock st s)) (encode_username u) = live_lockout t1 tab u" .
qed

lemma failure_body_returns:
  assumes "good_env (te_db te)" and "tracked (te_catalog te) g u m l" and "\<not> has_receipt i (wd_db w)"
    and "wd_pending w = pending_new" and "siege_row m l t0 t1 k (map_of (db_login_attempts (wd_db w)) u)" and "int k < I32_MAX"
  obtains s1 where "event_body te g i u Failure fl gen \<lparr>ss_db = wd_db w, ss_pending = wd_pending w\<rparr> = (s1, Inr ())"
    "record_failed_login (te_db te) (te_catalog te) g u \<lparr>ss_db = receipted (te_db te) i (wd_db w), ss_pending = pending_new\<rparr>
      = (s1, Inr ''Failed login recorded'')"
proof -
  let ?s = "\<lparr>ss_db = receipted (te_db te) i (wd_db w), ss_pending = pending_new\<rparr>"
  have "\<forall>r. map_of (db_login_attempts (ss_db ?s)) u = Some r \<longrightarrow> 0 \<le> la_fail_count r \<and> la_fail_count r < I32_MAX"
    using assms(5,6) by (auto simp: siege_row_def receipted_def)
  then obtain s1 where r: "record_failed_login (te_db te) (te_catalog te) g u ?s = (s1, Inr ''Failed login recorded'')"
    using record_failed_login_returns [OF assms(1,2), of ?s] by auto
  have "event_body te g i u Failure fl gen \<lparr>ss_db = wd_db w, ss_pending = wd_pending w\<rparr> = (s1, Inr ())"
    using r assms(1,3,4)
    by (simp add: event_body_def apply_worker_lock_timeout_def spi_def insert_event_receipt_def good_env_def has_receipt_def
        apply_event_def receipted_def)
  then show ?thesis using that r by blast
qed

text \<open>A failure of the user is applied and counted.\<close>

text \<open>The transaction of a failure of a tracked user: it commits, and what it leaves in the table and the caches.\<close>

lemma failure_commits:
  assumes "siege_world g u m l t0 t1 b k w" and "working_tick g u m l t0 t1 i0 t" and "int k < I32_MAX"
    and "\<not> has_receipt i (wd_db w)"
  obtains w1 p tab where "run_event_transaction (tk_txn t) g i u Failure fl gen token w = (w1, Committed)"
    "stage 1 (encode_username u) (decision_for (lockout_until_of tab u) (de_clock (te_db (tk_txn t)))) pending_new = (p, Inr ())"
    "wd_shm w1 = (apply_all (te_commit_clock (tk_txn t)) p (wd_shm w))\<lparr>sh_auth := sh_auth (wd_shm w1)\<rparr>"
    "db_login_attempts (wd_db w1) = tab" "\<And>j. has_receipt j (wd_db w1) \<longleftrightarrow> j = i \<or> has_receipt j (wd_db w)"
    "map_of tab u = Some (counted_failure (de_now (te_db (tk_txn t))) m l (map_of (db_login_attempts (wd_db w)) u))"
proof -
  let ?te = "tk_txn t" and ?s = "\<lparr>ss_db = receipted (te_db (tk_txn t)) i (wd_db w), ss_pending = pending_new\<rparr>"
  note wt = assms(2) [unfolded working_tick_def] and sw = assms(1) [unfolded siege_world_def]
  have new: "wd_pending w = pending_new" using sw by (simp add: serving_def)
  obtain s1 where b: "event_body ?te g i u Failure fl gen \<lparr>ss_db = wd_db w, ss_pending = wd_pending w\<rparr> = (s1, Inr ())"
    and f: "record_failed_login (te_db ?te) (te_catalog ?te) g u ?s = (s1, Inr ''Failed login recorded'')"
    using failure_body_returns [OF _ _ assms(4) new _ assms(3)] wt sw by blast
  obtain w1 where r: "run_event_transaction ?te g i u Failure fl gen token w = (w1, Committed)"
    using run_event_commits [OF _ _ b] wt by (metis prod.collapse)
  have ap: "apply_event ?te g u Failure fl gen ?s = (s1, Inr ())" using f by (simp add: apply_event_def)
  then have s1: "wd_db w1 = ss_db s1"
    "wd_shm w1 = (apply_all (te_commit_clock ?te) (ss_pending s1) (wd_shm w))\<lparr>sh_auth := sh_auth (wd_shm w1)\<rparr>"
    using committed_parts [OF r new assms(4)] by auto
  from record_failed_login_recorded [OF f] obtain m1 l1 tab where
    o: "role_override ''password_profile.failed_login_max'' (FAILED_LOGIN_MAX g) (user_config (te_catalog ?te) u) = Inr m1"
      "role_override ''password_profile.lockout_minutes'' (LOCKOUT_MINUTES g) (user_config (te_catalog ?te) u) = Inr l1"
    and db: "ss_db s1 = (ss_db ?s)\<lparr>db_login_attempts := tab\<rparr>"
    and row: "map_of tab = (map_of (db_login_attempts (ss_db ?s)))(u \<mapsto>
       counted_failure (de_now (te_db ?te)) m1 l1 (map_of (db_login_attempts (ss_db ?s)) u))"
    and st: "stage (de_subid (te_db ?te)) (encode_username u) (decision_for (lockout_until_of tab u) (de_clock (te_db ?te)))
       (ss_pending ?s) = (ss_pending s1, Inr ())" by metis
  have "m1 = m" "l1 = l" using o wt by (simp_all add: tracked_def)
  then show thesis
    using that [OF r _ s1(2)] st row db s1(1) receipts_after_apply [OF ap] wt
    by (simp add: good_env_def receipted_def has_receipt_def)
qed

lemma siege_failure:
  assumes "siege_world g u m l t0 t1 b k w" and "working_tick g u m l t0 t1 i0 t" and "representable u"
    and "t1 < t0 + l * MICROS_PER_MINUTE" and "int k < I32_MAX" and "\<not> has_receipt i (wd_db w)"
    and "matching_claim i (sh_auth (wd_shm w)) = (a, token)"
  shows "\<exists>w1. run_event_transaction (tk_txn t) g i u Failure fl gen token w = (w1, Committed)
    \<and> siege_world g u m l t0 t1 b (Suc k) w1 \<and> (\<forall>j. has_receipt j (wd_db w1) \<longleftrightarrow> j = i \<or> has_receipt j (wd_db w))"
proof -
  let ?te = "tk_txn t"
  note wt = assms(2) [unfolded working_tick_def] and sw = assms(1) [unfolded siege_world_def]
  obtain w1 p tab where r: "run_event_transaction ?te g i u Failure fl gen token w = (w1, Committed)"
    and st: "stage 1 (encode_username u) (decision_for (lockout_until_of tab u) (de_clock (te_db ?te))) pending_new = (p, Inr ())"
    and w1: "wd_shm w1 = (apply_all (te_commit_clock ?te) p (wd_shm w))\<lparr>sh_auth := sh_auth (wd_shm w1)\<rparr>"
      "db_login_attempts (wd_db w1) = tab" "\<And>j. has_receipt j (wd_db w1) \<longleftrightarrow> j = i \<or> has_receipt j (wd_db w)"
    and row: "map_of tab u = Some (counted_failure (de_now (te_db ?te)) m l (map_of (db_login_attempts (wd_db w)) u))"
    using failure_commits [OF assms(1,2,5,6), where fl = fl and gen = gen and token = token] by metis
  have sr: "siege_row m l t0 t1 (Suc k) (map_of tab u)"
    using siege_row_counted [of m l t0 t1 k "map_of (db_login_attempts (wd_db w)) u" "de_now (te_db ?te)"] assms(4) wt sw row by simp
  note cc = failure_commit_caches [OF st sr assms(4) _ _ assms(3), of "te_commit_clock ?te" "wd_shm w"]
  note rm = staged_room [OF st [unfolded stage_def] _ encode_used [OF assms(3)], of "wd_shm w" "te_commit_clock ?te"]
  note sv = run_event_transaction_serving(1) [OF _ assms(7) r]
  have "health_of w1 = health_of w" using run_event_transaction_health [of ?te g i u Failure fl gen token w] r by simp
  moreover have "sh_lock (wd_shm w1) = sh_lock (apply_all (te_commit_clock ?te) p (wd_shm w))"
    "sh_expiry (wd_shm w1) = sh_expiry (apply_all (te_commit_clock ?te) p (wd_shm w))"
    "sh_bypass (wd_shm w1) = sh_bypass (apply_all (te_commit_clock ?te) p (wd_shm w))"
    by (subst w1(1), simp)+
  moreover have "queue_open b (sh_auth (wd_shm w1))" using committed_queue_open [OF r] sv sw by blast
  ultimately have "siege_world g u m l t0 t1 b (Suc k) w1"
    using sw sv cc rm sr wt w1(2) unfolding siege_world_def by (simp add: caches_inv_def)
  then show ?thesis using r w1(3) by blast
qed

section \<open>The journal between hook and worker\<close>

text \<open>
  Where the records that are not yet applied lie: \<open>rest\<close> is what the worker has left of its batch, if
  it has one open, \<open>act\<close> the active file.
\<close>

definition layout :: "siphash \<Rightarrow> guc \<Rightarrow> nat \<Rightarrow> SharedAuthEvent list option \<Rightarrow> SharedAuthEvent list \<Rightarrow> worker \<Rightarrow> bool" where
  "layout sip g i0 rest act wk \<longleftrightarrow> (\<exists>cs. wk_phase wk = Consuming cs \<and> wk_guc wk = g \<and> cs_last_bypass_refresh cs = i0
     \<and> jf_active (journal_of (wk_world wk)) = (if act = [] then None else Some (records sip act))
     \<and> (case rest of
          None \<Rightarrow> cs_batch cs = None \<and> cs_pending_event cs = None \<and> cs_event_failures cs = 0 \<and> cs_degraded cs = degraded_none
            \<and> jf_processing (journal_of (wk_world wk)) = None
        | Some es \<Rightarrow> \<exists>n. reading sip g n es cs (wk_world wk)))"

definition todo :: "SharedAuthEvent list option \<Rightarrow> SharedAuthEvent list \<Rightarrow> SharedAuthEvent list" where
  "todo rest act = (case rest of None \<Rightarrow> [] | Some es \<Rightarrow> es) @ act"

text \<open>Steps the worker needs: one per record, one to close an open batch, one to close the last batch.\<close>

definition work :: "SharedAuthEvent list option \<Rightarrow> SharedAuthEvent list \<Rightarrow> nat" where
  "work rest act = 2 * length (todo rest act) + (if rest = None then 0 else 1)"

definition failure_of :: "username \<Rightarrow> SharedAuthEvent \<Rightarrow> bool" where
  "failure_of u e \<longleftrightarrow> event_valid e \<and> username_from_bytes (ev_username e) = Some u \<and> kind_from_raw (ev_kind e) = Some Failure"

text \<open>
  The invariant of an attack: \<open>k\<close> failures are counted, those of \<open>todo\<close> are waiting, and the receipts
  belong to earlier logins.
\<close>

definition siege ::
  "siphash \<Rightarrow> guc \<Rightarrow> username \<Rightarrow> int \<Rightarrow> int \<Rightarrow> timestamp \<Rightarrow> timestamp \<Rightarrow> nat \<Rightarrow> nat \<Rightarrow> byte list set \<Rightarrow> nat
    \<Rightarrow> SharedAuthEvent list option \<Rightarrow> SharedAuthEvent list \<Rightarrow> worker \<Rightarrow> bool" where
  "siege sip g u m l t0 t1 i0 b used k rest act wk \<longleftrightarrow> layout sip g i0 rest act wk
     \<and> siege_world g u m l t0 t1 b k (wk_world wk)
     \<and> (\<forall>e \<in> set (todo rest act). failure_of u e \<and> ev_event_id e \<in> used \<and> \<not> has_receipt (ev_event_id e) (wd_db (wk_world wk)))
     \<and> distinct (map ev_event_id (todo rest act))
     \<and> (\<forall>i. has_receipt i (wd_db (wk_world wk)) \<longrightarrow> i \<in> used)"

lemma siege_world_health:
  assumes "siege_world g u m l t0 t1 b k w"
  shows "enforcement_pause_reason (sh_auth (wd_shm w)) = None"
  using assms by (simp add: siege_world_def serving_def gates_open_def marked_def health_of_def
      enforcement_pause_reason_def auth_queue_corrupt_def)

lemma failure_event_of:
  assumes "wrong_password sip g u env" and "representable u" and "utf8_valid u"
  shows "failure_of u (failure_event u env)" and "ev_event_id (failure_event u env) = event_id_of env"
proof -
  have "username_from_bytes (encode_username u) = Some u"
    using username_from_bytes_encode [OF assms(2)] assms(3) by simp
  then show "failure_of u (failure_event u env)"
    using assms(1)
    by (simp add: failure_of_def failure_event_def journaled_event_def event_valid_def event_wf_def wrong_password_def
        kind_from_raw_def EVENT_KIND_FAILURE_def flags_from_raw_def flags_none_def is_i64_def width_defs)
  show "ev_event_id (failure_event u env) = event_id_of env" by (simp add: failure_event_def journaled_event_def)
qed

text \<open>A wrong password adds one record to the active file and changes nothing else.\<close>

lemma journal_active_append:
  assumes "jf_active fs = (if act = [] then None else Some (records sip act))"
  shows "Some (active_bytes fs @ encode sip e) = Some (records sip (act @ [e]))"
  using assms by (auto simp: active_bytes_def)

lemma siege_world_auth:
  assumes "siege_world g u m l t0 t1 (Suc b) k w" and "queue_open b a" and "as_health a = as_health (sh_auth (wd_shm w))"
  shows "siege_world g u m l t0 t1 b k (on_auth (\<lambda>_. a) w)"
  using assms
  by (simp add: siege_world_def serving_def gates_open_def marked_def health_of_def on_auth_def on_shm_def caches_inv_def
      queue_open_def)

lemma reading_auth:
  assumes "reading sip g n es cs w" and "serving g (on_auth (\<lambda>_. a) w)"
    and "jf_processing (as_journal a) = jf_processing (journal_of w)" "jf_data_dir (as_journal a) = jf_data_dir (journal_of w)"
  shows "reading sip g n es cs (on_auth (\<lambda>_. a) w)"
  using assms by (simp add: reading_def journal_of_def on_auth_def on_shm_def)

lemma siege_login:
  assumes "siege sip g u m l t0 t1 i0 (Suc b) used k rest act wk" and "wrong_password sip g u env"
    and "LOCKOUT_ENFORCEMENT g" and "representable u" and "utf8_valid u" and "event_id_of env \<notin> used"
  shows "siege sip g u m l t0 t1 i0 b (insert (event_id_of env) used) k rest (act @ [failure_event u env])
    (sys_step sip (LoginAttempt env) wk)"
proof -
  let ?w = "wk_world wk" and ?e = "failure_event u env"
  note sg = assms(1) [unfolded siege_def]
  have sw: "siege_world g u m l t0 t1 (Suc b) k ?w" using sg by blast
  have "u \<noteq> []" using assms(4) by (simp add: representable_def)
  then obtain a logs where h: "client_auth_hook env (wd_shm ?w) = ((wd_shm ?w)\<lparr>sh_auth := a\<rparr>, NativeRejected, logs)"
    "queue_open b a" "as_health a = as_health (sh_auth (wd_shm ?w))"
    "as_journal a = (as_journal (sh_auth (wd_shm ?w)))\<lparr>jf_active := Some (active_bytes (as_journal (sh_auth (wd_shm ?w))) @ encode sip ?e)\<rparr>"
    using wrong_password_journaled [OF assms(2,3) siege_world_health [OF sw], of b] sw unfolding siege_world_def by blast
  have step: "sys_step sip (LoginAttempt env) wk = wk\<lparr>wk_world := on_auth (\<lambda>_. a) ?w\<rparr>"
    using h(1) by (simp add: on_auth_def on_shm_def)
  have sw1: "siege_world g u m l t0 t1 b k (on_auth (\<lambda>_. a) ?w)" by (rule siege_world_auth [OF sw h(2,3)])
  obtain cs where cs: "wk_phase wk = Consuming cs"
    and act: "jf_active (journal_of ?w) = (if act = [] then None else Some (records sip act))"
    using sg by (auto simp: layout_def)
  have j: "journal_of (on_auth (\<lambda>_. a) ?w) = (journal_of ?w)\<lparr>jf_active := Some (records sip (act @ [?e]))\<rparr>"
    using h(4) journal_active_append [OF act] by (simp add: journal_of_def on_auth_def on_shm_def)
  have "layout sip g i0 rest (act @ [?e]) (sys_step sip (LoginAttempt env) wk)"
  proof -
    have "reading sip g n es cs (on_auth (\<lambda>_. a) ?w)" if "reading sip g n es cs ?w" for n es
      using reading_auth [OF that] sw1 h(4) by (simp add: siege_world_def journal_of_def)
    then show ?thesis unfolding layout_def step using sg cs j by (auto simp: layout_def split: option.splits)
  qed
  moreover have "todo rest (act @ [?e]) = todo rest act @ [?e]" by (simp add: todo_def)
  moreover have "wd_db (wk_world (sys_step sip (LoginAttempt env) wk)) = wd_db ?w"
    unfolding step by (simp add: on_auth_def on_shm_def)
  moreover have "\<not> has_receipt (event_id_of env) (wd_db ?w)" "\<forall>e \<in> set (todo rest act). ev_event_id e \<noteq> event_id_of env"
    using sg assms(6) by auto
  ultimately show ?thesis
    using sg failure_event_of [OF assms(2,4,5)] sw1 unfolding siege_def step by auto
qed

text \<open>An iteration of the worker applies a record, closes a batch, or finds nothing to do.\<close>

lemma siege_read:
  assumes "siege sip g u m l t0 t1 i0 b used k (Some (e # es)) act wk" and "working_tick g u m l t0 t1 i0 t"
    and "representable u" and "t1 < t0 + l * MICROS_PER_MINUTE" and "int k < I32_MAX"
  shows "siege sip g u m l t0 t1 i0 b used (Suc k) (Some es) act (worker_step sip t wk)"
proof -
  let ?w = "wk_world wk"
  note sg = assms(1) [unfolded siege_def]
  obtain cs n where cs: "wk_phase wk = Consuming cs" "wk_guc wk = g" "cs_last_bypass_refresh cs = i0"
    and rd: "reading sip g n (e # es) cs ?w"
    and act: "jf_active (journal_of ?w) = (if act = [] then None else Some (records sip act))"
    using sg by (auto simp: layout_def)
  have e: "failure_of u e" "\<not> has_receipt (ev_event_id e) (wd_db ?w)" using sg by (simp_all add: todo_def)
  obtain fl where fl: "flags_from_raw (ev_flags e) = Some fl" using e(1) by (auto simp: failure_of_def event_valid_def)
  obtain a token where mc: "matching_claim (ev_event_id e) (sh_auth (wd_shm ?w)) = (a, token)" by fastforce
  have sw: "siege_world g u m l t0 t1 b k ?w" using sg by blast
  obtain w1 where r: "run_event_transaction (tk_txn t) g (ev_event_id e) u Failure fl (ev_generation e) token ?w = (w1, Committed)"
    and sw1: "siege_world g u m l t0 t1 b (Suc k) w1"
    and rc: "\<forall>j. has_receipt j (wd_db w1) \<longleftrightarrow> j = ev_event_id e \<or> has_receipt j (wd_db ?w)"
    using siege_failure [OF sw assms(2-5) e(2) mc] by blast
  obtain cs1 where p: "flow_then (fetch_event sip t cs ?w) (process_event t g) = (cs1, w1, Continue)"
    "reading sip g (n + 1) es cs1 w1" "cs_last_bypass_refresh cs1 = i0"
    using process_committed [OF rd _ _ _ _ fl mc r] e(1) assms(2) cs(3) by (auto simp: failure_of_def working_tick_def)
  have "worker_step sip t wk = \<lparr>wk_phase = Consuming cs1, wk_guc = g, wk_world = w1\<rparr>"
    using reading_step [OF cs(1), where sip = sip and t = t and n = n and rest = "e # es" and ?cs1.0 = cs1 and ?w1.0 = w1] rd p(1) cs assms(2)
    by (simp add: working_tick_def)
  moreover have "journal_of w1 = journal_of ?w"
    using run_event_transaction_journal [of "tk_txn t" g "ev_event_id e" u Failure fl "ev_generation e" token ?w] r by simp
  ultimately have "layout sip g i0 (Some es) act (worker_step sip t wk)" "wk_world (worker_step sip t wk) = w1"
    using p(2,3) act by (auto simp: layout_def)
  moreover have "\<forall>x \<in> set es \<union> set act. ev_event_id x \<noteq> ev_event_id e"
    using sg by (simp add: todo_def) (metis Un_iff image_eqI)
  ultimately show ?thesis using sg sw1 rc unfolding siege_def by (simp add: todo_def)
qed

lemma siege_world_finish:
  assumes "siege_world g u m l t0 t1 b k w"
  shows "siege_world g u m l t0 t1 b k ((on_journal (\<lambda>fs. fs\<lparr>jf_processing := None\<rparr>) w)\<lparr>wd_db := (wd_db w)\<lparr>db_auth_event_receipts := []\<rparr>\<rparr>)"
proof -
  have "queue_state (a\<lparr>as_journal := j\<rparr>) = queue_state a" for a j by (simp add: queue_state_def split: option.split)
  then show ?thesis
    using assms by (simp add: siege_world_def serving_def gates_open_def marked_def health_of_def on_journal_def on_auth_def
        on_shm_def caches_inv_def queue_open_def auth_inv_def)
qed

lemma siege_finish:
  assumes "siege sip g u m l t0 t1 i0 b used k (Some []) act wk" and "working_tick g u m l t0 t1 i0 t"
  shows "siege sip g u m l t0 t1 i0 b used k None act (worker_step sip t wk)"
proof -
  let ?w = "wk_world wk"
  let ?w1 = "(on_journal (\<lambda>fs. fs\<lparr>jf_processing := None\<rparr>) ?w)\<lparr>wd_db := (wd_db ?w)\<lparr>db_auth_event_receipts := []\<rparr>\<rparr>"
  note sg = assms(1) [unfolded siege_def]
  obtain cs n where cs: "wk_phase wk = Consuming cs" "wk_guc wk = g" "cs_last_bypass_refresh cs = i0"
    and rd: "reading sip g n [] cs ?w"
    and act: "jf_active (journal_of ?w) = (if act = [] then None else Some (records sip act))"
    using sg by (auto simp: layout_def)
  have ok: "quiet_tick (cs_last_bypass_refresh cs) t" "storage_ok t" using assms(2) cs(3) by (simp_all add: working_tick_def)
  have st: "worker_step sip t wk = \<lparr>wk_phase = Consuming (cs\<lparr>cs_batch := None, cs_journal_io_failures := 0\<rparr>),
      wk_guc = g, wk_world = ?w1\<rparr>"
    using reading_step [OF cs(1) _ ok(1), of sip n "[]"] rd finish_reading [OF rd ok(2)] cs(2) by simp
  have "journal_of ?w1 = (journal_of ?w)\<lparr>jf_processing := None\<rparr>"
    by (simp add: journal_of_def on_journal_def on_auth_def on_shm_def)
  then have "layout sip g i0 None act (worker_step sip t wk)"
    unfolding st layout_def using rd act cs(3) by (simp add: reading_def)
  moreover have "siege_world g u m l t0 t1 b k ?w1" using siege_world_finish sg by blast
  ultimately show ?thesis using sg unfolding siege_def st by (auto simp: todo_def has_receipt_def)
qed

lemma fetch_batch_rotates:
  assumes "cs_batch cs = None" "as_lock (sh_auth (wd_shm w))" "jf_data_dir (journal_of w)" "jf_processing (journal_of w) = None"
    and "jf_active (journal_of w) = Some (records sip es)" "es \<noteq> []" "\<forall>e \<in> set es. event_valid e" "storage_ok t"
  shows "fetch_batch t cs w = (cs\<lparr>cs_journal_io_failures := 0, cs_batch := Some \<lparr>jr_inner = records sip es,
      jr_complete_records = length es, jr_read_records = 0\<rparr>\<rparr>,
    on_journal (\<lambda>fs. fs\<lparr>jf_active := None, jf_processing := Some (records sip es)\<rparr>) w, Proceed)"
proof -
  have o: "reader_open reader_ok (records sip es) =
      (records sip es, Inr \<lparr>jr_inner = records sip es, jr_complete_records = length es, jr_read_records = 0\<rparr>)"
    using reader_open_records [of es "[]" sip] assms(7) event_valid_wf by auto
  have "length (records sip es) = length es * RECORD_SIZE" using records_length assms(7) event_valid_wf by blast
  then have ne: "records sip es \<noteq> []" using assms(6) by (metis RECORD_SIZE_pos length_0_conv mult_is_0 neq0_conv)
  have rot: "rotate_journal (tk_rotate t) (sh_auth (wd_shm w)) = ((sh_auth (wd_shm w))\<lparr>as_journal :=
      (journal_of w)\<lparr>jf_active := None, jf_processing := Some (records sip es)\<rparr>\<rparr>, Inr True)"
    using assms(2-5,8) ne by (simp add: rotate_journal_def journal_rotate_def journal_of_def storage_ok_def rotate_ok_def)
  show ?thesis
    using assms(1,8) rot o
    by (simp add: fetch_batch_def open_batch_def storage_ok_def journal_of_def on_auth_def on_shm_def on_journal_def)
qed

lemma siege_open:
  assumes "siege sip g u m l t0 t1 i0 b used k None act wk" and "act \<noteq> []" and "working_tick g u m l t0 t1 i0 t"
  shows "\<exists>wk0. worker_step sip t wk = worker_step sip t wk0 \<and> siege sip g u m l t0 t1 i0 b used k (Some act) [] wk0"
proof -
  let ?w = "wk_world wk"
  define w0 where "w0 = on_journal (\<lambda>fs. fs\<lparr>jf_active := None, jf_processing := Some (records sip act)\<rparr>) ?w"
  note sg = assms(1) [unfolded siege_def]
  obtain cs where cs: "wk_phase wk = Consuming cs" "wk_guc wk = g" "cs_last_bypass_refresh cs = i0"
    and idle: "cs_batch cs = None" "cs_pending_event cs = None" "cs_event_failures cs = 0" "cs_degraded cs = degraded_none"
    and j: "jf_active (journal_of ?w) = Some (records sip act)" "jf_processing (journal_of ?w) = None"
    using sg assms(2) by (auto simp: layout_def)
  define cs0 where "cs0 = cs\<lparr>cs_journal_io_failures := 0, cs_batch := Some \<lparr>jr_inner = records sip act,
      jr_complete_records = length act, jr_read_records = 0\<rparr>\<rparr>"
  have sw: "siege_world g u m l t0 t1 b k ?w" using sg by blast
  have q: "queue_state (a\<lparr>as_journal := x\<rparr>) = queue_state a" for a x by (simp add: queue_state_def split: option.split)
  have sw0: "siege_world g u m l t0 t1 b k w0"
    using sw q unfolding w0_def by (simp add: siege_world_def serving_def gates_open_def marked_def health_of_def on_journal_def
        on_auth_def on_shm_def caches_inv_def queue_open_def auth_inv_def)
  have sv: "serving g ?w" "serving g w0" "jf_data_dir (journal_of ?w)" "jf_data_dir (journal_of w0)"
    using sw sw0 by (simp_all add: siege_world_def queue_open_def journal_of_def)
  have ok: "quiet_tick (cs_last_bypass_refresh cs) t" "storage_ok t" using assms(3) cs(3) by (simp_all add: working_tick_def)
  have fb: "fetch_batch t cs ?w = (cs0, w0, Proceed)"
    unfolding cs0_def w0_def
    by (rule fetch_batch_rotates [OF idle(1) _ sv(3) j(2,1) assms(2) _ ok(2)])
      (use sg sv(1) in \<open>auto simp: serving_def todo_def failure_of_def\<close>)
  have "worker_step sip t wk = worker_step sip t (wk\<lparr>wk_phase := Consuming cs0, wk_world := w0\<rparr>)"
    by (rule fetched_step [OF cs(1) ok(1) _ fb]) (use sv(1,2) cs(2) idle(4) in \<open>simp_all add: serving_def cs0_def\<close>)
  moreover have "journal_of w0 = (journal_of ?w)\<lparr>jf_active := None, jf_processing := Some (records sip act)\<rparr>"
    "wd_db w0 = wd_db ?w"
    by (simp_all add: w0_def journal_of_def on_journal_def on_auth_def on_shm_def)
  moreover then have "reading sip g 0 act cs0 w0"
    using sv idle by (simp add: reading_def cs0_def)
  ultimately have "layout sip g i0 (Some act) [] (wk\<lparr>wk_phase := Consuming cs0, wk_world := w0\<rparr>)"
    using cs by (auto simp: layout_def cs0_def)
  then show ?thesis
    using \<open>worker_step sip t wk = _\<close> \<open>wd_db w0 = _\<close> sg sw0
    by (intro exI [of _ "wk\<lparr>wk_phase := Consuming cs0, wk_world := w0\<rparr>"]) (simp add: siege_def todo_def)
qed

lemma siege_idle:
  assumes "siege sip g u m l t0 t1 i0 b used k None [] wk" and "working_tick g u m l t0 t1 i0 t"
  shows "siege sip g u m l t0 t1 i0 b used k None [] (worker_step sip t wk)"
proof -
  let ?w = "wk_world wk"
  note sg = assms(1) [unfolded siege_def]
  obtain cs where cs: "wk_phase wk = Consuming cs" "wk_guc wk = g" "cs_last_bypass_refresh cs = i0"
    and idle: "cs_batch cs = None" "cs_degraded cs = degraded_none"
    and j: "jf_active (journal_of ?w) = None" "jf_processing (journal_of ?w) = None"
    using sg by (auto simp: layout_def)
  have ok: "quiet_tick (cs_last_bypass_refresh cs) t" "storage_ok t" using assms(2) cs(3) by (simp_all add: working_tick_def)
  have sv: "serving g ?w" "jf_data_dir (journal_of ?w)" using sg by (simp_all add: siege_world_def queue_open_def journal_of_def)
  have "on_auth (\<lambda>_. sh_auth (wd_shm ?w)) ?w = ?w" by (simp add: on_auth_def on_shm_def)
  then have "fetch_batch t cs ?w = (cs, ?w, Continue)"
    using idle j sv ok by (simp add: fetch_batch_def rotate_journal_def journal_rotate_def journal_of_def storage_ok_def
        rotate_ok_def serving_def quiet_tick_def)
  then have "worker_step sip t wk = \<lparr>wk_phase = Consuming cs, wk_guc = g, wk_world = ?w\<rparr>"
    using quiet_step [OF cs(1) ok(1), of sip cs ?w] sv(1) idle(2) cs(2) by (simp add: serving_def flow_then_def)
  moreover have "\<lparr>wk_phase = Consuming cs, wk_guc = g, wk_world = ?w\<rparr> = wk" using cs by (cases wk) simp
  ultimately show ?thesis using assms(1) by simp
qed

text \<open>Every iteration keeps the invariant and makes progress while there is work.\<close>

lemma siege_tick:
  assumes "siege sip g u m l t0 t1 i0 b used k rest act wk" and "working_tick g u m l t0 t1 i0 t"
    and "representable u" and "t1 < t0 + l * MICROS_PER_MINUTE" and "int (k + length (todo rest act)) \<le> I32_MAX"
  shows "\<exists>k1 rest1 act1. siege sip g u m l t0 t1 i0 b used k1 rest1 act1 (worker_step sip t wk)
    \<and> k1 + length (todo rest1 act1) = k + length (todo rest act) \<and> work rest1 act1 \<le> work rest act - 1"
proof (cases rest)
  case None
  show ?thesis
  proof (cases act)
    case Nil
    then have "siege sip g u m l t0 t1 i0 b used k None [] (worker_step sip t wk)"
      using siege_idle [OF _ assms(2)] assms(1) None by blast
    then show ?thesis using Nil None by (intro exI conjI) (assumption, simp_all add: todo_def work_def)
  next
    case (Cons e es)
    then obtain wk0 where "worker_step sip t wk = worker_step sip t wk0" "siege sip g u m l t0 t1 i0 b used k (Some (e # es)) [] wk0"
      using siege_open [OF _ _ assms(2)] assms(1) None by blast
    moreover have "int k < I32_MAX" using assms(5) Cons by (simp add: todo_def)
    ultimately have "siege sip g u m l t0 t1 i0 b used (Suc k) (Some es) [] (worker_step sip t wk)"
      using siege_read [OF _ assms(2-4)] by metis
    then show ?thesis using Cons None by (intro exI conjI) (assumption, simp_all add: todo_def work_def)
  qed
next
  case (Some es0)
  show ?thesis
  proof (cases es0)
    case Nil
    then have "siege sip g u m l t0 t1 i0 b used k None act (worker_step sip t wk)"
      using siege_finish [OF _ assms(2)] assms(1) Some by blast
    then show ?thesis using Some Nil by (intro exI conjI) (assumption, simp_all add: todo_def work_def)
  next
    case (Cons e es)
    then have "int k < I32_MAX" using assms(5) Some by (simp add: todo_def)
    then have "siege sip g u m l t0 t1 i0 b used (Suc k) (Some es) act (worker_step sip t wk)"
      using siege_read [OF _ assms(2-4)] assms(1) Some Cons by blast
    then show ?thesis using Some Cons by (intro exI conjI) (assumption, simp_all add: todo_def work_def)
  qed
qed

lemma siege_run:
  assumes "siege sip g u m l t0 t1 i0 (b + length (attempts evs)) used k rest act wk"
    and "\<forall>env \<in> set (attempts evs). wrong_password sip g u env \<and> event_id_of env \<notin> used"
    and "distinct (map event_id_of (attempts evs))"
    and "\<forall>t. WorkerTick t \<in> set evs \<longrightarrow> working_tick g u m l t0 t1 i0 t"
    and "LOCKOUT_ENFORCEMENT g" and "representable u" and "utf8_valid u" and "t1 < t0 + l * MICROS_PER_MINUTE"
    and "int (k + length (todo rest act) + length (attempts evs)) \<le> I32_MAX"
  shows "\<exists>k1 rest1 act1 used1. siege sip g u m l t0 t1 i0 b used1 k1 rest1 act1 (sys_run sip evs wk)
    \<and> k1 + length (todo rest1 act1) = k + length (todo rest act) + length (attempts evs)"
  using assms
proof (induction evs arbitrary: used k rest act wk)
  case Nil
  then show ?case by auto
next
  case (Cons ev evs)
  show ?case
  proof (cases ev)
    case (LoginAttempt env)
    have "siege sip g u m l t0 t1 i0 (b + length (attempts evs)) (insert (event_id_of env) used) k rest
        (act @ [failure_event u env]) (sys_step sip ev wk)"
      using siege_login [of sip g u m l t0 t1 i0 "b + length (attempts evs)" used k rest act wk env] Cons.prems LoginAttempt by simp
    moreover have "length (todo rest (act @ [failure_event u env])) = Suc (length (todo rest act))" by (simp add: todo_def)
    moreover have "\<forall>x \<in> set (attempts evs). wrong_password sip g u x \<and> event_id_of x \<notin> insert (event_id_of env) used"
      using Cons.prems(2,3) LoginAttempt by (auto simp: image_iff)
    ultimately show ?thesis
      using Cons.IH [of "insert (event_id_of env) used" k rest "act @ [failure_event u env]" "sys_step sip ev wk"] Cons.prems(3-9) LoginAttempt
      by simp
  next
    case (WorkerTick t)
    have "int (k + length (todo rest act)) \<le> I32_MAX" using Cons.prems(9) WorkerTick by simp
    then obtain k1 rest1 act1 where "siege sip g u m l t0 t1 i0 (b + length (attempts evs)) used k1 rest1 act1 (sys_step sip ev wk)"
      "k1 + length (todo rest1 act1) = k + length (todo rest act)"
      using siege_tick [of sip g u m l t0 t1 i0 "b + length (attempts evs)" used k rest act wk t] Cons.prems WorkerTick by auto
    then show ?thesis using Cons.IH [of used k1 rest1 act1 "sys_step sip ev wk"] Cons.prems WorkerTick by auto
  qed
qed

lemma siege_drains:
  assumes "siege sip g u m l t0 t1 i0 b used k rest act wk" and "\<forall>t \<in> set ts. working_tick g u m l t0 t1 i0 t"
    and "representable u" and "t1 < t0 + l * MICROS_PER_MINUTE" and "int (k + length (todo rest act)) \<le> I32_MAX"
    and "work rest act \<le> length ts"
  shows "siege sip g u m l t0 t1 i0 b used (k + length (todo rest act)) None [] (run_ticks sip ts wk)"
  using assms
proof (induction ts arbitrary: k rest act wk)
  case Nil
  then have "rest = None" "act = []" by (auto simp: work_def todo_def split: if_splits)
  then show ?case using Nil.prems(1) by (simp add: todo_def)
next
  case (Cons t ts)
  obtain k1 rest1 act1 where "siege sip g u m l t0 t1 i0 b used k1 rest1 act1 (worker_step sip t wk)"
    "k1 + length (todo rest1 act1) = k + length (todo rest act)" "work rest1 act1 \<le> work rest act - 1"
    using siege_tick [OF Cons.prems(1) _ Cons.prems(3-5)] Cons.prems(2) by (meson list.set_intros(1))
  then show ?case using Cons.IH [of k1 rest1 act1 "worker_step sip t wk"] Cons.prems by auto
qed

lemma work_bound: "work rest act \<le> 2 * length (todo rest act) + 1"
  by (simp add: work_def)

section \<open>Brute force is stopped\<close>

text \<open>
  Where an attack may start: the worker consumes, its gates are open and the hook enforces lockouts for
  the user; the journal and the receipts are empty, the user has no counted failure, the lock cache has
  room for it and the ring has enough sequence numbers left.
\<close>

definition on_guard :: "guc \<Rightarrow> username \<Rightarrow> nat \<Rightarrow> nat \<Rightarrow> worker \<Rightarrow> bool" where
  "on_guard g u i0 n wk \<longleftrightarrow> wk_guc wk = g \<and> serving g (wk_world wk) \<and> is_running (health_of (wk_world wk))
     \<and> (case wk_phase wk of
          Consuming cs \<Rightarrow> cs_last_bypass_refresh cs = i0 \<and> cs_batch cs = None \<and> cs_pending_event cs = None
            \<and> cs_event_failures cs = 0 \<and> cs_degraded cs = degraded_none
        | _ \<Rightarrow> False)
     \<and> queue_open n (sh_auth (wd_shm (wk_world wk)))
     \<and> jf_active (journal_of (wk_world wk)) = None \<and> jf_processing (journal_of (wk_world wk)) = None
     \<and> lock_state (sh_lock (wd_shm (wk_world wk))) = Ready \<and> caches_inv (wd_shm (wk_world wk))
     \<and> lock_room (encode_username u) (sh_lock (wd_shm (wk_world wk)))
     \<and> bypass_lookup u (sh_bypass (wd_shm (wk_world wk))) \<noteq> Bypassed
     \<and> map_of (db_login_attempts (wd_db (wk_world wk))) u = None
     \<and> db_auth_event_receipts (wd_db (wk_world wk)) = []"

lemma on_guard_siege:
  assumes "on_guard g u i0 n wk"
  shows "siege sip g u m l t0 t1 i0 n {} 0 None [] wk"
  using assms
  by (auto simp: on_guard_def siege_def layout_def siege_world_def siege_row_def todo_def has_receipt_def split: phase.splits)

text \<open>
  A login with the right password.
\<close>

definition right_password :: "guc \<Rightarrow> username \<Rightarrow> hook_env \<Rightarrow> bool" where
  "right_password g u env \<longleftrightarrow> quiet env \<and> \<not> he_recovery env \<and> he_guc env = g \<and> he_prev env = (\<lambda>s. (s, True))
     \<and> hook_username env = Some u \<and> he_status env = STATUS_OK"


definition guard_worker :: worker where
  "guard_worker = (let wk = ready_worker empty_database (consumer_new 0) []
     in wk\<lparr>wk_world := on_journal (\<lambda>fs. fs\<lparr>jf_processing := None\<rparr>) (wk_world wk)\<rparr>)"

definition guess :: "byte \<Rightarrow> hook_env" where
  "guess b = sample_login\<lparr>he_status := STATUS_ERROR,
     he_enqueue := \<lparr>en_event_id = Some (replicate 16 b), en_now = 20, en_append = append_ok\<rparr>\<rparr>"

definition attack :: "sys_event list" where
  "attack = [LoginAttempt (guess 1), WorkerTick (plain_tick 20), LoginAttempt (guess 2), LoginAttempt (guess 3),
     WorkerTick (plain_tick 21)]"

lemma guess_wrong: "wrong_password (\<lambda>_ _ _. 0) guc_default [0x61] (guess b)" and guess_id: "event_id_of (guess b) = replicate 16 b"
proof -
  show i: "event_id_of (guess b) = replicate 16 b" by (simp add: event_id_of_def guess_def)
  show "wrong_password (\<lambda>_ _ _. 0) guc_default [0x61] (guess b)"
    unfolding wrong_password_def i
    by (simp add: guess_def sample_login_def quiet_def hook_username_def password_profile_port_username_def utf8_valid.simps(2)
        plain_catalog_def password_profile_get_last_sqlstate_def is_i64_def width_defs)
qed

lemma guard_worker_ready: "on_guard guc_default [0x61] 0 3 guard_worker"
proof -
  let ?wk = "ready_worker empty_database (consumer_new 0) []"
  let ?w = "wk_world guard_worker"
  have sh: "sh_auth (wd_shm ?w) = fresh_auth\<lparr>as_journal := \<lparr>jf_data_dir = True, jf_active = None, jf_processing = None\<rparr>,
      as_health := mark_running (Some health_new)\<rparr>"
    "sh_lock (wd_shm ?w) = lock_set_state Ready (Some lock_cache_new)"
    "sh_expiry (wd_shm ?w) = expiry_set_state ExpiryReady (Some expiry_cache_new)"
    "sh_bypass (wd_shm ?w) = bypass_set_state BypassReady (Some bypass_cache_new)"
    "wd_pending ?w = pending_new" "wd_db ?w = empty_database"
    by (simp_all add: guard_worker_def Let_def ready_worker_def ready_shm_def on_journal_def on_auth_def on_shm_def fresh_world_def)
  have q: "queue_state (a\<lparr>as_journal := x\<rparr>) = queue_state a" for a x by (simp add: queue_state_def split: option.split)
  have "queue_open 3 (sh_auth (wd_shm ?w))"
    unfolding sh by (simp add: queue_open_def auth_inv_def fresh_auth_def ring_new_inv queue_state_def)
      (simp add: ring_new_def width_defs)
  moreover have "serving guc_default ?w"
    using ready_serving [of empty_database "consumer_new 0" "[]"] q
    by (simp add: guard_worker_def Let_def serving_def gates_open_def marked_def health_of_def on_journal_def on_auth_def
        on_shm_def auth_inv_def)
  moreover have "is_running (health_of ?w)"
    unfolding health_of_def sh by (simp add: is_running_def mark_running_def health_new_def)
  moreover have "caches_inv (wd_shm ?w)"
    unfolding caches_inv_def sh using lock_cache_new_inv expiry_cache_new_inv
    by (simp add: lock_set_state_def expiry_set_state_def lock_opt_inv_def lock_inv_def expiry_opt_inv_def expiry_inv_def)
  moreover have "lock_room (encode_username [0x61]) (sh_lock (wd_shm ?w))"
    unfolding sh by (simp add: lock_room_def lock_set_state_def lock_cache_new_def LOCK_CACHE_SIZE_def LockEntry_new_def)
  moreover have "bypass_lookup [0x61] (sh_bypass (wd_shm ?w)) \<noteq> Bypassed"
    unfolding sh by (simp add: bypass_lookup_def bypass_set_state_def bypass_cache_new_def find_None_iff Let_def)
  moreover have "lock_state (sh_lock (wd_shm ?w)) = Ready"
    unfolding sh by (simp add: lock_state_def lock_set_state_def cache_state_from_raw_def)
  moreover have "wk_phase guard_worker = Consuming (consumer_new 0)" "wk_guc guard_worker = guc_default"
    by (simp_all add: guard_worker_def ready_worker_def)
  ultimately show ?thesis
    unfolding on_guard_def sh(6) by (simp add: journal_of_def sh(1) consumer_new_def empty_database_def)
qed

lemma plain_tick_working:
  assumes "10 \<le> t" "t \<le> 30"
  shows "working_tick guc_default [0x61] 3 2 10 30 0 (plain_tick t)"
proof -
  have "FAILED_LOGIN_MAX guc_default = 3" "LOCKOUT_MINUTES guc_default = 2" by (simp_all add: guc_default_def)
  then have "tracked plain_catalog guc_default [0x61] 3 2" using plain_catalog_tracked [of guc_default "[0x61]"] by simp
  then show ?thesis
    using assms plain_tick_quiet [of t] unfolding working_tick_def
    by (simp add: plain_tick_def plain_txn_def plain_env_def good_env_def)
qed


end
