(* ===== verification/Shared_Invariant.thy ===== *)
theory Shared_Invariant
  imports Brute_Force
begin

text \<open>
  What it takes for a property of shared memory to be kept by everything the extension does: the locale
  \<open>shm_invariant\<close> has one predicate for each segment, the laws that the operations on that segment keep
  it, and derives that the commit callback, the login hook and every iteration of the worker keep all
  of them.
\<close>

section \<open>Actions of the running system\<close>

text \<open>What runs between the accesses of a hook, and the previous hook, keep a property of shared memory.\<close>

definition harmless :: "(shm \<Rightarrow> bool) \<Rightarrow> hook_env \<Rightarrow> bool" where
  "harmless P env \<longleftrightarrow> (\<forall>s. P s \<longrightarrow> P (fst (he_prev env s))) \<and> (\<forall>p s. P s \<longrightarrow> P (he_others env p s))"

text \<open>Between two iterations of the worker: the property, and nothing staged.\<close>

definition idle_with :: "(shm \<Rightarrow> bool) \<Rightarrow> world \<Rightarrow> bool" where
  "idle_with P w \<longleftrightarrow> P (wd_shm w) \<and> wd_pending w = pending_new"

text \<open>
  The actions of a running server, other than the recovery of the queue and a restart. Another
  backend's transaction stages cache operations through any savepoints, ends in any callback and may
  change the tables; files may be damaged from outside. What an action meets between its own accesses
  (\<open>tk_others\<close>, \<open>tk_during\<close>, \<open>he_others\<close> and the previous hook) keeps the property \<open>P\<close> itself.
\<close>

inductive sys_action :: "siphash \<Rightarrow> (shm \<Rightarrow> bool) \<Rightarrow> worker \<Rightarrow> worker \<Rightarrow> bool" for sip P where
  act_login: "harmless P env \<Longrightarrow> sys_action sip P wk (sys_step sip (LoginAttempt env) wk)"
| act_tick: "(\<And>w. idle_with P w \<Longrightarrow> idle_with P (tk_others t w)) \<Longrightarrow> (\<And>w. idle_with P w \<Longrightarrow> idle_with P (tk_during t w))
    \<Longrightarrow> sys_action sip P wk (sys_step sip (WorkerTick t) wk)"
| act_backend: "run_steps txn_step ops txn_start = Some tx
    \<Longrightarrow> xact_callback clock ev (tx_pending tx, wd_shm (wk_world wk)) = Inr (st, s)
    \<Longrightarrow> sys_action sip P wk (wk\<lparr>wk_world := (wk_world wk)\<lparr>wd_shm := s, wd_db := d\<rparr>\<rparr>)"
| act_files: "sys_action sip P wk (wk\<lparr>wk_world := on_journal f (wk_world wk)\<rparr>)"

section \<open>Invariants of shared memory\<close>

locale shm_invariant =
  fixes auth_ok :: "auth_shm \<Rightarrow> bool" and lock_ok :: "LockCache option \<Rightarrow> bool"
    and expiry_ok :: "ExpiryCache option \<Rightarrow> bool" and bypass_ok :: "BypassCache option \<Rightarrow> bool"
  assumes auth_parts [simp]: "auth_ok (a\<lparr>as_health := h\<rparr>) = auth_ok a" "auth_ok (a\<lparr>as_journal := fs\<rparr>) = auth_ok a"
    and enqueue_silent_kept: "auth_ok a \<Longrightarrow> auth_ok (fst (enqueue_encoded_silent sip env u k fl g a))"
    and claim_kept: "auth_ok a \<Longrightarrow> auth_ok (fst (matching_claim i a))"
    and ack_claim_kept: "auth_ok a \<Longrightarrow> auth_ok (fst (ack_claim t a))"
    and mark_corrupt_kept: "auth_ok a \<Longrightarrow> auth_ok (mark_corrupt a)"
    and lock_ops_kept: "lock_ok c \<Longrightarrow> lock_ok (fst (lock_set now v x c))" "lock_ok c \<Longrightarrow> lock_ok (fst (lock_clear v c))"
    and expiry_ops_kept: "expiry_ok e \<Longrightarrow> expiry_ok (fst (set_entry v must gen grace e))" "expiry_ok e \<Longrightarrow> expiry_ok (fst (clear_entry v e))"
    and grace_kept: "expiry_ok e \<Longrightarrow> expiry_ok (fst (fst (try_consume_grace sip env w now fl (e, a))))"
    and set_state_kept: "lock_ok c \<Longrightarrow> lock_ok (lock_set_state st c)" "expiry_ok e \<Longrightarrow> expiry_ok (expiry_set_state xt e)"
      "bypass_ok b \<Longrightarrow> bypass_ok (bypass_set_state bt b)"
    and passes_kept: "lock_ok c \<Longrightarrow> lock_ok (fst (hydrate_from_db de col ins d c))"
      "expiry_ok e \<Longrightarrow> expiry_ok (fst (hydrate_expiry_from_db de coll ins d e))"
      "bypass_ok b \<Longrightarrow> bypass_ok (fst (refresh_bypass_cache de rs b))"
begin

definition shm_inv :: "shm \<Rightarrow> bool" where
  "shm_inv s \<longleftrightarrow> auth_ok (sh_auth s) \<and> lock_ok (sh_lock s) \<and> expiry_ok (sh_expiry s) \<and> bypass_ok (sh_bypass s)"

abbreviation world_inv :: "world \<Rightarrow> bool" where
  "world_inv \<equiv> idle_with shm_inv"

lemma shm_inv_parts [simp]:
  "shm_inv (s\<lparr>sh_auth := a\<rparr>) \<longleftrightarrow> auth_ok a \<and> lock_ok (sh_lock s) \<and> expiry_ok (sh_expiry s)
     \<and> bypass_ok (sh_bypass s)"
  "shm_inv (s\<lparr>sh_lock := c\<rparr>) \<longleftrightarrow> auth_ok (sh_auth s) \<and> lock_ok c \<and> expiry_ok (sh_expiry s)
     \<and> bypass_ok (sh_bypass s)"
  "shm_inv (s\<lparr>sh_expiry := x\<rparr>) \<longleftrightarrow> auth_ok (sh_auth s) \<and> lock_ok (sh_lock s) \<and> expiry_ok x
     \<and> bypass_ok (sh_bypass s)"
  "shm_inv (s\<lparr>sh_bypass := y\<rparr>) \<longleftrightarrow> auth_ok (sh_auth s) \<and> lock_ok (sh_lock s) \<and> expiry_ok (sh_expiry s)
     \<and> bypass_ok y"
  by (simp_all add: shm_inv_def)

lemma shm_invD:
  assumes "shm_inv s"
  shows "auth_ok (sh_auth s)" "lock_ok (sh_lock s)" "expiry_ok (sh_expiry s)"
    "bypass_ok (sh_bypass s)"
  using assms by (simp_all add: shm_inv_def)

lemma enqueue_kept: "auth_ok a \<Longrightarrow> auth_ok (fst (enqueue sip env u k fl a))"
  using enqueue_silent_kept [of a sip env "encode_username u" k fl 0] by (simp add: enqueue_def case_prod_beta)

lemma try_consume_grace_kept:
  assumes "expiry_ok x" and "auth_ok a"
  shows "expiry_ok (fst (fst (try_consume_grace sip env u now fl (x, a))))"
    and "auth_ok (snd (fst (try_consume_grace sip env u now fl (x, a))))"
  using grace_kept [OF assms(1)] assms(2) enqueue_silent_kept [OF assms(2)]
  by (auto simp: try_consume_grace_def Let_def case_prod_beta split: option.split ExpiryDecision.split)

text \<open>The commit callback.\<close>

lemma apply_entry_kept: "shm_inv s \<Longrightarrow> shm_inv (apply_entry now e s)"
  using lock_ops_kept [of "sh_lock s"] expiry_ops_kept [of "sh_expiry s"]
  by (simp add: apply_entry_def Let_def shm_inv_def split: option.split CacheDecision.split PendingExpiry.split)

lemma apply_entries_kept: "shm_inv s \<Longrightarrow> shm_inv (apply_entries clock i es s)"
  by (induction clock i es s rule: apply_entries.induct) (simp_all add: apply_entry_kept)

lemma xact_callback_kept:
  assumes "xact_callback clock ev (st, s) = Inr (st1, s1)" and "shm_inv s"
  shows "shm_inv s1"
proof -
  have a: "shm_inv (apply_all clock st s)" using apply_entries_kept [OF assms(2)] by (simp add: apply_all_def)
  then have "auth_ok (fst (ack_claim t (sh_auth (apply_all clock st s))))" for t using ack_claim_kept shm_invD(1) by blast
  then show ?thesis
    using assms a shm_invD [OF a] by (auto simp: Let_def split: if_splits option.splits)
qed

lemma others_kept: "harmless shm_inv env \<Longrightarrow> shm_inv s \<Longrightarrow> shm_inv (he_others env p s)"
  by (simp add: harmless_def)

lemma report_degraded_kept: "shm_inv s \<Longrightarrow> shm_inv (fst (report_degraded now pause lost s))"
  by (simp add: report_degraded_def warn_paused_def case_prod_beta shm_inv_def split: option.split)

lemma hook_enqueue_kept: "shm_inv s \<Longrightarrow> shm_inv (fst (hook_enqueue env u k fl s))"
  using enqueue_kept shm_invD by (simp add: hook_enqueue_def case_prod_beta)

lemma hook_failure_kept:
  assumes "shm_inv s" and "harmless shm_inv env"
  shows "shm_inv (fst (hook_failure env u lra pause s))"
  using assms by (auto simp: hook_failure_def Let_def case_prod_beta intro!: report_degraded_kept hook_enqueue_kept others_kept)

lemma hook_expiry_kept:
  assumes "shm_inv s" and "harmless shm_inv env"
  shows "shm_inv (fst (hook_expiry env u lra era lost s))"
proof -
  have "shm_inv (he_others env p s)" if "shm_inv s" for p s using that assms(2) by (simp add: harmless_def)
  then have o: "shm_inv (he_others env AtExpiryLookup s)" "shm_inv (he_others env AtGrace (he_others env AtExpiryLookup s))"
    using assms(1) by blast+
  show ?thesis
    using assms(1) o shm_invD [OF o(2)] by (auto simp: hook_expiry_def Let_def case_prod_beta intro!: try_consume_grace_kept split: ExpiryDecision.split)
qed

lemma hook_success_kept:
  assumes "shm_inv s" and "harmless shm_inv env"
  shows "shm_inv (fst (hook_success env u lra era pause s))"
  using assms by (auto simp: hook_success_def Let_def case_prod_beta intro!: report_degraded_kept hook_enqueue_kept
      hook_expiry_kept others_kept)

lemma client_auth_hook_kept:
  assumes "shm_inv s" and "harmless shm_inv env"
  shows "shm_inv (fst (client_auth_hook env s))"
proof -
  obtain s1 out logs where h: "client_auth_hook env s = (s1, out, logs)" by (metis prod_cases3)
  have o: "shm_inv (fst (he_prev env s))" "\<And>p s. shm_inv s \<Longrightarrow> shm_inv (he_others env p s)"
    using assms by (simp_all add: harmless_def)
  show ?thesis
  proof (cases rule: client_auth_hook_cases [OF h])
    case 1
    then show ?thesis using h o(1) by simp
  next
    case (2 u pause lra era s4)
    have "shm_inv s4" using 2(6) o by (simp add: at_health_def)
    note w = hook_failure_kept [OF this assms(2)] hook_success_kept [OF o(2) [OF this] assms(2)] o(2) [OF this]
    show ?thesis
      using 2(9) w h by (auto simp: Let_def case_prod_beta split: if_splits option.splits dest: arg_cong [where f = fst])
  qed
qed

text \<open>The worker.\<close>

lemma world_inv_shm: "world_inv w \<Longrightarrow> shm_inv (wd_shm w)"
  by (simp add: idle_with_def)

lemma on_shm_kept: "world_inv w \<Longrightarrow> (\<And>s. shm_inv s \<Longrightarrow> shm_inv (f s)) \<Longrightarrow> world_inv (on_shm f w)"
  by (simp add: idle_with_def on_shm_def)

lemma on_auth_kept: "world_inv w \<Longrightarrow> (\<And>a. auth_ok a \<Longrightarrow> auth_ok (f a)) \<Longrightarrow> world_inv (on_auth f w)"
  unfolding on_auth_def by (rule on_shm_kept) (auto simp: shm_inv_def)

lemma on_health_kept: "world_inv w \<Longrightarrow> world_inv (on_health f w)"
  unfolding on_health_def by (rule on_shm_kept) (auto simp: shm_inv_def)

lemma on_journal_kept: "world_inv w \<Longrightarrow> world_inv (on_journal f w)"
  unfolding on_journal_def by (rule on_auth_kept) auto

lemma world_inv_db [simp]: "world_inv (w\<lparr>wd_db := d\<rparr>) = world_inv w"
  by (simp add: idle_with_def)

lemma boundary_kept:
  assumes "P c" and "P (fst pass)"
  shows "P (fst (hydration_boundary pv c pass))"
  using assms by (auto simp: hydration_boundary_def split: prod.split sum.split db_error.split)

lemma hydration_transactions_kept:
  assumes "world_inv w"
  shows "world_inv (fst (run_hydration_transaction t w))" "world_inv (fst (run_expiry_hydration_transaction t w))"
    "world_inv (fst (run_bypass_refresh_transaction t w))"
proof -
  note c = shm_invD [OF world_inv_shm [OF assms]]
  show "world_inv (fst (run_hydration_transaction t w))"
    using assms c(1-4) boundary_kept [where P = "lock_ok", OF c(2) passes_kept(1) [OF c(2)]]
    by (simp add: run_hydration_transaction_def case_prod_beta on_shm_def idle_with_def)
  show "world_inv (fst (run_expiry_hydration_transaction t w))"
    using assms c(1-4) boundary_kept [where P = "expiry_ok", OF c(3) passes_kept(2) [OF c(3)]]
    by (simp add: run_expiry_hydration_transaction_def case_prod_beta on_shm_def idle_with_def)
  show "world_inv (fst (run_bypass_refresh_transaction t w))"
    using assms c(1-4) boundary_kept [where P = "bypass_ok", OF c(4) passes_kept(3) [OF c(4)]]
    by (simp add: run_bypass_refresh_transaction_def case_prod_beta on_shm_def idle_with_def)
qed

lemma withdraw_kept:
  assumes "world_inv w"
  shows "world_inv (on_shm (\<lambda>s. s\<lparr>sh_lock := lock_set_state ls (sh_lock s)\<rparr>) w)"
    "world_inv (on_shm (\<lambda>s. s\<lparr>sh_expiry := expiry_set_state xs (sh_expiry s)\<rparr>) w)"
    "world_inv (on_shm (\<lambda>s. s\<lparr>sh_bypass := bypass_set_state bs (sh_bypass s)\<rparr>) w)"
  by (rule on_shm_kept [OF assms]; auto simp: shm_inv_def intro: set_state_kept)+

lemma hydrate_once_kept:
  assumes "world_inv w"
  shows "world_inv (fst (hydrate_lock_cache_once t f w))" "world_inv (fst (hydrate_expiry_cache_once t f w))"
    "world_inv (fst (refresh_bypass_cache_once t f w))"
  using hydration_transactions_kept [OF assms, of t]
  by (auto simp: hydrate_lock_cache_once_def hydrate_expiry_cache_once_def refresh_bypass_cache_once_def
      intro!: withdraw_kept split: prod.split sum.split)

lemma hydrate_attempt_kept:
  assumes "world_inv w" and "\<And>v. world_inv v \<Longrightarrow> world_inv (tk_during t v)"
  shows "world_inv (fst (snd (hydrate_attempt t g d f w)))"
  using assms hydrate_once_kept
  by (auto simp: hydrate_attempt_def Let_def case_prod_beta clear_durable_degradation_if_quiet_def
      intro!: on_health_kept split: option.split)

lemma run_event_transaction_kept:
  assumes "world_inv w"
  shows "world_inv (fst (run_event_transaction te g i u k fl gen token w))"
proof -
  obtain w1 r where run: "run_event_transaction te g i u k fl gen token w = (w1, r)" by fastforce
  have "shm_inv (wd_shm w1)"
  proof (cases "r = Committed")
    case True
    then obtain st p where "xact_callback (te_commit_clock te) XactCommit (st, wd_shm w) = Inr (p, wd_shm w1)"
      using run by (auto simp: run_event_transaction_def Let_def simp del: xact_callback.simps
          split: if_splits prod.splits sum.splits db_error.splits)
    then show ?thesis using xact_callback_kept assms by (metis idle_with_def)
  next
    case False
    then have "wd_shm w1 = wd_shm w"
      using run by (auto simp: run_event_transaction_def Let_def split: if_splits prod.splits sum.splits db_error.splits)
    then show ?thesis using assms by (simp add: idle_with_def)
  qed
  moreover have "wd_pending w1 = pending_new"
    using run_event_transaction_idle [of w te g i u k fl gen token] run assms by (simp add: idle_with_def)
  ultimately show ?thesis using run by (simp add: idle_with_def)
qed

lemma flow_then_kept:
  assumes "world_inv (fst (snd r))" and "\<And>cs w. world_inv w \<Longrightarrow> world_inv (fst (snd (next cs w)))"
  shows "world_inv (fst (snd (flow_then r next)))"
  using assms by (cases r) (auto simp: flow_then_def split: flow.split)

lemma io_failure_kept: "world_inv w \<Longrightarrow> world_inv (fst (snd (handle_journal_io_failure t cs w)))"
  by (auto simp: handle_journal_io_failure_def Let_def intro!: on_health_kept)

lemma journal_corrupt_kept: "world_inv w \<Longrightarrow> world_inv (fst (snd (journal_corrupt cs w)))"
  by (auto simp: journal_corrupt_def intro!: on_auth_kept mark_corrupt_kept)

lemma fetch_kept:
  assumes "world_inv w"
  shows "world_inv (fst (snd (fetch_batch t cs w)))" "world_inv (fst (snd (fetch_event sip t cs w)))"
proof -
  have "auth_ok (fst (rotate_journal io (sh_auth (wd_shm w))))" for io
    using shm_invD(1) [OF world_inv_shm [OF assms]] by (simp add: rotate_journal_def case_prod_beta)
  then have "world_inv (on_auth (\<lambda>_. fst (rotate_journal io (sh_auth (wd_shm w)))) w)" for io
    by (intro on_auth_kept [OF assms])
  then show "world_inv (fst (snd (fetch_batch t cs w)))"
    using assms by (auto simp: fetch_batch_def open_batch_def Let_def case_prod_beta intro!: io_failure_kept journal_corrupt_kept on_journal_kept
        split: option.split sum.split JournalError.split bool.split)
  show "world_inv (fst (snd (fetch_event sip t cs w)))"
    using assms by (auto simp: fetch_event_def finish_batch_def Let_def case_prod_beta intro!: io_failure_kept journal_corrupt_kept
        on_journal_kept split: option.split sum.split JournalError.split cleanup.split)
qed

lemma degraded_kept:
  "shm_inv s \<Longrightarrow> shm_inv (snd (degraded_mark a (dg, s)))" "shm_inv s \<Longrightarrow> shm_inv (fst (snd (degraded_restore (dg, s))))"
  by (auto simp: degraded_mark_def degraded_restore_def Let_def shm_inv_def intro!: set_state_kept split: CacheState.split ExpiryCacheState.split)

lemma process_event_kept:
  assumes "world_inv w"
  shows "world_inv (fst (snd (process_event t g cs w)))"
proof -
  have claimed: "world_inv (on_auth (\<lambda>_. fst (matching_claim i (sh_auth (wd_shm w)))) w)" for i
    using claim_kept [OF shm_invD(1) [OF world_inv_shm [OF assms]]] by (intro on_auth_kept [OF assms])
  have rest: "world_inv (fst (snd (suspend_and_backoff t a cs v)))" "world_inv (fst (snd (event_committed cs v)))"
    if "world_inv v" for a cs v
    using that degraded_kept [of "wd_shm v"]
    by (auto simp: suspend_and_backoff_def event_committed_def Let_def case_prod_beta idle_with_def)
  have "world_inv (fst (snd (case run_event_transaction te g i u k fl gen token v of
      (w2, Committed) \<Rightarrow> event_committed cs w2 | (w2, _) \<Rightarrow> suspend_and_backoff t a cs w2)))"
    if "world_inv v" for te i u k fl gen token a v
    using rest run_event_transaction_kept [OF that, of te g i u k fl gen token]
    by (auto split: prod.split EventTxnOutcome.split)
  then show ?thesis
    using assms claimed by (auto simp: process_event_def Let_def case_prod_beta intro!: journal_corrupt_kept split: option.split)
qed

lemma consume_iteration_kept:
  assumes "world_inv w"
  shows "world_inv (fst (snd (snd (consume_iteration sip t g cs w))))"
proof -
  have "world_inv (fst (snd (consume_bypass_refresh t g1 cs w)))" for g1
    using assms hydration_transactions_kept(3) [OF assms, of t]
    by (auto simp: consume_bypass_refresh_def Let_def intro!: withdraw_kept(3) split: prod.split sum.split)
  then show ?thesis
    using assms by (auto simp: consume_iteration_def Let_def intro!: flow_then_kept fetch_kept process_event_kept split: option.split)
qed

lemma worker_exit_kept: "world_inv w \<Longrightarrow> world_inv (worker_exit e w)"
proof -
  assume "world_inv w"
  then have h: "world_inv (on_health f w)" for f by (rule on_health_kept)
  show ?thesis
    unfolding worker_exit_def Let_def
    by (rule on_shm_kept [OF h]) (auto simp: shm_inv_def intro: set_state_kept)
qed

lemma worker_step_kept:
  assumes "world_inv (wk_world wk)" and "\<And>w. world_inv w \<Longrightarrow> world_inv (tk_others t w)" "\<And>w. world_inv w \<Longrightarrow> world_inv (tk_during t w)"
  shows "world_inv (wk_world (worker_step sip t wk))"
proof -
  let ?w = "tk_others t (wk_world wk)"
  have w: "world_inv ?w" using assms(1,2) by blast
  show ?thesis
  proof (cases "wk_phase wk")
    case (Hydrating d f)
    obtain g1 w1 fl where h: "hydrate_attempt t (wk_guc wk) d f ?w = (g1, w1, fl)" by (metis prod_cases3)
    have "world_inv w1" using hydrate_attempt_kept [OF w assms(3), where g = "wk_guc wk" and d = d and f = f] h by simp
    then show ?thesis using Hydrating h worker_exit_kept
      by (simp add: worker_step_def exit_with_def Let_def split: hydration_flow.split)
  next
    case (Consuming cs)
    obtain g1 cs1 w1 fl where c: "consume_iteration sip t (wk_guc wk) cs ?w = (g1, cs1, w1, fl)" by (metis prod_cases4)
    have "world_inv w1" using consume_iteration_kept [OF w, of sip t "wk_guc wk" cs] c by simp
    then show ?thesis using Consuming c worker_exit_kept
      by (simp add: worker_step_def exit_with_def Let_def split: flow.split ConsumeOutcome.split)
  qed (use w worker_exit_kept on_health_kept in \<open>auto simp: worker_step_def exit_with_def Let_def split: prod.split sum.split bool.split\<close>)
qed

lemma action_kept:
  assumes "sys_action sip shm_inv wk wk1" and "world_inv (wk_world wk)"
  shows "world_inv (wk_world wk1)"
  using assms(1)
proof cases
  case (act_login env)
  then show ?thesis using assms(2) client_auth_hook_kept by (simp add: idle_with_def on_shm_def)
next
  case (act_tick t)
  then show ?thesis using assms(2) worker_step_kept by simp
next
  case (act_backend ops tx clock ev st s d)
  then show ?thesis using assms(2) xact_callback_kept by (simp add: idle_with_def del: xact_callback.simps)
next
  case (act_files f)
  then show ?thesis using assms(2) on_journal_kept by simp
qed

lemma actions_kept:
  assumes "(sys_action sip shm_inv)\<^sup>*\<^sup>* wk wk1" and "world_inv (wk_world wk)"
  shows "world_inv (wk_world wk1)"
  using assms by (induction rule: rtranclp_induct) (auto intro: action_kept)

end

end
