(* ===== verification/Administration.thy ===== *)
theory Administration
  imports Worker_Progress
begin

text \<open>
  Loading and administration: \<^verbatim>\<open>_PG_init\<close> with the shared-memory startup hook, the activation report,
  the schema check, the recovery of a corrupt event queue and the statistics functions of \<^verbatim>\<open>lib.rs\<close>
  and \<^verbatim>\<open>lock_cache.rs\<close>. A statistic is its name and its value; the descriptions are left out.
\<close>

section \<open>Loading\<close>

record load_env =
  ld_preload_in_progress :: bool
  ld_under_postmaster :: bool
  ld_binary_upgrade :: bool

text \<open>How \<^verbatim>\<open>_PG_init\<close> returns: without registering anything (with or without a warning), or with all hooks.\<close>

datatype activation = NotPreloaded bool | UpgradeMode | HooksRegistered

definition PG_init :: "load_env \<Rightarrow> activation" where
  "PG_init ld =
     (if \<not> ld_preload_in_progress ld
      then NotPreloaded (ld_under_postmaster ld \<and> \<not> ld_binary_upgrade ld)
      else if ld_binary_upgrade ld then UpgradeMode
      else HooksRegistered)"

text \<open>The flag \<^verbatim>\<open>PRELOADED\<close>, which the backends inherit from the postmaster.\<close>

definition preloaded :: "activation \<Rightarrow> bool" where
  "preloaded a = (case a of NotPreloaded _ \<Rightarrow> False | _ \<Rightarrow> True)"

definition password_profile_require_preload :: "bool \<Rightarrow> activation \<Rightarrow> db_error + unit" where
  "password_profile_require_preload binary_upgrade a =
     (if binary_upgrade \<or> preloaded a then Inr ()
      else Inl (DbError ''password_profile must be loaded through shared_preload_libraries''))"

datatype status_report = StatusBinaryUpgrade | StatusNotPreloaded | StatusPreloaded

definition password_profile_status :: "bool \<Rightarrow> activation \<Rightarrow> status_report" where
  "password_profile_status binary_upgrade a =
     (if binary_upgrade then StatusBinaryUpgrade
      else if \<not> preloaded a then StatusNotPreloaded
      else StatusPreloaded)"

text \<open>
  The startup hook: \<open>found\<close> holds the segments that exist already, \<open>s\<close> what this process has attached.
  Without the lock tranche it raises an error.
\<close>

definition shmem_startup :: "bool \<Rightarrow> shm \<Rightarrow> shm \<Rightarrow> shm option" where
  "shmem_startup tranche found s =
     (if \<not> tranche then None
      else
        let s1 = s\<lparr>sh_auth := (sh_auth s)\<lparr>as_lock := True\<rparr>\<rparr>;
            s2 = s1\<lparr>sh_lock := lock_init (sh_lock found) (sh_lock s1)\<rparr>;
            s3 = s2\<lparr>sh_auth := queue_init (as_ring (sh_auth found)) (sh_auth s2)\<rparr>;
            s4 = s3\<lparr>sh_expiry := expiry_init (sh_expiry found) (sh_expiry s3)\<rparr>;
            s5 = s4\<lparr>sh_bypass := bypass_init (sh_bypass found) (sh_bypass s4)\<rparr>
        in Some (s5\<lparr>sh_auth := (sh_auth s5)\<lparr>as_health :=
             health_init (as_health (sh_auth found)) (as_health (sh_auth s5))\<rparr>\<rparr>))"

section \<open>Administrative functions\<close>

text \<open>\<open>exists\<close> is \<^verbatim>\<open>to_regclass\<close> on the name of a table.\<close>

definition init_login_attempts_table :: "db_env \<Rightarrow> (string \<Rightarrow> bool) \<Rightarrow> db_error + unit" where
  "init_login_attempts_table env exists =
     (if \<not> de_spi env ''select schema'' then Inl (SpiError ''select schema'')
      else if exists ''login_attempts'' \<and> exists ''password_history'' \<and> exists ''password_expiry'' \<and> exists ''blacklist''
      then Inr ()
      else Inl (DbError ''password_profile schema is incomplete''))"

datatype recover_error = SuperuserRequired | PrimaryRequired | SwitchesOn | JournalNotTrusted string | RecoverIo IoError

definition recover_auth_event_queue ::
  "siphash \<Rightarrow> reader_io \<Rightarrow> reader_io \<Rightarrow> bool \<Rightarrow> bool \<Rightarrow> guc \<Rightarrow> auth_shm \<Rightarrow> auth_shm \<times> (recover_error + bool)" where
  "recover_auth_event_queue sip io_processing io_active superuser in_recovery g a =
     (if \<not> superuser then (a, Inl SuperuserRequired)
      else if in_recovery then (a, Inl PrimaryRequired)
      else if lockout_enforcement_enabled g \<or> EXPIRY_ENFORCEMENT g then (a, Inl SwitchesOn)
      else case recover_corrupt_ring sip io_processing io_active a of
             (a1, Inr recovered) \<Rightarrow> (a1, Inr recovered)
           | (a1, Inl (JournalCorrupt reason)) \<Rightarrow> (a1, Inl (JournalNotTrusted reason))
           | (a1, Inl (Io e)) \<Rightarrow> (a1, Inl (RecoverIo e)))"

section \<open>Statistics\<close>

type_synonym stat = "string \<times> int"

definition lock_cache_stats :: "timestamp \<Rightarrow> LockCache option \<Rightarrow> stat list" where
  "lock_cache_stats now c =
     (case c of
        None \<Rightarrow> [(''lock_cache_status'', 0), (''lock_cache_state'', cache_state_raw NotReady)]
      | Some cache \<Rightarrow>
          let active_count = int (length (filter (\<lambda>e. slot_used (lk_username e) \<and> now < lk_expires_at e) (lc_entries cache)));
              used_count = int (length (filter (\<lambda>e. slot_used (lk_username e)) (lc_entries cache)))
          in [(''lock_cache_total_size'', int LOCK_CACHE_SIZE),
              (''lock_cache_active_lockouts'', active_count),
              (''lock_cache_used_slots'', used_count),
              (''lock_cache_free_slots'', int LOCK_CACHE_SIZE - used_count),
              (''lock_cache_utilization_pct'', used_count * 100 div int LOCK_CACHE_SIZE),
              (''lock_cache_hydration_active_total'', lc_hydration_active_total cache),
              (''lock_cache_hydration_loaded'', lc_hydration_loaded cache),
              (''lock_cache_hydration_overflow'', lc_hydration_overflow cache),
              (''lock_cache_state'', cache_state_raw (cache_state_from_raw (lc_state cache)))])"

definition worker_stats :: "WorkerHealth option \<Rightarrow> stat list" where
  "worker_stats h =
     (case health_stats h of
        Some w \<Rightarrow> [(''worker_running'', ws_running w), (''worker_stop_reason'', ws_stop_reason w),
          (''worker_starts_total'', ws_starts w), (''worker_stops_total'', ws_stops w),
          (''auth_event_durable_recording_degraded'', ws_durable_degraded w)]
      | None \<Rightarrow> [(''worker_running'', 0)])"

text \<open>A count from the database is left out when its statement returns an error; a raised one ends the function.\<close>

definition db_stat :: "spi_outcome \<Rightarrow> string \<Rightarrow> int \<Rightarrow> db_error + stat list" where
  "db_stat r name v =
     (case r of SpiReturnsOk \<Rightarrow> Inr [(name, v)] | SpiReturnsErr \<Rightarrow> Inr [] | SpiRaises \<Rightarrow> Inl (SpiError name))"

definition users_with_failures :: "database \<Rightarrow> int" where
  "users_with_failures d = int (length (filter (\<lambda>(u, r). 0 < la_fail_count r) (db_login_attempts d)))"

definition users_locked :: "timestamp \<Rightarrow> database \<Rightarrow> int" where
  "users_locked now d =
     int (length (filter (\<lambda>(u, r). case la_lockout_until r of Some x \<Rightarrow> now < x | None \<Rightarrow> False) (db_login_attempts d)))"

definition expiry_cache_stats :: "ExpiryCache option \<Rightarrow> stat list" where
  "expiry_cache_stats c =
     (case expiry_stats c of
        Some x \<Rightarrow> [(''expiry_cache_state'', xs_state x), (''expiry_cache_capacity'', xs_capacity x),
          (''expiry_cache_used_entries'', xs_used x), (''expiry_cache_free_entries'', xs_free x),
          (''expiry_cache_hydration_rows'', xs_hydration_rows x),
          (''expiry_cache_hydration_overflow'', xs_hydration_overflow x)]
      | None \<Rightarrow> [(''expiry_cache_state'', expiry_state_raw ExpiryNotReady)])"

definition auth_queue_stats :: "auth_shm \<Rightarrow> stat list" where
  "auth_queue_stats a =
     (case queue_stats a of
        Some q \<Rightarrow>
          let journal = journal_stats (as_journal a)
          in [(''auth_event_queue_capacity'', qs_usable_capacity q), (''auth_event_queue_depth'', qs_depth q),
              (''auth_event_queue_has_pending'', qs_has_pending q),
              (''auth_event_queue_accepted_total'', qs_accepted q),
              (''auth_event_queue_acknowledged_total'', qs_acknowledged q),
              (''auth_event_queue_rejected_total'', qs_rejected q),
              (''auth_event_journaled_total'', qs_journaled q), (''auth_event_durable_only_total'', qs_durable_only q),
              (''auth_event_journal_failures_total'', qs_journal_failures q),
              (''auth_event_journal_pending_records'', js_pending_records journal),
              (''auth_event_journal_pending_bytes'', js_pending_bytes journal),
              (''auth_event_queue_next_seq'', qs_next_seq q), (''auth_event_queue_state'', qs_state q)]
      | None \<Rightarrow> [(''auth_event_queue_state'', queue_state_raw Corrupt)])"

definition bypass_cache_stats :: "BypassCache option \<Rightarrow> stat list" where
  "bypass_cache_stats c =
     (case bypass_stats c of
        Some b \<Rightarrow> [(''bypass_cache_state'', bs_state b), (''bypass_cache_capacity'', bs_capacity b),
          (''bypass_cache_used_entries'', bs_used b), (''bypass_cache_refresh_rows'', bs_rows b),
          (''bypass_cache_refresh_overflow'', bs_overflow b)]
      | None \<Rightarrow> [(''bypass_cache_state'', bypass_state_raw BypassNotReady)])"

text \<open>\<open>now\<close> is the clock, \<open>txn_now\<close> the time of the transaction.\<close>

definition collect_stats ::
  "timestamp \<Rightarrow> timestamp \<Rightarrow> spi_outcome \<Rightarrow> spi_outcome \<Rightarrow> database \<Rightarrow> shm \<Rightarrow> db_error + stat list" where
  "collect_stats now txn_now failures_spi lockouts_spi d s =
     (case db_stat failures_spi ''db_users_with_failures'' (users_with_failures d) of
        Inl e \<Rightarrow> Inl e
      | Inr failures \<Rightarrow>
          (case db_stat lockouts_spi ''db_active_lockouts'' (users_locked txn_now d) of
             Inl e \<Rightarrow> Inl e
           | Inr lockouts \<Rightarrow>
               Inr (lock_cache_stats now (sh_lock s) @ worker_stats (as_health (sh_auth s)) @ failures @ lockouts
                 @ expiry_cache_stats (sh_expiry s) @ auth_queue_stats (sh_auth s) @ bypass_cache_stats (sh_bypass s))))"

definition get_lock_cache_stats ::
  "activation \<Rightarrow> timestamp \<Rightarrow> timestamp \<Rightarrow> spi_outcome \<Rightarrow> spi_outcome \<Rightarrow> database \<Rightarrow> shm \<Rightarrow> db_error + stat list" where
  "get_lock_cache_stats act now txn_now failures_spi lockouts_spi d s =
     map_sum id (\<lambda>stats. (''library_preloaded'', if preloaded act then 1 else 0) # stats)
       (collect_stats now txn_now failures_spi lockouts_spi d s)"

text \<open>
  \<^verbatim>\<open>EXTRACT(EPOCH FROM ..)::bigint / 86400\<close>: the cast rounds half away from zero, the division truncates.
\<close>

definition whole_days :: "int \<Rightarrow> int" where
  "whole_days micros =
     (if 0 \<le> micros then round_seconds micros div 86400 else - (round_seconds (- micros) div 86400))"

record password_stats =
  ps_history :: int
  ps_days_until_expiry :: "int option"
  ps_failed_attempts :: int

definition get_password_stats :: "db_env \<Rightarrow> username \<Rightarrow> database \<Rightarrow> db_error + password_stats" where
  "get_password_stats env u d =
     (if \<not> de_spi env ''select stats'' then Inl (SpiError ''select stats'')
      else Inr \<lparr>
        ps_history = int (length (filter (\<lambda>h. hr_username h = u) (db_password_history d))),
        ps_days_until_expiry = map_option (\<lambda>must. whole_days (must - de_now env))
          (Option.bind (map_of (db_password_expiry d) u) er_must_change_by),
        ps_failed_attempts = (case map_of (db_login_attempts d) u of Some r \<Rightarrow> la_fail_count r | None \<Rightarrow> 0)\<rparr>)"

section \<open>Loading leaves enforcement paused\<close>

text \<open>The report claims activation exactly when \<^verbatim>\<open>_PG_init\<close> has registered the hooks.\<close>

lemma status_reports_activation:
  "password_profile_status (ld_binary_upgrade ld) (PG_init ld) = StatusPreloaded \<longleftrightarrow> PG_init ld = HooksRegistered"
  by (simp add: password_profile_status_def PG_init_def preloaded_def)

text \<open>Shared memory without segments of the extension.\<close>

definition no_segments :: "journal_fs \<Rightarrow> shm" where
  "no_segments fs = \<lparr>sh_auth = \<lparr>as_lock = False, as_ring = None, as_journal = fs, as_health = None\<rparr>,
     sh_lock = None, sh_expiry = None, sh_bypass = None\<rparr>"

lemma server_restart_shm:
  "shmem_startup True (no_segments fs) (no_segments (journal_of (wk_world wk)))
    = Some (wd_shm (wk_world (server_restart g wk)))"
  by (simp add: shmem_startup_def no_segments_def server_restart_def lock_init_def queue_init_def expiry_init_def
      bypass_init_def health_init_def Let_def)

text \<open>Attaching to segments that exist keeps what they hold: a second startup changes nothing.\<close>

definition attached :: "shm \<Rightarrow> bool" where
  "attached s \<longleftrightarrow> as_lock (sh_auth s) \<and> as_ring (sh_auth s) \<noteq> None \<and> as_health (sh_auth s) \<noteq> None
     \<and> sh_lock s \<noteq> None \<and> sh_expiry s \<noteq> None \<and> sh_bypass s \<noteq> None"

lemma shmem_startup_attaches: "shmem_startup True found s = Some s1 \<Longrightarrow> attached s1"
  by (auto simp: shmem_startup_def attached_def lock_init_def queue_init_def expiry_init_def bypass_init_def health_init_def
      Let_def split: option.split)

lemma shmem_startup_again: "attached s \<Longrightarrow> shmem_startup True found s = Some s"
  by (auto simp: shmem_startup_def attached_def lock_init_def queue_init_def expiry_init_def bypass_init_def health_init_def
      Let_def)

text \<open>After a fresh start nothing is enforced: no cache is ready and the hook finds no running worker.\<close>

lemma fresh_start_enforces_nothing:
  assumes "shmem_startup True (no_segments fs) (no_segments fs1) = Some s"
  shows "enforcement_pause_reason (sh_auth s) = Some WorkerNotRunning \<and> lock_state (sh_lock s) = NotReady
    \<and> expiry_state (sh_expiry s) = ExpiryNotReady \<and> bypass_state (sh_bypass s) = BypassNotReady"
  using assms by (auto simp: shmem_startup_def no_segments_def lock_init_def queue_init_def expiry_init_def bypass_init_def
      health_init_def Let_def enforcement_pause_reason_def is_running_def health_new_def lock_state_def lock_cache_new_def
      expiry_state_def expiry_cache_new_def bypass_state_def bypass_cache_new_def bypass_state_from_raw_def)

section \<open>Recovery\<close>

lemma verify_file_ids: "verify_file sip io f = (f1, r) \<Longrightarrow> f1 = f \<or> f1 = map_option cut_tail f"
  by (auto simp: verify_file_def split: option.splits prod.splits sum.splits dest: reader_open_content)

lemma verify_pending_files:
  assumes "verify_pending sip iop ioa fs = (fs1, r)"
  shows "(jf_processing fs1 = jf_processing fs \<or> jf_processing fs1 = map_option cut_tail (jf_processing fs))
    \<and> (jf_active fs1 = jf_active fs \<or> jf_active fs1 = map_option cut_tail (jf_active fs))"
  using assms by (auto simp: verify_pending_def Let_def split: if_splits prod.splits dest!: verify_file_ids)

lemma file_ids_cut [simp]: "file_ids (map_option cut_tail f) = file_ids f"
  by (cases f) simp_all

lemma recover_corrupt_ring_journal:
  assumes "recover_corrupt_ring sip iop ioa a = (a1, r)"
  shows "as_health a1 = as_health a \<and> as_lock a1 = as_lock a
    \<and> (jf_processing (as_journal a1) = jf_processing (as_journal a)
       \<or> jf_processing (as_journal a1) = map_option cut_tail (jf_processing (as_journal a)))
    \<and> file_ids (jf_active (as_journal a1)) = file_ids (jf_active (as_journal a))"
  using assms verify_pending_files
  by (fastforce simp: recover_corrupt_ring_def split: option.splits if_splits prod.splits sum.splits)

text \<open>A recovery while the worker runs is an act of another process that its replay tolerates.\<close>

lemma recovery_is_tolerated:
  assumes "recover_auth_event_queue sip iop ioa su rc g (sh_auth (wd_shm w)) = (a, r)"
  shows "rely [] w (on_auth (\<lambda>_. a) w)"
proof -
  obtain r1 where "a = sh_auth (wd_shm w) \<or> recover_corrupt_ring sip iop ioa (sh_auth (wd_shm w)) = (a, r1)"
    using assms by (auto simp: recover_auth_event_queue_def split: if_splits prod.splits sum.splits JournalError.splits)
  then show ?thesis
    using recover_corrupt_ring_journal
    by (fastforce simp: rely_def on_auth_def on_shm_def journal_of_def)
qed

text \<open>
  Property C32: an administrator can bring back a suspended worker without losing an event. A recovery
  that reports success was requested by a superuser on the primary with both enforcement switches off,
  has left the queue healthy and every record of both journal files in place; the next iteration of the
  suspended worker that sees no shutdown request starts a hydration, and the tables, the caches and the
  events applied so far are as before.
\<close>
theorem recovery_resumes_the_worker:
  assumes "recover_auth_event_queue sip iop ioa su rc g (sh_auth (wd_shm (wk_world wk))) = (a, Inr True)"
    and "wk_phase wk = Suspended n" and "tk_others t = on_auth (\<lambda>_. a)" and "\<not> tk_sigterm t"
  shows "su \<and> \<not> rc \<and> \<not> lockout_enforcement_enabled g \<and> \<not> EXPIRY_ENFORCEMENT g
    \<and> queue_state a = Healthy
    \<and> wk_phase (worker_step sip t wk) = Hydrating HYDRATION_RETRY_MIN 0
    \<and> file_ids (jf_processing (journal_of (wk_world (worker_step sip t wk)))) = file_ids (jf_processing (journal_of (wk_world wk)))
    \<and> file_ids (jf_active (journal_of (wk_world (worker_step sip t wk)))) = file_ids (jf_active (journal_of (wk_world wk)))
    \<and> wd_db (wk_world (worker_step sip t wk)) = wd_db (wk_world wk)
    \<and> wd_applied (wk_world (worker_step sip t wk)) = wd_applied (wk_world wk)
    \<and> sh_lock (wd_shm (wk_world (worker_step sip t wk))) = sh_lock (wd_shm (wk_world wk))
    \<and> sh_expiry (wd_shm (wk_world (worker_step sip t wk))) = sh_expiry (wd_shm (wk_world wk))
    \<and> sh_bypass (wd_shm (wk_world (worker_step sip t wk))) = sh_bypass (wd_shm (wk_world wk))"
proof -
  let ?w = "wk_world wk" and ?w1 = "on_auth (\<lambda>_. a) (wk_world wk)"
  have r: "recover_corrupt_ring sip iop ioa (sh_auth (wd_shm ?w)) = (a, Inr True)"
    and guards: "su" "\<not> rc" "\<not> lockout_enforcement_enabled g" "\<not> EXPIRY_ENFORCEMENT g"
    using assms(1) by (auto simp: recover_auth_event_queue_def split: if_splits prod.splits sum.splits JournalError.splits)
  have q: "queue_state a = Healthy"
    using r by (auto simp: recover_corrupt_ring_def queue_state_def ring_new_def split: option.splits if_splits prod.splits sum.splits)
  then have "worker_step sip t wk = \<lparr>wk_phase = Hydrating HYDRATION_RETRY_MIN 0, wk_guc = reload t (wk_guc wk), wk_world = ?w1\<rparr>"
    using assms(2-4) by (simp add: worker_step_def suspend_iteration_def Let_def on_auth_def on_shm_def)
  moreover have "rely [] ?w ?w1" by (rule recovery_is_tolerated [OF assms(1)])
  ultimately show ?thesis
    using guards q by (auto simp: rely_def on_auth_def on_shm_def)
qed

text \<open>A suspended worker on an installation with a corrupt ring, both switches off.\<close>

definition suspended_worker :: worker where
  "suspended_worker = \<lparr>wk_phase = Suspended 3, wk_guc = guc_default,
     wk_world = on_auth mark_corrupt (wk_world (ready_worker empty_database (consumer_new 0) [login_event]))\<rparr>"

definition switches_off :: guc where
  "switches_off = guc_default\<lparr>LOCKOUT_ENFORCEMENT := False, EXPIRY_ENFORCEMENT := False\<rparr>"

theorem recovery_resumes_the_worker_witness:
  "\<exists>a. recover_auth_event_queue zero_sip reader_ok reader_ok True False switches_off
        (sh_auth (wd_shm (wk_world suspended_worker))) = (a, Inr True)
     \<and> wk_phase (worker_step zero_sip ((plain_tick 5)\<lparr>tk_others := on_auth (\<lambda>_. a)\<rparr>) suspended_worker)
       = Hydrating HYDRATION_RETRY_MIN 0"
proof -
  let ?s = "sh_auth (wd_shm (wk_world suspended_worker))"
  have s: "as_journal ?s = \<lparr>jf_data_dir = True, jf_active = None, jf_processing = Some (records zero_sip [login_event])\<rparr>"
    "as_lock ?s" "\<exists>r. as_ring ?s = Some r \<and> ring_state r = Corrupt"
    by (simp_all add: suspended_worker_def on_auth_def on_shm_def ready_worker_def ready_shm_def mark_corrupt_def
        fresh_auth_def degrade_to_state)
  have "verify_file zero_sip reader_ok (Some (records zero_sip [login_event])) =
      (Some (records zero_sip [login_event]), Some (Inr ()))"
    using verify_file_records [of "[login_event]" "[]" zero_sip] login_event_valid by (simp add: RECORD_SIZE_def)
  then have "snd (verify_pending zero_sip reader_ok reader_ok (as_journal ?s)) = Some (Inr ())"
    by (simp add: verify_pending_def s(1) verify_file_def [of _ _ None])
  then obtain a where a: "recover_auth_event_queue zero_sip reader_ok reader_ok True False switches_off ?s = (a, Inr True)"
    using s(2,3) by (auto simp: recover_auth_event_queue_def recover_corrupt_ring_def switches_off_def
        lockout_enforcement_enabled_def case_prod_beta)
  have "wk_phase suspended_worker = Suspended 3" by (simp add: suspended_worker_def)
  from recovery_resumes_the_worker [OF a this, of "(plain_tick 5)\<lparr>tk_others := on_auth (\<lambda>_. a)\<rparr>"] a show ?thesis
    by (auto simp: plain_tick_def)
qed

section \<open>Statistics\<close>

lemma lock_cache_stats_state: "map_of (lock_cache_stats now c) ''lock_cache_state'' = Some (cache_state_raw (lock_state c))"
  by (cases c) (simp_all add: lock_cache_stats_def lock_state_def Let_def)

lemma worker_stats_rows:
  "map_of (worker_stats h) ''worker_running'' = Some 1 \<longleftrightarrow> is_running h"
  "map_of (worker_stats h) ''auth_event_durable_recording_degraded'' = Some 0 \<longleftrightarrow> h \<noteq> None \<and> durable_degraded_since h = None"
  by (cases h; simp add: worker_stats_def health_stats_def is_running_def durable_degraded_since_def)+

lemma expiry_cache_stats_state:
  "map_of (expiry_cache_stats c) ''expiry_cache_state'' = Some (expiry_state_raw (expiry_state c))"
  by (cases c) (simp_all add: expiry_cache_stats_def expiry_stats_def expiry_state_def Let_def)

lemma bypass_cache_stats_state:
  "map_of (bypass_cache_stats c) ''bypass_cache_state'' = Some (bypass_state_raw (bypass_state c))"
  by (cases c) (simp_all add: bypass_cache_stats_def bypass_stats_def bypass_state_def Let_def)

lemma auth_queue_stats_state:
  "map_of (auth_queue_stats a) ''auth_event_queue_state'' = Some (queue_state_raw (queue_state a))"
  by (cases "as_ring a") (simp_all add: auth_queue_stats_def queue_stats_def queue_state_def Let_def)

lemmas stats_states = lock_cache_stats_state worker_stats_rows expiry_cache_stats_state bypass_cache_stats_state
  auth_queue_stats_state

text \<open>The names each part of the statistics uses.\<close>

lemma stats_names:
  "fst ` set (lock_cache_stats now c) \<subseteq> {n. take 11 n = ''lock_cache_''}"
  "fst ` set (worker_stats h) \<subseteq> {n. take 7 n = ''worker_''} \<union> {''auth_event_durable_recording_degraded''}"
  "fst ` set (expiry_cache_stats x) \<subseteq> {n. take 7 n = ''expiry_''}"
  "fst ` set (auth_queue_stats a) \<subseteq> {n. take 11 n = ''auth_event_''} - {''auth_event_durable_recording_degraded''}"
  "fst ` set (bypass_cache_stats b) \<subseteq> {n. take 7 n = ''bypass_''}"
  "db_stat r name v = Inr rows \<Longrightarrow> fst ` set rows \<subseteq> {name}"
  by (auto simp: lock_cache_stats_def worker_stats_def expiry_cache_stats_def auth_queue_stats_def bypass_cache_stats_def
      db_stat_def Let_def split: option.splits spi_outcome.splits)

lemma map_of_other_name: "fst ` set xs \<subseteq> A \<Longrightarrow> n \<notin> A \<Longrightarrow> map_of xs n = None"
  by (auto simp: map_of_eq_None_iff)

lemma case_option_eta: "(case x of None \<Rightarrow> None | Some y \<Rightarrow> Some y) = x"
  by (cases x) simp_all

lemma pause_reason_none:
  "enforcement_pause_reason a = None \<longleftrightarrow>
    is_running (as_health a) \<and> queue_state a \<noteq> Corrupt \<and> durable_degraded_since (as_health a) = None"
  by (auto simp: enforcement_pause_reason_def auth_queue_corrupt_def)

lemma queue_state_raw_corrupt: "queue_state_raw q = 2 \<longleftrightarrow> q = Corrupt"
  by (cases q) simp_all

text \<open>
  The statistics show what the login hook reads. Whatever the counts from the database
  do, if the function returns rows, the row of each cache and of the queue carries the state the hook
  finds; the login hook finds enforcement active exactly when the rows say that the worker runs, the
  queue is not corrupt and durable recording is not degraded.
\<close>
theorem statistics_show_what_the_hook_reads:
  assumes "get_lock_cache_stats act now txn_now r1 r2 d s = Inr rows"
  shows "map_of rows ''library_preloaded'' = Some (if preloaded act then 1 else 0)
    \<and> map_of rows ''lock_cache_state'' = Some (cache_state_raw (lock_state (sh_lock s)))
    \<and> map_of rows ''expiry_cache_state'' = Some (expiry_state_raw (expiry_state (sh_expiry s)))
    \<and> map_of rows ''bypass_cache_state'' = Some (bypass_state_raw (bypass_state (sh_bypass s)))
    \<and> map_of rows ''auth_event_queue_state'' = Some (queue_state_raw (queue_state (sh_auth s)))
    \<and> (enforcement_pause_reason (sh_auth s) = None \<longleftrightarrow>
        map_of rows ''worker_running'' = Some 1
        \<and> map_of rows ''auth_event_queue_state'' \<noteq> Some (queue_state_raw Corrupt)
        \<and> map_of rows ''auth_event_durable_recording_degraded'' = Some 0)"
proof -
  obtain fl lk where db: "fst ` set fl \<subseteq> {''db_users_with_failures''}" "fst ` set lk \<subseteq> {''db_active_lockouts''}"
    and rows: "rows = (''library_preloaded'', if preloaded act then 1 else 0) #
      lock_cache_stats now (sh_lock s) @ worker_stats (as_health (sh_auth s)) @ fl @ lk
      @ expiry_cache_stats (sh_expiry s) @ auth_queue_stats (sh_auth s) @ bypass_cache_stats (sh_bypass s)"
    using assms stats_names(6) [of r1 "''db_users_with_failures''"] stats_names(6) [of r2 "''db_active_lockouts''"]
    by (force simp: get_lock_cache_stats_def collect_stats_def split: sum.splits)
  note none = map_of_other_name [OF stats_names(1)] map_of_other_name [OF stats_names(2)]
    map_of_other_name [OF stats_names(3)] map_of_other_name [OF stats_names(4)] map_of_other_name [OF stats_names(5)]
    map_of_other_name [OF db(1)] map_of_other_name [OF db(2)]
  have "is_running (as_health (sh_auth s)) \<Longrightarrow> as_health (sh_auth s) \<noteq> None"
    by (cases "as_health (sh_auth s)") (simp_all add: is_running_def)
  then show ?thesis
    unfolding rows pause_reason_none by (auto simp: map_add_def none stats_states queue_state_raw_corrupt case_option_eta cong: option.case_cong)
qed

theorem statistics_show_what_the_hook_reads_witness:
  "\<exists>rows. get_lock_cache_stats HooksRegistered 5 5 SpiReturnsOk SpiReturnsErr empty_database (ready_shm []) = Inr rows
     \<and> map_of rows ''worker_running'' = Some 1 \<and> map_of rows ''lock_cache_state'' = Some (cache_state_raw Ready)"
proof -
  obtain rows where r: "get_lock_cache_stats HooksRegistered 5 5 SpiReturnsOk SpiReturnsErr empty_database (ready_shm []) = Inr rows"
    by (simp add: get_lock_cache_stats_def collect_stats_def db_stat_def)
  have "enforcement_pause_reason (sh_auth (ready_shm [])) = None" "lock_state (sh_lock (ready_shm [])) = Ready"
    by (simp_all add: pause_reason_none ready_shm_def fresh_auth_def queue_state_def ring_new_def mark_running_def
        health_new_def is_running_def durable_degraded_since_def lock_state_def lock_set_state_def lock_cache_new_def
        cache_state_from_raw_def)
  with statistics_show_what_the_hook_reads [OF r] r show ?thesis by auto
qed

text \<open>What the counts of the lock cache satisfy: they add up and stay within its capacity.\<close>

lemma lock_cache_counts:
  fixes now :: timestamp
  assumes "lock_inv cache"
  defines "v \<equiv> \<lambda>n. the (map_of (lock_cache_stats now (Some cache)) n)"
  shows "v ''lock_cache_used_slots'' + v ''lock_cache_free_slots'' = int LOCK_CACHE_SIZE"
    and "0 \<le> v ''lock_cache_active_lockouts''" and "v ''lock_cache_active_lockouts'' \<le> v ''lock_cache_used_slots''"
    and "0 \<le> v ''lock_cache_free_slots''"
    and "0 \<le> v ''lock_cache_utilization_pct''" and "v ''lock_cache_utilization_pct'' \<le> 100"
proof -
  let ?active = "filter (\<lambda>e. slot_used (lk_username e) \<and> now < lk_expires_at e) (lc_entries cache)"
  let ?used = "filter (\<lambda>e. slot_used (lk_username e)) (lc_entries cache)"
  have "?active = filter (\<lambda>e. now < lk_expires_at e) ?used" by (simp add: conj_commute)
  then have a: "length ?active \<le> length ?used" by (metis length_filter_le)
  have u: "length ?used \<le> LOCK_CACHE_SIZE" using assms(1) by (metis length_filter_le lock_inv_def)
  show "v ''lock_cache_used_slots'' + v ''lock_cache_free_slots'' = int LOCK_CACHE_SIZE"
    "0 \<le> v ''lock_cache_active_lockouts''" "v ''lock_cache_active_lockouts'' \<le> v ''lock_cache_used_slots''"
    "0 \<le> v ''lock_cache_free_slots''" "0 \<le> v ''lock_cache_utilization_pct''" "v ''lock_cache_utilization_pct'' \<le> 100"
    using a u by (simp_all add: v_def lock_cache_stats_def Let_def LOCK_CACHE_SIZE_def)
qed

text \<open>
  The reported days: the number of whole days left, and zero both on the last day and on the day after
  the expiry.
\<close>

lemma whole_days_zero_iff: "whole_days micros = 0 \<longleftrightarrow> \<bar>round_seconds \<bar>micros\<bar>\<bar> < 86400"
  by (auto simp: whole_days_def round_seconds_def MICROS_PER_SEC_def)

end
