(* ===== verification/System.thy ===== *)
theory System
  imports Shared_Invariant Administration
begin

text \<open>
  The whole extension as one transition system: logins, iterations of the worker, transactions of other
  backends, the recovery function, damage to the journal files and restarts of the server, in any
  order. Two interpretations of \<open>shm_invariant\<close>: shared memory stays well-formed in every reachable
  state (the fixed-size arrays keep their sizes, the indices of the ring stay inside it, and every state
  word names a state), and a corrupt event queue stays corrupt until it is recovered.
\<close>

section \<open>Well-formed shared memory\<close>

definition ring_wf :: "AuthEventRing \<Rightarrow> bool" where
  "ring_wf r \<longleftrightarrow> ring_inv r \<and> rg_state r \<in> {0, 1, 2}"

definition lock_wf :: "LockCache \<Rightarrow> bool" where
  "lock_wf c \<longleftrightarrow> length (lc_entries c) = LOCK_CACHE_SIZE \<and> lc_state c \<in> {0, 1, 2, 3}"

definition expiry_wf :: "ExpiryCache \<Rightarrow> bool" where
  "expiry_wf c \<longleftrightarrow> length (xc_entries c) = EXPIRY_CACHE_SIZE \<and> xc_state c \<in> {0, 1, 2, 3}
     \<and> (\<forall>e \<in> set (xc_entries c). 0 \<le> ex_grace_remaining e)"

definition bypass_wf :: "BypassCache \<Rightarrow> bool" where
  "bypass_wf c \<longleftrightarrow> length (bc_entries c) = BYPASS_CACHE_SIZE \<and> bc_state c \<in> {0, 1, 2, 3}"

text \<open>A segment that is attached is well-formed.\<close>

definition auth_wf :: "auth_shm \<Rightarrow> bool" where
  "auth_wf a \<longleftrightarrow> pred_option ring_wf (as_ring a)"

definition shm_wf :: "shm \<Rightarrow> bool" where
  "shm_wf s \<longleftrightarrow> auth_wf (sh_auth s) \<and> pred_option lock_wf (sh_lock s) \<and> pred_option expiry_wf (sh_expiry s)
     \<and> pred_option bypass_wf (sh_bypass s)"

definition world_wf :: "world \<Rightarrow> bool" where
  "world_wf = idle_with shm_wf"

lemma auth_wf_parts [simp]:
  "auth_wf (a\<lparr>as_health := h\<rparr>) = auth_wf a" "auth_wf (a\<lparr>as_journal := fs\<rparr>) = auth_wf a"
  "auth_wf (a\<lparr>as_ring := Some r\<rparr>) = ring_wf r" "auth_wf (a\<lparr>as_lock := b\<rparr>) = auth_wf a"
  by (simp_all add: auth_wf_def)

section \<open>The ring\<close>

lemma counters_wf [simp]:
  "ring_wf (r\<lparr>rg_rejected := a\<rparr>) = ring_wf r" "ring_wf (r\<lparr>rg_durable_only := a\<rparr>) = ring_wf r"
  "ring_wf (r\<lparr>rg_journaled := a\<rparr>) = ring_wf r" "ring_wf (r\<lparr>rg_journal_failures := a\<rparr>) = ring_wf r"
  by (simp_all add: ring_wf_def)

lemma ring_new_wf: "ring_wf ring_new"
  using ring_new_inv by (simp add: ring_wf_def) (simp add: ring_new_def)

lemma degrade_to_wf: "ring_wf r \<Longrightarrow> ring_wf (degrade_to q r)"
  using degrade_to_inv [of r q] by (cases q) (auto simp: ring_wf_def degrade_to_def)

lemma should_warn_now_wf: "ring_wf r \<Longrightarrow> ring_wf (fst (should_warn_now h now r))"
  using should_warn_now_inv [of r h now] by (auto simp: ring_wf_def should_warn_now_def)

lemma try_enqueue_wf: "ring_wf r \<Longrightarrow> ring_wf (fst (try_enqueue i u ts k f g r))"
proof -
  assume r: "ring_wf r"
  have "rg_state (fst (try_enqueue i u ts k f g r)) \<in> {0, 1, 2}"
    using r by (simp add: try_enqueue_def Let_def degrade_to_def should_warn_now_def ring_wf_def case_prod_beta)
  then show ?thesis using r try_enqueue_inv [of r i u ts k f g] by (simp add: ring_wf_def)
qed

lemma ack_wf: "ring_wf r \<Longrightarrow> ring_wf (fst (ack t r))"
proof -
  assume r: "ring_wf r"
  have "rg_state (fst (ack t r)) \<in> {0, 1, 2}"
    using r by (simp add: ack_def Let_def degrade_to_def ring_wf_def)
  then show ?thesis using r ack_inv [of r t] by (simp add: ring_wf_def)
qed

lemma enqueue_silent_wf: "auth_wf a \<Longrightarrow> auth_wf (fst (enqueue_encoded_silent sip env u k fl g a))"
proof -
  assume a: "auth_wf a"
  have "auth_wf (fst (enqueue_encoded_with_id_silent sip env u k fl g i a))" for i
    using a
    by (auto simp: enqueue_encoded_with_id_silent_def Let_def case_prod_beta auth_wf_def
        intro!: should_warn_now_wf try_enqueue_wf split: option.split sum.split)
  then show ?thesis using a by (simp add: enqueue_encoded_silent_def split: option.split)
qed

lemma ack_claim_wf: "auth_wf a \<Longrightarrow> auth_wf (fst (ack_claim t a))"
  by (auto simp: ack_claim_def auth_wf_def Let_def case_prod_beta intro!: ack_wf degrade_to_wf split: option.split)

lemma mark_corrupt_wf: "auth_wf a \<Longrightarrow> auth_wf (mark_corrupt a)"
  by (auto simp: mark_corrupt_def auth_wf_def intro!: degrade_to_wf split: option.split)

lemma recover_wf: "auth_wf a \<Longrightarrow> auth_wf (fst (recover_corrupt_ring sip io1 io2 a))"
  by (auto simp: recover_corrupt_ring_def auth_wf_def intro: ring_new_wf split: option.split sum.split prod.split)

lemma recover_queue_wf: "auth_wf a \<Longrightarrow> auth_wf (fst (recover_auth_event_queue sip io1 io2 su rc g a))"
  using recover_wf [of a sip io1 io2]
  by (auto simp: recover_auth_event_queue_def split: prod.split sum.split JournalError.split dest: arg_cong [where f = fst])

lemma claim_wf: "auth_wf a \<Longrightarrow> fst (matching_claim i a) = a"
  using matching_claim_same [of a i] by (cases "as_ring a") (auto simp: auth_wf_def ring_wf_def auth_inv_def)

section \<open>The caches\<close>

lemma fill_slots_length [simp]: "length (fst (fill_slots n skip mk ps slot es)) = length es"
  by (induction n skip mk ps slot es rule: fill_slots.induct) simp_all

lemma fill_slots_set: "set (fst (fill_slots n skip mk ps slot es)) \<subseteq> set es \<union> mk ` set ps"
proof (induction n skip mk ps slot es rule: fill_slots.induct)
  case (2 n skip mk p ps slot es)
  then show ?case using set_update_subset_insert [of es slot "mk p"] by auto
qed simp

lemma state_words [simp]:
  "cache_state_raw st \<in> {0, 1, 2, 3}" "expiry_state_raw xt \<in> {0, 1, 2, 3}" "bypass_state_raw bt \<in> {0, 1, 2, 3}"
  by (cases st, simp_all) (cases xt, simp_all, cases bt, simp_all)

lemma new_caches_wf: "lock_wf lock_cache_new" "expiry_wf expiry_cache_new" "bypass_wf bypass_cache_new"
  by (simp_all add: lock_wf_def lock_cache_new_def expiry_wf_def expiry_cache_new_def ExpiryEntry_EMPTY_def bypass_wf_def
      bypass_cache_new_def)

lemma set_state_wf:
  "pred_option lock_wf c \<Longrightarrow> pred_option lock_wf (lock_set_state st c)"
  "pred_option expiry_wf e \<Longrightarrow> pred_option expiry_wf (expiry_set_state xt e)"
  "pred_option bypass_wf b \<Longrightarrow> pred_option bypass_wf (bypass_set_state bt b)"
  using state_words(1) [of st] state_words(2) [of xt] state_words(3) [of bt]
  by (cases c, simp_all add: lock_set_state_def lock_wf_def)
    (cases e, simp_all add: expiry_set_state_def expiry_wf_def, cases b, simp_all add: bypass_set_state_def bypass_wf_def)

lemma lock_ops_wf:
  assumes "pred_option lock_wf c"
  shows "pred_option lock_wf (fst (lock_set now u x c))" and "pred_option lock_wf (fst (lock_clear u c))"
  using assms by (auto simp: lock_set_def lock_clear_def lock_wf_def dest!: update_first_length split: option.split)

lemma expiry_ops_wf:
  assumes "pred_option expiry_wf c"
  shows "pred_option expiry_wf (fst (set_entry u must gen grace c))" and "pred_option expiry_wf (fst (clear_entry u c))"
  using assms
  by (auto simp: set_entry_def clear_entry_def expiry_wf_def ExpiryEntry_EMPTY_def split: option.split
      dest: update_first_length update_first_set)

lemma grace_decrement:
  assumes "expiry_wf c" and "List.find p (xc_entries c) = Some e" and "0 < ex_grace_remaining e"
    and "update_first p (\<lambda>e. e\<lparr>ex_grace_remaining := ex_grace_remaining e - 1\<rparr>) (xc_entries c) = Some es" and "y \<in> set es"
  shows "0 \<le> ex_grace_remaining y"
proof -
  obtain as x bs where x: "xc_entries c = as @ x # bs" "es = as @ x\<lparr>ex_grace_remaining := ex_grace_remaining x - 1\<rparr> # bs"
    "p x" "\<forall>a \<in> set as. \<not> p a"
    using update_first_split [OF assms(4)] by metis
  have "List.find p (as @ x # bs) = Some x" using x(3,4) by (induction as) auto
  then have "x = e" using assms(2) x(1) by simp
  then show ?thesis using assms(1,3,5) x(1,2) by (auto simp: expiry_wf_def)
qed

lemma try_consume_grace_wf:
  assumes "pred_option expiry_wf x"
  shows "pred_option expiry_wf (fst (fst (try_consume_grace sip env u now fl (x, a))))"
proof -
  have dec: "expiry_wf (c\<lparr>xc_entries := es\<rparr>)"
    if "expiry_wf c" "List.find p (xc_entries c) = Some e" "0 < ex_grace_remaining e"
      "update_first p (\<lambda>e. e\<lparr>ex_grace_remaining := ex_grace_remaining e - 1\<rparr>) (xc_entries c) = Some es" for c p e es
    using that grace_decrement [OF that] by (auto simp: expiry_wf_def dest: update_first_length)
  show ?thesis
    using assms
    by (auto simp: try_consume_grace_def Let_def case_prod_beta classify_def dest: dec split: option.split)
qed

lemma passes_wf:
  "pred_option lock_wf c \<Longrightarrow> pred_option lock_wf (fst (hydrate_from_db env col ins d c))"
  "pred_option expiry_wf e \<Longrightarrow> pred_option expiry_wf (fst (hydrate_expiry_from_db env col ins d e))"
  "pred_option bypass_wf b \<Longrightarrow> pred_option bypass_wf (fst (refresh_bypass_cache env st b))"
proof -
  have prep: "0 \<le> ex_grace_remaining y"
    if "y \<in> set (fst (fill_slots n skip id (map (\<lambda>(u, must, gen, grace). expiry_prepared_entry u must gen grace) rows) 0
         (map (\<lambda>_. ExpiryEntry_EMPTY) es)))" for y n skip rows es
    using that fill_slots_set by (fastforce simp: expiry_prepared_entry_def ExpiryEntry_EMPTY_def)
  show "pred_option lock_wf c \<Longrightarrow> pred_option lock_wf (fst (hydrate_from_db env col ins d c))"
    by (auto simp: hydrate_from_db_def apply_hydrated_entries_def Let_def case_prod_beta lock_wf_def split: option.split)
  show "pred_option expiry_wf e \<Longrightarrow> pred_option expiry_wf (fst (hydrate_expiry_from_db env col ins d e))"
    by (auto simp: hydrate_expiry_from_db_def expiry_apply_hydrated_def Let_def case_prod_beta expiry_wf_def dest: prep
        split: option.split)
  show "pred_option bypass_wf b \<Longrightarrow> pred_option bypass_wf (fst (refresh_bypass_cache env st b))"
    by (auto simp: refresh_bypass_cache_def apply_refreshed_def Let_def case_prod_beta bypass_wf_def split: option.split)
qed

interpretation wellformed: shm_invariant auth_wf "pred_option lock_wf" "pred_option expiry_wf" "pred_option bypass_wf"
  by unfold_locales
    (simp_all add: enqueue_silent_wf claim_wf ack_claim_wf mark_corrupt_wf lock_ops_wf expiry_ops_wf try_consume_grace_wf
      set_state_wf passes_wf)

lemma shm_wf_invariant: "wellformed.shm_inv = shm_wf"
  by (simp add: fun_eq_iff wellformed.shm_inv_def shm_wf_def)

lemmas action_wf = wellformed.action_kept [unfolded shm_wf_invariant, folded world_wf_def]
  and on_auth_wf = wellformed.on_auth_kept [unfolded shm_wf_invariant, folded world_wf_def]

section \<open>Reachable states\<close>

text \<open>A restart starts from any tables and any journal.\<close>

inductive system :: "siphash \<Rightarrow> worker \<Rightarrow> bool" for sip where
  sys_boot: "system sip (server_restart g wk)"
| sys_act: "system sip wk \<Longrightarrow> sys_action sip shm_wf wk wk1 \<Longrightarrow> system sip wk1"
| sys_recover: "system sip wk
    \<Longrightarrow> system sip (wk\<lparr>wk_world := on_auth (\<lambda>a. fst (recover_auth_event_queue sip io1 io2 su rc g a)) (wk_world wk)\<rparr>)"

lemma server_restart_wf: "world_wf (wk_world (server_restart g wk))"
  using new_caches_wf ring_new_wf by (simp add: server_restart_def world_wf_def idle_with_def shm_wf_def auth_wf_def)

text \<open>
  Property C2: shared memory is well-formed in every reachable state. Whatever logins, worker
  iterations (with every error, retry, suspension and exit), transactions of other backends, recoveries,
  damage to the journal files and restarts happen, in any order: the ring has its fixed number of slots,
  head and tail inside it, and live entries whose sequence numbers are consecutive; the three caches
  have their fixed sizes and no negative number of grace logins; every state word names a state; and
  between two of its iterations the worker has nothing staged.
\<close>

theorem shared_memory_well_formed:
  assumes "system sip wk"
  shows "world_wf (wk_world wk)"
  using assms
proof (induction rule: system.induct)
  case (sys_boot g wk)
  then show ?case by (rule server_restart_wf)
next
  case (sys_act wk wk1)
  then show ?case using action_wf by blast
next
  case (sys_recover wk io1 io2 su rc g)
  then show ?case by (auto intro!: on_auth_wf recover_queue_wf)
qed

theorem shared_memory_well_formed_witness:
  "world_wf (wk_world (sys_step zero_sip (LoginAttempt sample_login)
     (sys_step zero_sip (WorkerTick (plain_tick 5)) (server_restart guc_default starting_worker))))"
proof -
  have t: "tk_others (plain_tick 5) = id" "tk_during (plain_tick 5) = id" by (simp_all add: plain_tick_def)
  let ?wk = "server_restart guc_default starting_worker"
  let ?wk1 = "sys_step zero_sip (WorkerTick (plain_tick 5)) ?wk"
  have "sys_action zero_sip shm_wf ?wk ?wk1" by (rule act_tick) (simp_all add: t)
  moreover have "sys_action zero_sip shm_wf ?wk1 (sys_step zero_sip (LoginAttempt sample_login) ?wk1)"
    by (rule act_login) (simp add: harmless_def)
  ultimately have "system zero_sip (sys_step zero_sip (LoginAttempt sample_login) ?wk1)" by (blast intro: sys_boot sys_act)
  then show ?thesis by (rule shared_memory_well_formed)
qed

section \<open>A corrupt event queue\<close>

definition queue_corrupt :: "shm \<Rightarrow> bool" where
  "queue_corrupt s \<longleftrightarrow> queue_state (sh_auth s) = Corrupt"

lemma ring_stays_corrupt:
  assumes "ring_state r = Corrupt"
  shows "ring_state (fst (try_enqueue i u ts k f g r)) = Corrupt" "ring_state (fst (claim r)) = Corrupt"
    "ring_state (fst (ack t r)) = Corrupt" "ring_state (degrade_to q r) = Corrupt"
  using queue_severity(1) [of r i u ts k f g] queue_severity(2) [of r] queue_severity(3) [of r t] assms
  by (simp_all add: degrade_to_max max_def)

lemma queue_stays_corrupt:
  assumes "queue_state a = Corrupt"
  shows "queue_state (fst (enqueue_encoded_silent sip env u k fl g a)) = Corrupt" "queue_state (fst (matching_claim i a)) = Corrupt"
    "queue_state (fst (ack_claim t a)) = Corrupt" "queue_state (mark_corrupt a) = Corrupt"
  using assms ring_stays_corrupt
  by (auto simp: queue_state_def ring_state_def [symmetric] enqueue_encoded_silent_def enqueue_encoded_with_id_silent_def
      matching_claim_def claim_event_def ack_claim_def mark_corrupt_def Let_def case_prod_beta split: option.splits sum.splits if_splits)

lemma queue_state_parts: "queue_state (a\<lparr>as_health := h\<rparr>) = queue_state a" "queue_state (a\<lparr>as_journal := fs\<rparr>) = queue_state a"
  by (simp_all add: queue_state_def split: option.split)

interpretation corrupt: shm_invariant "\<lambda>a. queue_state a = Corrupt" "\<lambda>_. True" "\<lambda>_. True" "\<lambda>_. True"
  by unfold_locales (simp_all add: queue_stays_corrupt queue_state_parts)

lemma queue_corrupt_invariant: "corrupt.shm_inv = queue_corrupt"
  by (simp add: fun_eq_iff corrupt.shm_inv_def queue_corrupt_def)

lemmas actions_corrupt = corrupt.actions_kept [unfolded queue_corrupt_invariant]

text \<open>An iteration of the worker while the queue is corrupt.\<close>

lemma worker_waits_while_corrupt:
  assumes "queue_corrupt (wd_shm (tk_others t (wk_world wk)))" and "\<And>w. same_core w (tk_during t w)"
  shows "same_core (tk_others t (wk_world wk)) (wk_world (worker_step sip t wk))"
proof -
  let ?w = "tk_others t (wk_world wk)"
  have gate: "consume_gates t g cs ?w = Some (QueueUnhealthy Corrupt)" for g cs
    using assms(1) by (simp add: consume_gates_def queue_corrupt_def Let_def)
  have hyd: "same_core ?w w1" if h: "hydrate_attempt t g d f ?w = (g1, w1, fl)" for g d f g1 w1 fl
    using hydrate_attempt_core [OF h] assms(2) same_core_refl same_core_trans by metis
  show ?thesis
  proof (cases "wk_phase wk")
    case (Hydrating d f)
    obtain g1 w1 fl where h: "hydrate_attempt t (wk_guc wk) d f ?w = (g1, w1, fl)" by (metis prod_cases3)
    then show ?thesis using Hydrating hyd [OF h] same_core_trans worker_exit_core
      by (auto simp: worker_step_def exit_with_def split: hydration_flow.split)
  next
    case (Consuming cs)
    then show ?thesis using worker_exit_core by (simp add: worker_step_def exit_with_def Let_def consume_iteration_def gate)
  qed (use worker_exit_core in \<open>auto simp: worker_step_def exit_with_def Let_def split: prod.split sum.split bool.split\<close>)
qed

text \<open>
  Property C3: a corrupt event queue stays corrupt until an administrator recovers it or the server
  restarts, whatever logins, worker iterations, transactions and damage to the journal happen, and all
  that time the extension stands aside: every login ends as PostgreSQL and the previous hook decided it,
  and an iteration of the worker applies no event, writes no receipt and leaves the journal as it is.
\<close>

theorem corrupt_queue_waits_for_recovery:
  assumes "idle_with queue_corrupt (wk_world wk)" and "(sys_action sip queue_corrupt)\<^sup>*\<^sup>* wk wk1"
  shows "idle_with queue_corrupt (wk_world wk1)
    \<and> (\<forall>env. harmless queue_corrupt env \<longrightarrow> fst (snd (client_auth_hook env (wd_shm (wk_world wk1))))
         = (if snd (he_prev env (wd_shm (wk_world wk1))) then native env else RejectedByPrevious))
    \<and> (\<forall>t. queue_corrupt (wd_shm (tk_others t (wk_world wk1))) \<longrightarrow> (\<forall>w. same_core w (tk_during t w))
         \<longrightarrow> same_core (tk_others t (wk_world wk1)) (wk_world (worker_step sip t wk1)))"
proof -
  have c: "idle_with queue_corrupt (wk_world wk1)" using actions_corrupt [OF assms(2,1)] .
  have "fst (snd (client_auth_hook env (wd_shm (wk_world wk1))))
      = (if snd (he_prev env (wd_shm (wk_world wk1))) then native env else RejectedByPrevious)"
    if e: "harmless queue_corrupt env" for env
  proof -
    obtain s' out logs where h: "client_auth_hook env (wd_shm (wk_world wk1)) = (s', out, logs)" by (metis prod_cases3)
    have "queue_corrupt (at_health env (wd_shm (wk_world wk1)))"
      using c e by (simp add: idle_with_def harmless_def at_health_def)
    then have "enforcement_pause_reason (sh_auth (at_health env (wd_shm (wk_world wk1)))) \<noteq> None"
      by (simp add: enforcement_pause_reason_def auth_queue_corrupt_def queue_corrupt_def)
    with paused_login [OF h] h show ?thesis by simp
  qed
  then show ?thesis using c worker_waits_while_corrupt by blast
qed

definition corrupted_worker :: worker where
  "corrupted_worker = (let wk = server_restart guc_default starting_worker in wk\<lparr>wk_world := on_auth mark_corrupt (wk_world wk)\<rparr>)"

theorem corrupt_queue_waits_for_recovery_witness:
  "queue_corrupt (wd_shm (wk_world (sys_step zero_sip (WorkerTick (plain_tick 5)) corrupted_worker)))
   \<and> fst (snd (client_auth_hook sample_login (wd_shm (wk_world (sys_step zero_sip (WorkerTick (plain_tick 5)) corrupted_worker))))) = Admitted"
proof -
  let ?wk1 = "sys_step zero_sip (WorkerTick (plain_tick 5)) corrupted_worker"
  have t: "tk_others (plain_tick 5) = id" "tk_during (plain_tick 5) = id" by (simp_all add: plain_tick_def)
  have "sys_action zero_sip queue_corrupt corrupted_worker ?wk1" by (rule act_tick) (simp_all add: t)
  then have a: "(sys_action zero_sip queue_corrupt)\<^sup>*\<^sup>* corrupted_worker ?wk1" by blast
  have "idle_with queue_corrupt (wk_world corrupted_worker)"
    by (simp add: corrupted_worker_def server_restart_def Let_def on_auth_def on_shm_def idle_with_def queue_corrupt_def
        mark_corrupt_def queue_state_def ring_state_def [symmetric] degrade_to_max max_def)
  from corrupt_queue_waits_for_recovery [OF this a]
  have "idle_with queue_corrupt (wk_world ?wk1)"
    "harmless queue_corrupt sample_login \<Longrightarrow> fst (snd (client_auth_hook sample_login (wd_shm (wk_world ?wk1))))
       = (if snd (he_prev sample_login (wd_shm (wk_world ?wk1))) then native sample_login else RejectedByPrevious)" by blast+
  then show ?thesis by (simp add: idle_with_def harmless_def native_def)
qed

end
