(* ===== verification/Installation.thy ===== *)
theory Installation
  imports Administration
begin

text \<open>
  \<^verbatim>\<open>CREATE EXTENSION password_profile\<close>: the bootstrap script with the preload check, the schema script, the
  functions \<^verbatim>\<open>pgrx\<close> generates for the \<^verbatim>\<open>#[pg_extern]\<close> items, and the revocations of \<^verbatim>\<open>lib.rs\<close> that run last.
  A catalog is the objects it holds and those on which \<^verbatim>\<open>PUBLIC\<close> has privileges; the privileges a new
  object starts with are a parameter, since an administrator can change them
  (\<^verbatim>\<open>ALTER DEFAULT PRIVILEGES\<close>). Functions are identified by name and argument types.
\<close>

datatype db_object = Func string "string list" | Schema string | Table string | Sequence string

record acl_catalog =
  ac_objects :: "db_object list"
  ac_public :: "db_object list"

datatype install_statement = Create db_object | RevokeAll db_object | RequirePreload | CheckSchemaOwner

datatype install_error = AlreadyExists db_object | DoesNotExist db_object | PreloadRequired | SchemaOwnerMismatch

record install_env =
  in_binary_upgrade :: bool
  in_activation :: activation
  in_schema_owned :: bool
  in_default_public :: "db_object \<Rightarrow> bool"

definition run_statement :: "install_env \<Rightarrow> install_statement \<Rightarrow> acl_catalog \<Rightarrow> install_error + acl_catalog" where
  "run_statement env st c =
     (case st of
        Create x \<Rightarrow>
          if x \<in> set (ac_objects c) then Inl (AlreadyExists x)
          else Inr (c\<lparr>ac_objects := x # ac_objects c,
            ac_public := (if in_default_public env x then x # ac_public c else ac_public c)\<rparr>)
      | RevokeAll x \<Rightarrow>
          if x \<notin> set (ac_objects c) then Inl (DoesNotExist x)
          else Inr (c\<lparr>ac_public := removeAll x (ac_public c)\<rparr>)
      | RequirePreload \<Rightarrow>
          (case password_profile_require_preload (in_binary_upgrade env) (in_activation env) of
             Inl _ \<Rightarrow> Inl PreloadRequired | Inr _ \<Rightarrow> Inr c)
      | CheckSchemaOwner \<Rightarrow> if in_schema_owned env then Inr c else Inl SchemaOwnerMismatch)"

fun run_script :: "install_env \<Rightarrow> install_statement list \<Rightarrow> acl_catalog \<Rightarrow> install_error + acl_catalog" where
  "run_script env [] c = Inr c"
| "run_script env (st # sts) c = (case run_statement env st c of Inl e \<Rightarrow> Inl e | Inr c1 \<Rightarrow> run_script env sts c1)"

definition require_preload_function :: db_object where
  "require_preload_function = Func ''password_profile_require_preload'' []"

definition preload_required_sql :: "install_statement list" where
  "preload_required_sql = [Create require_preload_function, RevokeAll require_preload_function, RequirePreload]"

text \<open>The serial column of \<^verbatim>\<open>password_history\<close> creates its sequence.\<close>

definition schema_objects :: "db_object list" where
  "schema_objects = [Table ''login_attempts'', Sequence ''password_history_id_seq'', Table ''password_history'',
     Table ''password_expiry'', Table ''blacklist'', Table ''auth_event_receipts'']"

definition schema_sql :: "install_statement list" where
  "schema_sql = CheckSchemaOwner # map Create schema_objects"

definition pg_extern_functions :: "db_object list" where
  "pg_extern_functions =
     [Func ''check_password'' [''text'', ''text''], Func ''init_login_attempts_table'' [], Func ''recover_auth_event_queue'' [],
      Func ''record_failed_login'' [''text''], Func ''clear_login_attempts'' [''text''],
      Func ''rename_role_state'' [''text'', ''text''], Func ''remove_role_state'' [''text''], Func ''is_user_locked'' [''text''],
      Func ''check_user_access'' [''text''], Func ''record_password_change'' [''text'', ''text''],
      Func ''check_password_expiry'' [''text''], Func ''add_to_blacklist'' [''text'', ''text''],
      Func ''remove_from_blacklist'' [''text''], Func ''load_blacklist_from_file'' [''text''],
      Func ''get_password_stats'' [''text''], Func ''password_profile_status'' [], Func ''get_lock_cache_stats'' []]"

definition password_profile_privileges :: "db_object list" where
  "password_profile_privileges =
     [Func ''add_to_blacklist'' [''text'', ''text''],
      Func ''check_password'' [''text'', ''text''],
      Func ''check_password_expiry'' [''text''],
      Func ''check_user_access'' [''text''],
      Func ''clear_login_attempts'' [''text''],
      Func ''get_lock_cache_stats'' [],
      Func ''get_password_stats'' [''text''],
      Func ''password_profile_status'' [],
      Func ''init_login_attempts_table'' [],
      Func ''is_user_locked'' [''text''],
      Func ''load_blacklist_from_file'' [''text''],
      Func ''record_failed_login'' [''text''],
      Func ''record_password_change'' [''text'', ''text''],
      Func ''rename_role_state'' [''text'', ''text''],
      Func ''remove_role_state'' [''text''],
      Func ''remove_from_blacklist'' [''text''],
      Func ''recover_auth_event_queue'' [],
      Schema ''password_profile'',
      Table ''login_attempts'', Table ''password_history'', Table ''password_expiry'', Table ''blacklist'',
      Table ''auth_event_receipts'',
      Sequence ''password_history_id_seq'']"

text \<open>PostgreSQL runs the script in one transaction: an error leaves the catalog as it was.\<close>

definition create_extension :: "install_env \<Rightarrow> acl_catalog \<Rightarrow> acl_catalog \<times> install_error option" where
  "create_extension env c =
     (case run_script env (preload_required_sql @ schema_sql @ map Create pg_extern_functions
             @ map RevokeAll password_profile_privileges) c of
        Inl e \<Rightarrow> (c, Some e) | Inr c1 \<Rightarrow> (c1, None))"

text \<open>The objects of the extension; the schema exists before the scripts run.\<close>

definition created_objects :: "db_object list" where
  "created_objects = require_preload_function # schema_objects @ pg_extern_functions"

definition installable :: "acl_catalog \<Rightarrow> bool" where
  "installable c \<longleftrightarrow> Schema ''password_profile'' \<in> set (ac_objects c) \<and> list_all (\<lambda>x. x \<notin> set (ac_objects c)) created_objects"

section \<open>Lemmas\<close>

lemma run_script_append:
  "run_script env (xs @ ys) c = (case run_script env xs c of Inl e \<Rightarrow> Inl e | Inr c1 \<Rightarrow> run_script env ys c1)"
  by (induction xs arbitrary: c) (simp_all split: sum.split)

lemma run_creates:
  assumes "distinct xs" and "set xs \<inter> set (ac_objects c) = {}"
  obtains c1 where "run_script env (map Create xs) c = Inr c1"
    "set (ac_objects c1) = set xs \<union> set (ac_objects c)" "set (ac_public c1) - set xs = set (ac_public c) - set xs"
  using assms
proof (induction xs arbitrary: c thesis)
  case (Cons x xs)
  define c0 where "c0 = c\<lparr>ac_objects := x # ac_objects c,
    ac_public := (if in_default_public env x then x # ac_public c else ac_public c)\<rparr>"
  have r: "run_statement env (Create x) c = Inr c0" using Cons.prems(3) by (simp add: run_statement_def c0_def)
  obtain c1 where c1: "run_script env (map Create xs) c0 = Inr c1" "set (ac_objects c1) = set xs \<union> set (ac_objects c0)"
    "set (ac_public c1) - set xs = set (ac_public c0) - set xs"
    using Cons.IH [of c0] Cons.prems(2,3) by (auto simp: c0_def)
  have "set (ac_public c1) - set (x # xs) = set (ac_public c) - set (x # xs)" using c1(3) by (auto simp: c0_def split: if_splits)
  then show ?case using Cons.prems(1) [of c1] c1(1,2) r by (simp add: c0_def)
qed simp

lemma run_revokes:
  assumes "set xs \<subseteq> set (ac_objects c)"
  obtains c1 where "run_script env (map RevokeAll xs) c = Inr c1" "ac_objects c1 = ac_objects c"
    "set (ac_public c1) = set (ac_public c) - set xs"
  using assms
proof (induction xs arbitrary: c thesis)
  case (Cons x xs)
  define c0 where "c0 = c\<lparr>ac_public := removeAll x (ac_public c)\<rparr>"
  have r: "run_statement env (RevokeAll x) c = Inr c0" using Cons.prems(2) by (simp add: run_statement_def c0_def)
  obtain c1 where "run_script env (map RevokeAll xs) c0 = Inr c1" "ac_objects c1 = ac_objects c0"
    "set (ac_public c1) = set (ac_public c0) - set xs"
    using Cons.IH [of c0] Cons.prems(2) by (auto simp: c0_def)
  then show ?case using Cons.prems(1) [of c1] r by (auto simp: c0_def)
qed simp

lemmas install_objects = created_objects_def require_preload_function_def schema_objects_def pg_extern_functions_def
  password_profile_privileges_def

lemma created_distinct: "distinct created_objects"
  by (simp add: install_objects)

text \<open>The revocations name every object that is created after the bootstrap script, and the schema, and nothing else.\<close>

lemma privileges_complete:
  "set password_profile_privileges = insert (Schema ''password_profile'') (set schema_objects \<union> set pg_extern_functions)"
  by (auto simp: install_objects)

text \<open>
  Property C33: installing the extension leaves no function, table, sequence or schema of it to
  \<^verbatim>\<open>PUBLIC\<close>, whatever privileges new objects start with, and touches the privileges of no other object. The
  installation succeeds exactly when the library is preloaded (or the server is being upgraded) and the
  schema belongs to the installer; otherwise it changes nothing.
\<close>

theorem install_grants_nothing_to_public:
  assumes "installable c"
  shows "case create_extension env c of
      (c1, None) \<Rightarrow> (in_binary_upgrade env \<or> preloaded (in_activation env)) \<and> in_schema_owned env
        \<and> set (ac_objects c1) = set created_objects \<union> set (ac_objects c)
        \<and> set (ac_public c1) = set (ac_public c) - insert (Schema ''password_profile'') (set created_objects)
    | (c1, Some e) \<Rightarrow> c1 = c
        \<and> (if in_binary_upgrade env \<or> preloaded (in_activation env)
            then \<not> in_schema_owned env \<and> e = SchemaOwnerMismatch else e = PreloadRequired)"
proof -
  let ?r = require_preload_function
  let ?loaded = "in_binary_upgrade env \<or> preloaded (in_activation env)"
  have fresh: "set created_objects \<inter> set (ac_objects c) = {}" and schema: "Schema ''password_profile'' \<in> set (ac_objects c)"
    using assms by (auto simp: installable_def list_all_iff)
  define c0 where "c0 = c\<lparr>ac_objects := ?r # ac_objects c, ac_public := removeAll ?r (ac_public c)\<rparr>"
  have boot: "run_script env preload_required_sql c = (if ?loaded then Inr c0 else Inl PreloadRequired)"
    using fresh by (auto simp: preload_required_sql_def run_statement_def password_profile_require_preload_def c0_def created_objects_def)
  have parts: "distinct schema_objects" "distinct pg_extern_functions" "set schema_objects \<inter> set pg_extern_functions = {}"
    "?r \<notin> set schema_objects \<union> set pg_extern_functions"
    using created_distinct by (auto simp: created_objects_def)
  obtain c1 where c1: "run_script env (map Create schema_objects) c0 = Inr c1"
    "set (ac_objects c1) = set schema_objects \<union> set (ac_objects c0)"
    "set (ac_public c1) - set schema_objects = set (ac_public c0) - set schema_objects"
    using run_creates [OF parts(1), of c0] fresh parts(4) by (auto simp: c0_def created_objects_def)
  obtain c2 where c2: "run_script env (map Create pg_extern_functions) c1 = Inr c2"
    "set (ac_objects c2) = set pg_extern_functions \<union> set (ac_objects c1)"
    "set (ac_public c2) - set pg_extern_functions = set (ac_public c1) - set pg_extern_functions"
  proof -
    have "set pg_extern_functions \<inter> set (ac_objects c1) = {}"
      using fresh parts(3,4) c1(2) by (auto simp: c0_def created_objects_def)
    then show ?thesis using run_creates [OF parts(2)] that by blast
  qed
  obtain c3 where c3: "run_script env (map RevokeAll password_profile_privileges) c2 = Inr c3"
    "ac_objects c3 = ac_objects c2" "set (ac_public c3) = set (ac_public c2) - set password_profile_privileges"
    using run_revokes [of password_profile_privileges c2] c1(2) c2(2) schema by (auto simp: privileges_complete c0_def)
  have "set (ac_public c3) = set (ac_public c) - insert (Schema ''password_profile'') (set created_objects)"
    using c1(3) c2(3) c3(3) by (auto simp: privileges_complete c0_def created_objects_def)
  moreover have "set (ac_objects c3) = set created_objects \<union> set (ac_objects c)"
    using c1(2) c2(2) c3(2) by (auto simp: c0_def created_objects_def)
  ultimately show ?thesis
    using c1(1) c2(1) c3(1) boot
    by (simp add: create_extension_def run_script_append schema_sql_def run_statement_def)
qed

theorem install_grants_nothing_to_public_witness:
  "\<exists>c1. create_extension \<lparr>in_binary_upgrade = False, in_activation = HooksRegistered, in_schema_owned = True,
        in_default_public = (\<lambda>x. True)\<rparr> \<lparr>ac_objects = [Schema ''password_profile''], ac_public = [Schema ''password_profile'']\<rparr>
      = (c1, None) \<and> Func ''load_blacklist_from_file'' [''text''] \<in> set (ac_objects c1) \<and> ac_public c1 = []"
proof -
  let ?env = "\<lparr>in_binary_upgrade = False, in_activation = HooksRegistered, in_schema_owned = True, in_default_public = (\<lambda>x. True)\<rparr>"
  let ?c = "\<lparr>ac_objects = [Schema ''password_profile''], ac_public = [Schema ''password_profile'']\<rparr>"
  have "installable ?c" by (simp add: installable_def install_objects)
  moreover have "Func ''load_blacklist_from_file'' [''text''] \<in> set created_objects" by (simp add: install_objects)
  ultimately show ?thesis
    using install_grants_nothing_to_public [of ?c ?env] by (auto simp: preloaded_def split: prod.splits option.splits)
qed

end
