(* ===== verification/Password_Policy.thy ===== *)
theory Password_Policy
  imports Hydration
begin

text \<open>
  Password validation and the password-check hook of \<^verbatim>\<open>lib.rs\<close>. A password is the list of its UTF-8
  bytes. The Unicode tables of Rust's standard library (case folding and character classes), the casts
  of PostgreSQL and a user-supplied check function are fields of \<open>policy_ext\<close>; the settings a role
  overrides are read from the catalogue as the SQL does it.
\<close>

section \<open>Characters and prefixes\<close>

text \<open>\<^verbatim>\<open>str::chars\<close> on a valid string: the code points of its sequences.\<close>

fun utf8_chars :: "byte list \<Rightarrow> nat list" where
  "utf8_chars [] = []"
| "utf8_chars (b # bs) =
     (if b < 0x80 then unat b # utf8_chars bs
      else if b < 0xE0 then
        (case bs of c1 # r \<Rightarrow> ((unat b - 0xC0) * 64 + (unat c1 - 0x80)) # utf8_chars r | _ \<Rightarrow> [])
      else if b < 0xF0 then
        (case bs of c1 # c2 # r \<Rightarrow>
           ((unat b - 0xE0) * 4096 + (unat c1 - 0x80) * 64 + (unat c2 - 0x80)) # utf8_chars r | _ \<Rightarrow> [])
      else
        (case bs of c1 # c2 # c3 # r \<Rightarrow>
           ((unat b - 0xF0) * 262144 + (unat c1 - 0x80) * 4096 + (unat c2 - 0x80) * 64 + (unat c3 - 0x80))
             # utf8_chars r | _ \<Rightarrow> []))"

definition bytes_of :: "string \<Rightarrow> rust_str" where
  "bytes_of s = map of_char s"

definition starts_with :: "rust_str \<Rightarrow> string \<Rightarrow> bool" where
  "starts_with s p \<longleftrightarrow> prefix (bytes_of p) s"

record policy_ext =
  po_to_lowercase :: "rust_str \<Rightarrow> rust_str"
  po_is_uppercase :: "nat \<Rightarrow> bool"
  po_is_lowercase :: "nat \<Rightarrow> bool"
  po_is_alphanumeric :: "nat \<Rightarrow> bool"
  po_cast_int :: "string \<Rightarrow> int option"
  po_cast_bool :: "string \<Rightarrow> bool option"
  po_sub_days :: "timestamp \<Rightarrow> int \<Rightarrow> timestamp"
  po_custom_check :: "(username \<Rightarrow> rust_str \<Rightarrow> rust_str option) option"

definition is_ascii_digit_char :: "nat \<Rightarrow> bool" where
  "is_ascii_digit_char c \<longleftrightarrow> 0x30 \<le> c \<and> c \<le> 0x39"

section \<open>Precomputed hashes\<close>

definition is_hash_like :: "policy_ext \<Rightarrow> rust_str \<Rightarrow> bool" where
  "is_hash_like po password =
     (if password = [] then False
      else
        let len = length password; lower = po_to_lowercase po password
        in len = 35 \<and> starts_with lower ''md5'' \<and> list_all is_ascii_hexdigit (drop 3 password)
           \<or> (starts_with lower ''$2a$'' \<or> starts_with lower ''$2b$'' \<or> starts_with lower ''$2x$''
              \<or> starts_with lower ''$2y$'') \<and> 20 \<le> len
           \<or> starts_with lower ''$argon2i$'' \<or> starts_with lower ''$argon2id$'' \<or> starts_with lower ''$argon2d$''
           \<or> starts_with lower ''scram-sha-256$''
           \<or> starts_with lower ''$pbkdf2-''
           \<or> starts_with lower ''pbkdf2:'' \<or> starts_with lower ''sha1$'' \<or> starts_with lower ''sha256$''
           \<or> (len = 40 \<or> len = 64 \<or> len = 128) \<and> list_all is_ascii_hexdigit password
           \<or> starts_with password ''$'' \<and> 50 < len \<and> 3 \<le> length (filter (\<lambda>b. b = of_char (CHR ''$'')) password)
           \<or> (starts_with lower ''$1$'' \<or> starts_with lower ''$5$'' \<or> starts_with lower ''$6$'') \<and> 20 < len)"

section \<open>Validation\<close>

datatype ValidationOutcome = Accepted | ValidationBypassed

datatype rejection = SpiFailed string | LooksLikeHash | TooShort | NoUppercase | NoLowercase | NoDigit | NoSpecial
  | ContainsUsername | Blacklisted | UsedRecently int | UsedWithinDays int | CustomRejection rust_str

text \<open>\<^verbatim>\<open>split_part(config, '=', 2)\<close> of the first matching entry, or none.\<close>

definition split_part_2 :: "string \<Rightarrow> string" where
  "split_part_2 cfg = takeWhile (\<lambda>c. c \<noteq> CHR ''='') (drop 1 (dropWhile (\<lambda>c. c \<noteq> CHR ''='') cfg))"

definition role_setting :: "db_env \<Rightarrow> string \<Rightarrow> ('a \<Rightarrow> 'b) \<Rightarrow> (string \<Rightarrow> 'b option) \<Rightarrow> string list \<Rightarrow> 'a \<Rightarrow> rejection + 'b" where
  "role_setting env name of_global cast config global =
     (if \<not> de_spi env name then Inl (SpiFailed name)
      else case List.find (like_prefix (name @ ''='')) config of
        None \<Rightarrow> Inr (of_global global)
      | Some cfg \<Rightarrow>
          (case cast (split_part_2 cfg) of
             Some v \<Rightarrow> Inr v
           | None \<Rightarrow> Inl (SpiFailed ''invalid input syntax'')))"

record role_policy =
  rp_min_length :: int
  rp_uppercase :: bool
  rp_lowercase :: bool
  rp_digit :: bool
  rp_special :: bool
  rp_username :: bool

definition read_role_policy :: "db_env \<Rightarrow> policy_ext \<Rightarrow> guc \<Rightarrow> string list \<Rightarrow> rejection + role_policy" where
  "read_role_policy env po g config =
     (case role_setting env ''password_profile.min_length'' PASSWORD_MIN_LENGTH (po_cast_int po) config g of
        Inl e \<Rightarrow> Inl e
      | Inr min_length \<Rightarrow>
      (case role_setting env ''password_profile.require_uppercase'' REQUIRE_UPPERCASE (po_cast_bool po) config g of
        Inl e \<Rightarrow> Inl e
      | Inr uppercase \<Rightarrow>
      (case role_setting env ''password_profile.require_lowercase'' REQUIRE_LOWERCASE (po_cast_bool po) config g of
        Inl e \<Rightarrow> Inl e
      | Inr lowercase \<Rightarrow>
      (case role_setting env ''password_profile.require_digit'' REQUIRE_DIGIT (po_cast_bool po) config g of
        Inl e \<Rightarrow> Inl e
      | Inr digit \<Rightarrow>
      (case role_setting env ''password_profile.require_special'' REQUIRE_SPECIAL (po_cast_bool po) config g of
        Inl e \<Rightarrow> Inl e
      | Inr special \<Rightarrow>
      (case role_setting env ''password_profile.prevent_username'' PREVENT_USERNAME (po_cast_bool po) config g of
        Inl e \<Rightarrow> Inl e
      | Inr username \<Rightarrow> Inr \<lparr>rp_min_length = min_length, rp_uppercase = uppercase, rp_lowercase = lowercase,
          rp_digit = digit, rp_special = special, rp_username = username\<rparr>))))))"

text \<open>
  The checks on the text of the password, in the order of the source. The cast of a negative minimum
  length to \<^verbatim>\<open>usize\<close> makes every password too short.
\<close>

definition contains_bytes :: "rust_str \<Rightarrow> rust_str \<Rightarrow> bool" where
  "contains_bytes needle s \<longleftrightarrow> sublist needle s"

definition check_text :: "policy_ext \<Rightarrow> role_policy \<Rightarrow> username \<Rightarrow> rust_str \<Rightarrow> rejection + unit" where
  "check_text po rp username password =
     (let cs = utf8_chars password
      in if rp_min_length rp < 0 \<or> int (length password) < rp_min_length rp then Inl TooShort
         else if rp_uppercase rp \<and> \<not> list_ex (po_is_uppercase po) cs then Inl NoUppercase
         else if rp_lowercase rp \<and> \<not> list_ex (po_is_lowercase po) cs then Inl NoLowercase
         else if rp_digit rp \<and> \<not> list_ex is_ascii_digit_char cs then Inl NoDigit
         else if rp_special rp \<and> \<not> list_ex (\<lambda>c. \<not> po_is_alphanumeric po c) cs then Inl NoSpecial
         else if rp_username rp \<and> username \<noteq> []
              \<and> contains_bytes (po_to_lowercase po username) (po_to_lowercase po password)
         then Inl ContainsUsername
         else Inr ())"

text \<open>The hashes of the last \<open>n\<close> passwords, and those younger than a time.\<close>

definition recent_hashes :: "username \<Rightarrow> int \<Rightarrow> HistoryRow list \<Rightarrow> rust_str list" where
  "recent_hashes u n hs =
     map hr_password_hash (take (nat n) (sort_key (\<lambda>h. - hr_changed_at h) (filter (\<lambda>h. hr_username h = u) hs)))"

definition hashes_since :: "username \<Rightarrow> timestamp \<Rightarrow> HistoryRow list \<Rightarrow> rust_str list" where
  "hashes_since u since hs =
     map hr_password_hash (filter (\<lambda>h. hr_username h = u \<and> since < hr_changed_at h) hs)"

definition check_history ::
  "db_env \<Rightarrow> pg_ext \<Rightarrow> policy_ext \<Rightarrow> guc \<Rightarrow> username \<Rightarrow> rust_str \<Rightarrow> database \<Rightarrow> rejection + unit" where
  "check_history env px po g username password d =
     (if 0 < PASSWORD_HISTORY_COUNT g \<and> \<not> de_spi env ''select history'' then Inl (SpiFailed ''select history'')
      else if 0 < PASSWORD_HISTORY_COUNT g \<and> list_ex (stored_hash_matches px password)
           (recent_hashes username (PASSWORD_HISTORY_COUNT g) (db_password_history d))
      then Inl (UsedRecently (PASSWORD_HISTORY_COUNT g))
      else if 0 < PASSWORD_REUSE_DAYS g \<and> \<not> de_spi env ''select reuse'' then Inl (SpiFailed ''select reuse'')
      else if 0 < PASSWORD_REUSE_DAYS g \<and> list_ex (stored_hash_matches px password)
           (hashes_since username (po_sub_days po (de_now env) (PASSWORD_REUSE_DAYS g)) (db_password_history d))
      then Inl (UsedWithinDays (PASSWORD_REUSE_DAYS g))
      else Inr ())"

definition check_custom :: "db_env \<Rightarrow> policy_ext \<Rightarrow> username \<Rightarrow> rust_str \<Rightarrow> rejection + unit" where
  "check_custom env po username password =
     (if \<not> de_spi env ''select custom check'' then Inl (SpiFailed ''select custom check'')
      else case po_custom_check po of
        None \<Rightarrow> Inr ()
      | Some f \<Rightarrow>
          (case f username password of
             None \<Rightarrow> Inr ()
           | Some msg \<Rightarrow> if msg \<noteq> [] \<and> msg \<noteq> bytes_of ''OK'' then Inl (CustomRejection msg) else Inr ()))"

definition validate_password ::
  "db_env \<Rightarrow> pg_ext \<Rightarrow> policy_ext \<Rightarrow> pg_catalog \<Rightarrow> guc \<Rightarrow> username \<Rightarrow> rust_str \<Rightarrow> database
    \<Rightarrow> rejection + ValidationOutcome" where
  "validate_password env px po cat g username password d =
     (if \<not> de_spi env ''select bypass'' then Inl (SpiFailed ''select bypass'')
      else if user_bypass cat username then Inr ValidationBypassed
      else if is_hash_like po password then Inl LooksLikeHash
      else case read_role_policy env po g (user_config cat username) of Inl e \<Rightarrow> Inl e
      | Inr rp \<Rightarrow> (case check_text po rp username password of Inl e \<Rightarrow> Inl e
      | Inr _ \<Rightarrow> (case blacklist_contains env password d of Inl _ \<Rightarrow> Inl (SpiFailed ''select blacklist'')
      | Inr listed \<Rightarrow> if listed then Inl Blacklisted
        else (case check_history env px po g username password d of Inl e \<Rightarrow> Inl e
      | Inr _ \<Rightarrow> (case check_custom env po username password of Inl e \<Rightarrow> Inl e
      | Inr _ \<Rightarrow> Inr Accepted)))))"

datatype check_result = PasswordAcceptedBypassed | PasswordAccepted

definition check_password ::
  "db_env \<Rightarrow> pg_ext \<Rightarrow> policy_ext \<Rightarrow> pg_catalog \<Rightarrow> guc \<Rightarrow> username \<Rightarrow> rust_str \<Rightarrow> database
    \<Rightarrow> rejection + check_result" where
  "check_password env px po cat g username password d =
     (case validate_password env px po cat g username password d of
        Inl e \<Rightarrow> Inl e
      | Inr ValidationBypassed \<Rightarrow> Inr PasswordAcceptedBypassed
      | Inr Accepted \<Rightarrow> Inr PasswordAccepted)"

section \<open>The password-check hook\<close>

datatype PasswordType = PASSWORD_TYPE_PLAINTEXT | PASSWORD_TYPE_MD5 | PASSWORD_TYPE_SCRAM_SHA_256

datatype control_db = NoDatabase | UnknownDatabase | NamedDatabase string

definition require_control_database :: "control_db \<Rightarrow> string option" where
  "require_control_database db =
     (case db of
        NoDatabase \<Rightarrow> Some ''password changes require a database connection''
      | UnknownDatabase \<Rightarrow> Some ''could not determine the current database''
      | NamedDatabase name \<Rightarrow> if name = ''postgres'' then None
          else Some ''password changes must be performed while connected to the control database'')"

datatype change_error = HashInput | WrongDatabase string | Rejected rejection | Vetoed | NotRecorded db_error

text \<open>\<open>veto\<close>: the previously registered hook raises. An error aborts the statement that changes the role.\<close>

definition password_check_hook ::
  "db_env \<Rightarrow> pg_ext \<Rightarrow> policy_ext \<Rightarrow> pg_catalog \<Rightarrow> guc \<Rightarrow> control_db \<Rightarrow> bool \<Rightarrow> byte list option
    \<Rightarrow> byte list option \<Rightarrow> PasswordType \<Rightarrow> session \<Rightarrow> session \<times> (change_error + unit)" where
  "password_check_hook env px po cat g db veto username shadow_pass password_type s =
     (let username_str = (case username of
            Some u \<Rightarrow> if utf8_valid u then u else bytes_of ''unknown'' | None \<Rightarrow> bytes_of ''unknown'');
          password_str = (case shadow_pass of Some p \<Rightarrow> if utf8_valid p then p else [] | None \<Rightarrow> [])
      in if password_str \<noteq> [] \<and> is_hash_like po password_str then (s, Inl HashInput)
         else case require_control_database db of
           Some msg \<Rightarrow> (s, Inl (WrongDatabase msg))
         | None \<Rightarrow>
             let outcome = (if password_type = PASSWORD_TYPE_PLAINTEXT \<and> password_str \<noteq> []
                   then map_sum id Some (validate_password env px po cat g username_str password_str (ss_db s))
                   else Inr None)
             in case outcome of
                  Inl e \<Rightarrow> (s, Inl (Rejected e))
                | Inr checked \<Rightarrow>
                    if veto then (s, Inl Vetoed)
                    else if checked = Some Accepted
                    then (case record_password_change_internal env px g username_str password_str s of
                            (s1, Inl e) \<Rightarrow> (s1, Inl (NotRecorded e))
                          | (s1, Inr _) \<Rightarrow> (s1, Inr ()))
                    else (s, Inr ()))"


section \<open>What the policy is\<close>

text \<open>The rows \<open>ORDER BY changed_at DESC LIMIT n\<close> returns: those with fewer than \<open>n\<close> newer ones.\<close>

lemma length_filter_less_sorted:
  fixes k :: "'a \<Rightarrow> int"
  assumes "sorted_wrt (<) (map k ys)" "i < length ys"
  shows "length (filter (\<lambda>z. k z < k (ys ! i)) ys) = i"
proof -
  have "k (ys ! j) < k (ys ! i) \<longleftrightarrow> j < i" if "j < length ys" for j
    using that assms sorted_wrt_nth_less [OF assms(1), of j i] sorted_wrt_nth_less [OF assms(1), of i j]
    by (cases i j rule: linorder_cases) auto
  then have "{j. j < length ys \<and> k (ys ! j) < k (ys ! i)} = {..<i}" using assms(2) by auto
  then show ?thesis by (simp add: length_filter_conv_card)
qed

lemma take_sort_key_iff:
  fixes k :: "'a \<Rightarrow> int"
  assumes "distinct (map k rows)"
  shows "h \<in> set (take n (sort_key k rows))
    \<longleftrightarrow> h \<in> set rows \<and> length (filter (\<lambda>z. k z < k h) rows) < n"
proof -
  let ?ys = "sort_key k rows"
  have m: "mset ?ys = mset rows" by simp
  have "distinct (map k ?ys)" using assms m by (metis distinct_perm mset_map)
  then have srt: "sorted_wrt (<) (map k ?ys)" by (simp add: strict_sorted_iff)
  have cnt: "length (filter P ?ys) = length (filter P rows)" for P
    by (metis m mset_filter size_mset)
  have "h \<in> set (take n ?ys) \<longleftrightarrow> (\<exists>i < length ?ys. i < n \<and> ?ys ! i = h)"
    by (auto simp: in_set_conv_nth)
  also have "\<dots> \<longleftrightarrow> (\<exists>i < length ?ys. ?ys ! i = h \<and> length (filter (\<lambda>z. k z < k h) rows) < n)"
    using length_filter_less_sorted [OF srt] cnt by metis
  also have "\<dots> \<longleftrightarrow> h \<in> set rows \<and> length (filter (\<lambda>z. k z < k h) rows) < n"
    by (metis in_set_conv_nth set_sort)
  finally show ?thesis .
qed

definition newer_rows :: "username \<Rightarrow> HistoryRow \<Rightarrow> HistoryRow list \<Rightarrow> nat" where
  "newer_rows u h hs = length (filter (\<lambda>z. hr_username z = u \<and> hr_changed_at h < hr_changed_at z) hs)"

definition distinct_times :: "username \<Rightarrow> HistoryRow list \<Rightarrow> bool" where
  "distinct_times u hs \<longleftrightarrow> distinct (map hr_changed_at (filter (\<lambda>h. hr_username h = u) hs))"

lemma recent_hashes_iff:
  assumes "distinct_times u hs"
  shows "x \<in> set (recent_hashes u n hs)
    \<longleftrightarrow> (\<exists>h \<in> set hs. hr_username h = u \<and> hr_password_hash h = x \<and> newer_rows u h hs < nat n)"
proof -
  let ?r = "filter (\<lambda>h. hr_username h = u) hs"
  have "distinct (map (\<lambda>h. - hr_changed_at h) ?r)"
    using assms by (simp add: distinct_times_def distinct_map inj_on_def)
  note t = take_sort_key_iff [OF this, of _ "nat n"]
  have f: "length (filter (\<lambda>z. - hr_changed_at z < - hr_changed_at h) ?r) = newer_rows u h hs" for h
    by (simp add: newer_rows_def conj_commute)
  show ?thesis unfolding recent_hashes_def set_map image_iff Bex_def t f by auto
qed

text \<open>The policy a plaintext password has to meet, as a predicate.\<close>

definition text_policy :: "policy_ext \<Rightarrow> role_policy \<Rightarrow> username \<Rightarrow> rust_str \<Rightarrow> bool" where
  "text_policy po rp u pw \<longleftrightarrow>
     0 \<le> rp_min_length rp \<and> rp_min_length rp \<le> int (length pw)
     \<and> (rp_uppercase rp \<longrightarrow> (\<exists>c \<in> set (utf8_chars pw). po_is_uppercase po c))
     \<and> (rp_lowercase rp \<longrightarrow> (\<exists>c \<in> set (utf8_chars pw). po_is_lowercase po c))
     \<and> (rp_digit rp \<longrightarrow> (\<exists>c \<in> set (utf8_chars pw). is_ascii_digit_char c))
     \<and> (rp_special rp \<longrightarrow> (\<exists>c \<in> set (utf8_chars pw). \<not> po_is_alphanumeric po c))
     \<and> (rp_username rp \<and> u \<noteq> [] \<longrightarrow> \<not> sublist (po_to_lowercase po u) (po_to_lowercase po pw))"

definition history_policy ::
  "db_env \<Rightarrow> pg_ext \<Rightarrow> policy_ext \<Rightarrow> guc \<Rightarrow> username \<Rightarrow> rust_str \<Rightarrow> HistoryRow list \<Rightarrow> bool" where
  "history_policy env px po g u pw hs \<longleftrightarrow>
     (\<forall>h \<in> set hs. hr_username h = u \<and> stored_hash_matches px pw (hr_password_hash h) \<longrightarrow>
        nat (PASSWORD_HISTORY_COUNT g) \<le> newer_rows u h hs
        \<and> (0 < PASSWORD_REUSE_DAYS g \<longrightarrow>
             hr_changed_at h \<le> po_sub_days po (de_now env) (PASSWORD_REUSE_DAYS g)))"

definition custom_policy :: "policy_ext \<Rightarrow> username \<Rightarrow> rust_str \<Rightarrow> bool" where
  "custom_policy po u pw \<longleftrightarrow>
     (\<forall>f msg. po_custom_check po = Some f \<and> f u pw = Some msg \<longrightarrow> msg = [] \<or> msg = bytes_of ''OK'')"

lemma check_text_iff: "check_text po rp u pw = Inr () \<longleftrightarrow> text_policy po rp u pw"
  by (auto simp: check_text_def text_policy_def contains_bytes_def Let_def list_ex_iff)

lemma recent_match_iff:
  assumes "distinct_times u hs"
  shows "list_ex P (recent_hashes u n hs)
    \<longleftrightarrow> (\<exists>h \<in> set hs. hr_username h = u \<and> P (hr_password_hash h) \<and> newer_rows u h hs < nat n)"
  by (auto simp: list_ex_iff recent_hashes_iff [OF assms] Bex_def)

lemma since_match_iff:
  "list_ex P (hashes_since u t hs)
    \<longleftrightarrow> (\<exists>h \<in> set hs. hr_username h = u \<and> P (hr_password_hash h) \<and> t < hr_changed_at h)"
  by (auto simp: list_ex_iff hashes_since_def)

lemma check_history_iff:
  assumes "\<forall>q. de_spi env q" "distinct_times u (db_password_history d)"
  shows "check_history env px po g u pw d = Inr () \<longleftrightarrow> history_policy env px po g u pw (db_password_history d)"
proof -
  let ?old = "list_ex (stored_hash_matches px pw)
    (recent_hashes u (PASSWORD_HISTORY_COUNT g) (db_password_history d))"
  let ?since = "list_ex (stored_hash_matches px pw)
    (hashes_since u (po_sub_days po (de_now env) (PASSWORD_REUSE_DAYS g)) (db_password_history d))"
  have "check_history env px po g u pw d = Inr ()
      \<longleftrightarrow> \<not> (0 < PASSWORD_HISTORY_COUNT g \<and> ?old) \<and> \<not> (0 < PASSWORD_REUSE_DAYS g \<and> ?since)"
    using assms(1) by (simp add: check_history_def)
  also have "\<dots> \<longleftrightarrow> \<not> ?old \<and> \<not> (0 < PASSWORD_REUSE_DAYS g \<and> ?since)"
    by (auto simp: recent_match_iff [OF assms(2)])
  also have "\<dots> \<longleftrightarrow> history_policy env px po g u pw (db_password_history d)"
    unfolding recent_match_iff [OF assms(2)] since_match_iff history_policy_def
    by (meson not_le)
  finally show ?thesis .
qed

lemma check_custom_iff:
  assumes "\<forall>q. de_spi env q"
  shows "check_custom env po u pw = Inr () \<longleftrightarrow> custom_policy po u pw"
  using assms by (auto simp: check_custom_def custom_policy_def split: option.split)

text \<open>
  Property C11: when the statements succeed and the settings of the role can be read, validation
  accepts a password exactly when it meets the policy: it does not look like a hash, it has the
  required length and kinds of characters, does not contain the name of the role, is not on the
  blacklist, matches none of the last \<open>PASSWORD_HISTORY_COUNT\<close> passwords of the role (those with fewer
  newer ones) and none set within \<open>PASSWORD_REUSE_DAYS\<close>, and the custom check has no objection.
\<close>
theorem validation_accepts_exactly_the_policy:
  assumes "\<forall>q. de_spi env q" and "\<not> user_bypass cat u"
    and "read_role_policy env po g (user_config cat u) = Inr rp"
    and "distinct_times u (db_password_history d)"
  shows "validate_password env px po cat g u pw d = Inr Accepted \<longleftrightarrow>
    \<not> is_hash_like po pw \<and> text_policy po rp u pw \<and> map_of (db_blacklist d) pw = None
    \<and> history_policy env px po g u pw (db_password_history d) \<and> custom_policy po u pw"
proof -
  have sum: "(\<exists>e. (x :: rejection + unit) = Inl e) \<longleftrightarrow> x \<noteq> Inr ()" for x by (cases x) auto
  show ?thesis
    unfolding check_text_iff [symmetric] check_history_iff [OF assms(1,4), symmetric]
      check_custom_iff [OF assms(1), symmetric]
    using assms(1,2,3)
    by (auto simp: validate_password_def blacklist_contains_def split: sum.split)
qed


text \<open>Concrete character classes (ASCII), casts that read a decimal number, and days of 24 hours.\<close>

definition ascii_lower :: "byte \<Rightarrow> byte" where
  "ascii_lower b = (if 0x41 \<le> b \<and> b \<le> 0x5A then b + 0x20 else b)"

definition plain_policy :: policy_ext where
  "plain_policy = \<lparr>po_to_lowercase = map ascii_lower, po_is_uppercase = (\<lambda>c. 65 \<le> c \<and> c \<le> 90),
     po_is_lowercase = (\<lambda>c. 97 \<le> c \<and> c \<le> 122),
     po_is_alphanumeric = (\<lambda>c. 48 \<le> c \<and> c \<le> 57 \<or> 65 \<le> c \<and> c \<le> 90 \<or> 97 \<le> c \<and> c \<le> 122),
     po_cast_int = (\<lambda>s. if s \<noteq> [] \<and> list_all is_digit_char s then Some (digits_value s) else None),
     po_cast_bool = (\<lambda>s. if s = ''on'' then Some True else if s = ''off'' then Some False else None),
     po_sub_days = (\<lambda>t d. t - d * 86400000000), po_custom_check = None\<rparr>"

definition strict_catalog :: pg_catalog where
  "strict_catalog = \<lparr>ct_user = \<lambda>_. Some \<lparr>us_super = False,
     us_config = [''password_profile.min_length=9'', ''password_profile.require_digit=on'']\<rparr>, ct_role_exists = \<lambda>_. True\<rparr>"

definition strict_policy :: role_policy where
  "strict_policy = \<lparr>rp_min_length = 9, rp_uppercase = False, rp_lowercase = False, rp_digit = True,
     rp_special = False, rp_username = True\<rparr>"

lemma strict_policy_read:
  "read_role_policy (plain_env t) plain_policy guc_default (user_config strict_catalog u) = Inr strict_policy"
  by (simp add: read_role_policy_def role_setting_def user_config_def strict_catalog_def plain_policy_def
      plain_env_def guc_default_def strict_policy_def split_part_2_def digits_value_def is_digit_char_def)

theorem validation_accepts_exactly_the_policy_witness:
  "validate_password (plain_env 9) plain_ext plain_policy strict_catalog guc_default [0x61]
       (bytes_of ''Secret-77'') empty_database = Inr Accepted
   \<and> validate_password (plain_env 9) plain_ext plain_policy strict_catalog guc_default [0x61]
       (bytes_of ''Secret-seven'') empty_database \<noteq> Inr Accepted"
proof -
  note v = validation_accepts_exactly_the_policy [where env = "plain_env 9" and cat = strict_catalog
      and po = plain_policy and g = guc_default and rp = strict_policy and u = "[0x61]" and d = empty_database
      and px = plain_ext, OF _ _ strict_policy_read]
  have h: "\<not> is_hash_like plain_policy (bytes_of ''Secret-77'')"
    by (simp add: is_hash_like_def starts_with_def bytes_of_def plain_policy_def ascii_lower_def)
  have t: "text_policy plain_policy strict_policy [0x61] (bytes_of ''Secret-77'')"
    "\<not> text_policy plain_policy strict_policy [0x61] (bytes_of ''Secret-seven'')"
    by (simp_all add: text_policy_def strict_policy_def bytes_of_def plain_policy_def ascii_lower_def
        is_ascii_digit_char_def sublist_Cons_right)
  show ?thesis
    using v h t
    by (simp add: plain_env_def user_bypass_def user_config_def strict_catalog_def distinct_times_def
        empty_database_def history_policy_def custom_policy_def plain_policy_def)
qed

section \<open>What the hook lets through\<close>

lemma foldl_newer_bound: "z \<in> set (a # r) \<Longrightarrow> hr_changed_at z \<le> hr_changed_at (foldl newer_row a r)"
proof (induction r arbitrary: a z)
  case (Cons b r)
  have b: "hr_changed_at a \<le> hr_changed_at (newer_row a b)" "hr_changed_at b \<le> hr_changed_at (newer_row a b)"
    by (auto simp: newer_row_def)
  have "hr_changed_at (newer_row a b) \<le> hr_changed_at (foldl newer_row (newer_row a b) r)"
    by (rule Cons.IH) simp
  moreover have "hr_changed_at z \<le> hr_changed_at (foldl newer_row (newer_row a b) r)" if "z \<in> set r"
    using that by (intro Cons.IH) simp
  ultimately show ?case using Cons.prems b by auto
qed simp

lemma latest_hash_newest:
  assumes "latest_hash u hs = Some st"
  shows "\<exists>h \<in> set hs. hr_username h = u \<and> hr_password_hash h = st \<and> newer_rows u h hs = 0"
proof -
  obtain h t where f: "filter (\<lambda>h. hr_username h = u) hs = h # t" and st: "hr_password_hash (foldl newer_row h t) = st"
    using assms by (auto simp: latest_hash_def split: list.splits)
  let ?m = "foldl newer_row h t"
  have "\<forall>z \<in> set (filter (\<lambda>h. hr_username h = u) hs). \<not> hr_changed_at ?m < hr_changed_at z"
    using foldl_newer_bound f by (metis not_le)
  then have "newer_rows u ?m hs = 0" by (auto simp: newer_rows_def filter_empty_conv)
  moreover have "?m \<in> set (filter (\<lambda>h. hr_username h = u) hs)" using foldl_newer_member f by metis
  ultimately show ?thesis using st by auto
qed

text \<open>A password that was used recently is not accepted, whatever else the environment says.\<close>

lemma recent_match_not_accepted:
  assumes "distinct_times u (db_password_history d)" "h \<in> set (db_password_history d)" "hr_username h = u"
    and "stored_hash_matches px pw (hr_password_hash h)"
    and "newer_rows u h (db_password_history d) < nat (PASSWORD_HISTORY_COUNT g)"
  shows "validate_password env px po cat g u pw d \<noteq> Inr Accepted"
proof -
  have "list_ex (stored_hash_matches px pw) (recent_hashes u (PASSWORD_HISTORY_COUNT g) (db_password_history d))"
    using assms(2-5) recent_match_iff [OF assms(1)] by blast
  then have "\<exists>e. check_history env px po g u pw d = Inl e"
    using assms(5) by (auto simp: check_history_def)
  then show ?thesis
    by (auto simp: validate_password_def split: sum.split)
qed

lemma accepted_change_is_recorded:
  assumes "password_history_recording_enabled g" and "0 < PASSWORD_HISTORY_COUNT g"
    and "distinct_times u (db_password_history (ss_db s))"
    and "validate_password env px po cat g u pw (ss_db s) = Inr Accepted"
    and "record_password_change_internal env px g u pw s = (s1, Inr ins)"
  obtains w h where "px_hash px pw (max 4 (min 31 (BCRYPT_COST g))) = Some w"
    "h \<in> set (db_password_history (ss_db s1))"
    "hr_username h = u" "hr_password_hash h = w" "hr_changed_at h = de_now env"
proof -
  obtain a where a: "record_history env px g u pw s = (a, Inr ins)" "record_expiry env px g u a = (s1, Inr ())"
    using record_password_change_returns [OF assms(5)] by metis
  have "ins"
  proof (rule ccontr)
    assume "\<not> ins"
    then obtain st where "latest_hash u (db_password_history (ss_db s)) = Some st" "stored_hash_matches px pw st"
      using a(1) assms(1) by (auto simp: record_history_def spi_def Let_def split: if_splits option.splits)
    then obtain h where "h \<in> set (db_password_history (ss_db s))" "hr_username h = u"
      "stored_hash_matches px pw (hr_password_hash h)" "newer_rows u h (db_password_history (ss_db s)) = 0"
      using latest_hash_newest by metis
    then show False using recent_match_not_accepted [OF assms(3), of h px pw g] assms(2,4) by simp
  qed
  then obtain w where w: "px_hash px pw (max 4 (min 31 (BCRYPT_COST g))) = Some w"
    "ss_db a = insert_history (de_now env) u w (ss_db s)"
    using record_history_returns(2) [OF a(1)] by auto
  show ?thesis
    by (rule that [OF w(1), of "\<lparr>hr_id = db_history_next_id (ss_db s), hr_username = u, hr_password_hash = w,
          hr_changed_at = de_now env\<rparr>"])
      (simp_all add: record_expiry_returns(2) [OF a(2)] w(2) insert_history_def)
qed

lemma hook_success:
  assumes "password_check_hook env px po cat g db veto (Some u) (Some pw) PASSWORD_TYPE_PLAINTEXT s = (s1, Inr ())"
    and "utf8_valid u" "utf8_valid pw" "pw \<noteq> []" "\<not> user_bypass cat u"
  shows "validate_password env px po cat g u pw (ss_db s) = Inr Accepted"
    and "\<exists>ins. record_password_change_internal env px g u pw s = (s1, Inr ins)"
proof -
  have v: "validate_password env px po cat g u pw (ss_db s) \<noteq> Inr ValidationBypassed"
    using assms(5) by (auto simp: validate_password_def split: sum.split if_split)
  have "validate_password env px po cat g u pw (ss_db s) = Inr Accepted
      \<and> (\<exists>ins. record_password_change_internal env px g u pw s = (s1, Inr ins))"
    using assms(1-4) v
    by (cases "validate_password env px po cat g u pw (ss_db s)")
      (auto simp: password_check_hook_def Let_def split: if_splits option.splits sum.splits prod.splits
        ValidationOutcome.splits intro: ValidationOutcome.exhaust)
  then show "validate_password env px po cat g u pw (ss_db s) = Inr Accepted"
    and "\<exists>ins. record_password_change_internal env px g u pw s = (s1, Inr ins)" by blast+
qed


text \<open>
  Property C12: a password that was set through the hook cannot be set again while it is one of the
  last \<open>PASSWORD_HISTORY_COUNT\<close> passwords of the role. If bcrypt verifies its own digests and the role
  is not exempt, then after a successful change, in every later table that still has the rows of that
  moment and in which fewer than \<open>PASSWORD_HISTORY_COUNT\<close> rows of the role are newer, validation
  does not accept the same password, whatever the other settings are by then.
\<close>
theorem accepted_password_cannot_be_reused:
  assumes "\<forall>p c w. px_hash px p c = Some w \<longrightarrow> px_verify px p w = Some True"
    and "password_check_hook env px po cat g db veto (Some u) (Some pw) PASSWORD_TYPE_PLAINTEXT s = (s1, Inr ())"
    and "utf8_valid u" "utf8_valid pw" "pw \<noteq> []" "\<not> user_bypass cat u" "0 < PASSWORD_HISTORY_COUNT g"
    and "distinct_times u (db_password_history (ss_db s))"
    and "set (db_password_history (ss_db s1)) \<subseteq> set (db_password_history d2)"
    and "distinct_times u (db_password_history d2)"
    and "length (filter (\<lambda>z. hr_username z = u \<and> de_now env < hr_changed_at z) (db_password_history d2))
      < nat (PASSWORD_HISTORY_COUNT g2)"
  shows "validate_password env2 px po2 cat2 g2 u pw d2 \<noteq> Inr Accepted"
proof -
  have on: "password_history_recording_enabled g" using assms(7) by (simp add: password_history_recording_enabled_def)
  obtain ins where r: "record_password_change_internal env px g u pw s = (s1, Inr ins)"
    using hook_success(2) [OF assms(2-6)] by blast
  obtain w h where w: "px_hash px pw (max 4 (min 31 (BCRYPT_COST g))) = Some w"
    and h: "h \<in> set (db_password_history (ss_db s1))" "hr_username h = u" "hr_password_hash h = w"
      "hr_changed_at h = de_now env"
    by (rule accepted_change_is_recorded [OF on assms(7,8) hook_success(1) [OF assms(2-6)] r])
  have "stored_hash_matches px pw (hr_password_hash h)" using assms(1) w h(3) by (simp add: stored_hash_matches_def)
  moreover have "newer_rows u h (db_password_history d2) < nat (PASSWORD_HISTORY_COUNT g2)"
    using assms(11) h(4) by (simp add: newer_rows_def)
  ultimately show ?thesis using recent_match_not_accepted [OF assms(10)] h(1,2) assms(9) by blast
qed

lemma secret_utf8:
  "utf8_valid [0x61]" "utf8_valid (bytes_of ''Secret-77'')" "bytes_of ''Secret-77'' \<noteq> []"
  by (simp_all add: bytes_of_def utf8_valid.simps)

lemma hook_records_secret:
  "\<exists>s1. password_check_hook (plain_env 9) plain_ext plain_policy plain_catalog guc_default
      (NamedDatabase ''postgres'') False (Some [0x61]) (Some (bytes_of ''Secret-77'')) PASSWORD_TYPE_PLAINTEXT
      fresh_session = (s1, Inr ())"
proof -
  obtain s1 ins where r: "record_password_change_internal (plain_env 9) plain_ext guc_default [0x61]
      (bytes_of ''Secret-77'') fresh_session = (s1, Inr ins)"
    using record_password_change_good [of "plain_env 9" fresh_session plain_ext guc_default "[0x61]"
        "bytes_of ''Secret-77''"]
    by (auto simp: fresh_session_def plain_ext_def)
  have h: "\<not> is_hash_like plain_policy (bytes_of ''Secret-77'')"
    by (simp add: is_hash_like_def starts_with_def bytes_of_def plain_policy_def ascii_lower_def)
  have v: "validate_password (plain_env 9) plain_ext plain_policy plain_catalog guc_default [0x61]
      (bytes_of ''Secret-77'') (ss_db fresh_session) = Inr Accepted"
    unfolding validate_password_def using h
    by (simp add: user_bypass_def user_config_def plain_catalog_def plain_env_def read_role_policy_def
        role_setting_def guc_default_def check_text_def bytes_of_def contains_bytes_def plain_policy_def
        ascii_lower_def sublist_Cons_right blacklist_contains_def fresh_session_def empty_database_def
        check_history_def recent_hashes_def hashes_since_def check_custom_def)
  note u = secret_utf8
  show ?thesis
    using h v u r by (simp add: password_check_hook_def require_control_database_def Let_def)
qed

lemma fresh_history_after_change:
  assumes "record_password_change_internal (plain_env 9) plain_ext guc_default [0x61] pw fresh_session = (s1, Inr ins)"
  shows "db_password_history (ss_db s1) =
    [\<lparr>hr_id = 1, hr_username = [0x61], hr_password_hash = pw, hr_changed_at = 9\<rparr>]"
proof -
  obtain a where a: "record_history (plain_env 9) plain_ext guc_default [0x61] pw fresh_session = (a, Inr ins)"
    "record_expiry (plain_env 9) plain_ext guc_default [0x61] a = (s1, Inr ())"
    using record_password_change_returns [OF assms] by metis
  have "db_password_history (ss_db a) = [\<lparr>hr_id = 1, hr_username = [0x61], hr_password_hash = pw, hr_changed_at = 9\<rparr>]"
    using a(1) by (auto simp: record_history_def password_history_recording_enabled_def guc_default_def spi_def
        plain_env_def plain_ext_def fresh_session_def empty_database_def latest_hash_def insert_history_def)
  then show ?thesis using record_expiry_returns(2) [OF a(2)] by simp
qed

theorem accepted_password_cannot_be_reused_witness:
  "\<exists>s1. password_check_hook (plain_env 9) plain_ext plain_policy plain_catalog guc_default
      (NamedDatabase ''postgres'') False (Some [0x61]) (Some (bytes_of ''Secret-77'')) PASSWORD_TYPE_PLAINTEXT
      fresh_session = (s1, Inr ())
     \<and> validate_password (plain_env 20) plain_ext plain_policy plain_catalog guc_default [0x61]
         (bytes_of ''Secret-77'') (ss_db s1) \<noteq> Inr Accepted"
proof -
  obtain s1 where c: "password_check_hook (plain_env 9) plain_ext plain_policy plain_catalog guc_default
      (NamedDatabase ''postgres'') False (Some [0x61]) (Some (bytes_of ''Secret-77'')) PASSWORD_TYPE_PLAINTEXT
      fresh_session = (s1, Inr ())" using hook_records_secret by blast
  note u = secret_utf8
  have b: "\<not> user_bypass plain_catalog [0x61]" by (simp add: user_bypass_def user_config_def plain_catalog_def)
  obtain ins where "record_password_change_internal (plain_env 9) plain_ext guc_default [0x61]
      (bytes_of ''Secret-77'') fresh_session = (s1, Inr ins)"
    using hook_success(2) [OF c u b] by blast
  note h = fresh_history_after_change [OF this]
  have "validate_password (plain_env 20) plain_ext plain_policy plain_catalog guc_default [0x61]
      (bytes_of ''Secret-77'') (ss_db s1) \<noteq> Inr Accepted"
    by (rule accepted_password_cannot_be_reused [OF _ c u b])
      (simp_all add: plain_ext_def guc_default_def h distinct_times_def plain_env_def fresh_session_def
        empty_database_def)
  then show ?thesis using c by blast
qed

text \<open>
  Property C13: the hook changes the session only for a password it accepted. Unless the password is a
  valid plaintext one that validation accepted, on a connection to the control database and with no
  veto of an earlier hook, the tables and the staged cache operations are exactly as before, whether
  the statement goes on or is refused; and when they do change, the change is the one of the recorder,
  the hook reports success exactly when the recorder does, and a failing recorder refuses the change.
\<close>
theorem password_hook_changes_only_accepted:
  assumes "password_check_hook env px po cat g db veto username shadow ptype s = (s1, r)"
  shows "s1 = s \<and> (\<forall>e. r \<noteq> Inl (NotRecorded e))
    \<or> (\<exists>u pw res. shadow = Some pw \<and> utf8_valid pw \<and> pw \<noteq> [] \<and> ptype = PASSWORD_TYPE_PLAINTEXT
        \<and> \<not> is_hash_like po pw \<and> db = NamedDatabase ''postgres'' \<and> \<not> veto
        \<and> validate_password env px po cat g u pw (ss_db s) = Inr Accepted
        \<and> record_password_change_internal env px g u pw s = (s1, res)
        \<and> r = map_sum NotRecorded (\<lambda>_. ()) res)"
proof -
  define u where "u = (case username of
      Some u \<Rightarrow> if utf8_valid u then u else bytes_of ''unknown'' | None \<Rightarrow> bytes_of ''unknown'')"
  define pw where "pw = (case shadow of Some p \<Rightarrow> if utf8_valid p then p else [] | None \<Rightarrow> [])"
  have pw: "shadow = Some pw \<and> utf8_valid pw" if "pw \<noteq> []"
    using that by (auto simp: pw_def split: option.splits if_splits)
  have db: "require_control_database db = None \<longleftrightarrow> db = NamedDatabase ''postgres''"
    by (cases db) (auto simp: require_control_database_def)
  have "s1 = s \<and> (\<forall>e. r \<noteq> Inl (NotRecorded e))
    \<or> (pw \<noteq> [] \<and> ptype = PASSWORD_TYPE_PLAINTEXT \<and> \<not> is_hash_like po pw \<and> require_control_database db = None
        \<and> \<not> veto \<and> validate_password env px po cat g u pw (ss_db s) = Inr Accepted
        \<and> (\<exists>res. record_password_change_internal env px g u pw s = (s1, res)
             \<and> r = map_sum NotRecorded (\<lambda>_. ()) res))"
    using assms unfolding password_check_hook_def u_def [symmetric] pw_def [symmetric] Let_def
    by (cases "validate_password env px po cat g u pw (ss_db s)";
        cases "record_password_change_internal env px g u pw s")
      (auto split: if_splits option.splits sum.splits)
  then show ?thesis using pw db by blast
qed

theorem password_hook_changes_only_accepted_witness:
  "\<exists>s1 u pw res. password_check_hook (plain_env 9) plain_ext plain_policy plain_catalog guc_default
      (NamedDatabase ''postgres'') False (Some [0x61]) (Some (bytes_of ''Secret-77'')) PASSWORD_TYPE_PLAINTEXT
      fresh_session = (s1, Inr ())
    \<and> s1 \<noteq> fresh_session \<and> record_password_change_internal (plain_env 9) plain_ext guc_default u pw fresh_session = (s1, res)"
proof -
  obtain s1 where c: "password_check_hook (plain_env 9) plain_ext plain_policy plain_catalog guc_default
      (NamedDatabase ''postgres'') False (Some [0x61]) (Some (bytes_of ''Secret-77'')) PASSWORD_TYPE_PLAINTEXT
      fresh_session = (s1, Inr ())" using hook_records_secret by blast
  note u = secret_utf8
  have b: "\<not> user_bypass plain_catalog [0x61]" by (simp add: user_bypass_def user_config_def plain_catalog_def)
  have "s1 \<noteq> fresh_session"
    using fresh_history_after_change hook_success(2) [OF c u b] by (fastforce simp: fresh_session_def empty_database_def)
  then show ?thesis using password_hook_changes_only_accepted [OF c] c by blast
qed

end
