(* ===== verification/Blacklist_Load.thy ===== *)
theory Blacklist_Load
  imports Password_State
begin

text \<open>
  Loading the blacklist from a server-side file (\<^verbatim>\<open>load_blacklist_from_file\<close> of \<^verbatim>\<open>lib.rs\<close>). The reading loop
  is a partial function, so that never returning is the value \<open>None\<close>. \<^verbatim>\<open>BufRead::lines\<close> and \<^verbatim>\<open>str::trim\<close> are
  modelled on bytes; the counters of the report are unbounded.
\<close>

section \<open>Lines and white space\<close>

text \<open>The UTF-8 forms of the characters \<^verbatim>\<open>char::is_whitespace\<close> accepts.\<close>

definition white_space :: "byte list list" where
  "white_space = [[0x09], [0x0A], [0x0B], [0x0C], [0x0D], [0x20], [0xC2, 0x85], [0xC2, 0xA0], [0xE1, 0x9A, 0x80],
     [0xE2, 0x80, 0x80], [0xE2, 0x80, 0x81], [0xE2, 0x80, 0x82], [0xE2, 0x80, 0x83], [0xE2, 0x80, 0x84],
     [0xE2, 0x80, 0x85], [0xE2, 0x80, 0x86], [0xE2, 0x80, 0x87], [0xE2, 0x80, 0x88], [0xE2, 0x80, 0x89],
     [0xE2, 0x80, 0x8A], [0xE2, 0x80, 0xA8], [0xE2, 0x80, 0xA9], [0xE2, 0x80, 0xAF], [0xE2, 0x81, 0x9F],
     [0xE3, 0x80, 0x80]]"

lemma white_space_non_empty: "[] \<notin> set white_space"
  by (simp add: white_space_def)

lemma white_space_find: "List.find p white_space = Some w \<Longrightarrow> w \<noteq> [] \<and> p w"
  using white_space_non_empty nth_mem by (fastforce simp: find_Some_iff)

function trim_start :: "byte list \<Rightarrow> byte list" where
  "trim_start bs =
     (case List.find (\<lambda>w. prefix w bs) white_space of None \<Rightarrow> bs | Some w \<Rightarrow> trim_start (drop (length w) bs))"
  by pat_completeness auto

termination trim_start
proof (relation "measure length")
  fix bs w assume "List.find (\<lambda>w. prefix w bs) white_space = Some w"
  then have "w \<noteq> []" "prefix w bs" using white_space_find by blast+
  then show "(drop (length w) bs, bs) \<in> measure length" by (auto simp: prefix_def)
qed simp

function trim_end :: "byte list \<Rightarrow> byte list" where
  "trim_end bs =
     (case List.find (\<lambda>w. suffix w bs) white_space of
        None \<Rightarrow> bs | Some w \<Rightarrow> trim_end (take (length bs - length w) bs))"
  by pat_completeness auto

termination trim_end
proof (relation "measure length")
  fix bs w assume "List.find (\<lambda>w. suffix w bs) white_space = Some w"
  then have "w \<noteq> []" "suffix w bs" using white_space_find by blast+
  then show "(take (length bs - length w) bs, bs) \<in> measure length" by (auto simp: suffix_def)
qed simp

declare trim_start.simps [simp del] trim_end.simps [simp del]

definition trim :: "byte list \<Rightarrow> byte list" where
  "trim bs = trim_end (trim_start bs)"

text \<open>The lines of a content: without the newline and a carriage return before it; no line after a final newline.\<close>

definition strip_cr :: "byte list \<Rightarrow> byte list" where
  "strip_cr l = (if l \<noteq> [] \<and> last l = 0x0D then butlast l else l)"

function split_lines :: "byte list \<Rightarrow> byte list list" where
  "split_lines bs =
     (if bs = [] then []
      else if 0x0A \<in> set bs
      then strip_cr (takeWhile (\<lambda>b. b \<noteq> 0x0A) bs) # split_lines (tl (dropWhile (\<lambda>b. b \<noteq> 0x0A) bs))
      else [bs])"
  by pat_completeness auto

termination split_lines
proof (relation "measure length")
  fix bs :: "byte list" assume "bs \<noteq> []" "0x0A \<in> set bs"
  then have "length (dropWhile (\<lambda>b. b \<noteq> 0x0A) bs) \<le> length bs" by (simp add: length_dropWhile_le)
  then show "(tl (dropWhile (\<lambda>b. b \<noteq> 0x0A) bs), bs) \<in> measure length" using \<open>bs \<noteq> []\<close> by (cases bs) auto
qed simp

declare split_lines.simps [simp del]

section \<open>Reading and inserting\<close>

datatype server_file = RegularFile "byte list" | Directory

datatype read_line = LineErr | LineOk rust_str

text \<open>
  The results of \<^verbatim>\<open>reader.lines()\<close> one after the other, \<open>None\<close> at the end of the file. Reading from a
  directory fails every time.
\<close>

definition next_line :: "server_file \<Rightarrow> nat \<Rightarrow> read_line option" where
  "next_line f i =
     (case f of
        Directory \<Rightarrow> Some LineErr
      | RegularFile c \<Rightarrow>
          let ls = split_lines c
          in if i < length ls then Some (if utf8_valid (ls ! i) then LineOk (ls ! i) else LineErr) else None)"

definition insert_loaded :: "timestamp \<Rightarrow> rust_str \<Rightarrow> (rust_str \<times> BlacklistRow) list \<Rightarrow> (rust_str \<times> BlacklistRow) list" where
  "insert_loaded now password t =
     (if map_of t password \<noteq> None then t
      else AList.update password \<lparr>bl_added_at = now, bl_reason = map of_char ''Loaded from file''\<rparr> t)"

definition on_blacklist :: "((rust_str \<times> BlacklistRow) list \<Rightarrow> (rust_str \<times> BlacklistRow) list) \<Rightarrow> session \<Rightarrow> session" where
  "on_blacklist f s = s\<lparr>ss_db := (ss_db s)\<lparr>db_blacklist := f (db_blacklist (ss_db s))\<rparr>\<rparr>"

definition skipped :: "rust_str \<Rightarrow> bool" where
  "skipped password \<longleftrightarrow> password = [] \<or> hd password = of_char (CHR ''#'')"

partial_function (option) load_loop ::
  "db_env \<Rightarrow> (nat \<Rightarrow> spi_outcome) \<Rightarrow> server_file \<Rightarrow> nat \<Rightarrow> nat \<Rightarrow> nat \<Rightarrow> session \<Rightarrow> (nat \<times> nat) db_result option" where
  "load_loop env ins f i count errors s =
     (case next_line f i of
        None \<Rightarrow> Some (s, Inr (count, errors))
      | Some LineErr \<Rightarrow> load_loop env ins f (i + 1) count errors s
      | Some (LineOk line) \<Rightarrow>
          if skipped (trim line) then load_loop env ins f (i + 1) count errors s
          else
            (case ins i of
               SpiReturnsOk \<Rightarrow> load_loop env ins f (i + 1) (count + 1) errors
                 (on_blacklist (insert_loaded (de_now env) (trim line)) s)
             | SpiReturnsErr \<Rightarrow> load_loop env ins f (i + 1) count (errors + 1) s
             | SpiRaises \<Rightarrow> Some (s, Inl (SpiError ''insert blacklist''))))"

definition blacklist_path :: "string option \<Rightarrow> string option \<Rightarrow> string" where
  "blacklist_path file_path pgdata =
     (case file_path of
        Some p \<Rightarrow> p
      | None \<Rightarrow> (case pgdata of Some d \<Rightarrow> d | None \<Rightarrow> ''/var/lib/pgsql/16/data'') @ ''/password_profile_blacklist.txt'')"

text \<open>The superuser test comes before the path is resolved or opened.\<close>

definition load_blacklist_from_file ::
  "db_env \<Rightarrow> (nat \<Rightarrow> spi_outcome) \<Rightarrow> bool \<Rightarrow> (string \<Rightarrow> server_file option) \<Rightarrow> string option \<Rightarrow> string option
    \<Rightarrow> session \<Rightarrow> (nat \<times> nat) db_result option" where
  "load_blacklist_from_file env ins superuser fs pgdata file_path s =
     (if \<not> superuser
      then Some (s, Inl (DbError ''permission denied: superuser is required to load a blacklist file''))
      else case fs (blacklist_path file_path pgdata) of
        None \<Rightarrow> Some (s, Inl (DbError ''Failed to open blacklist file''))
      | Some f \<Rightarrow> load_loop env ins f 0 0 0 s)"

section \<open>What is loaded\<close>

text \<open>The passwords of a file: its valid lines, trimmed, without empty ones and comments.\<close>

definition listed_passwords :: "byte list list \<Rightarrow> rust_str list" where
  "listed_passwords ls = filter (\<lambda>p. \<not> skipped p) (map trim (filter utf8_valid ls))"

lemma insert_loaded_dom: "dom (map_of (insert_loaded now p t)) = insert p (dom (map_of t))"
  by (auto simp: insert_loaded_def)

lemma insert_loaded_keeps: "map_of t q = Some r \<Longrightarrow> map_of (insert_loaded now p t) q = Some r"
  by (auto simp: insert_loaded_def)

definition load_all :: "timestamp \<Rightarrow> rust_str list \<Rightarrow> session \<Rightarrow> session" where
  "load_all now ps s = fold (\<lambda>p. on_blacklist (insert_loaded now p)) ps s"

lemma load_loop_regular:
  assumes "\<And>i. ins i = SpiReturnsOk"
  shows "load_loop env ins (RegularFile c) i count errors s =
    Some (load_all (de_now env) (listed_passwords (drop i (split_lines c))) s,
          Inr (count + length (listed_passwords (drop i (split_lines c))), errors))"
proof (induction "length (split_lines c) - i" arbitrary: i count s)
  case 0
  then show ?case
    by (subst load_loop.simps) (simp add: next_line_def listed_passwords_def load_all_def)
next
  case (Suc n)
  let ?ls = "split_lines c"
  have i: "i < length ?ls" using Suc.hyps(2) by simp
  have d: "drop i ?ls = ?ls ! i # drop (i + 1) ?ls" using i by (simp add: Cons_nth_drop_Suc)
  note IH = Suc.hyps(1) [of "i + 1"]
  have n: "n = length ?ls - (i + 1)" using Suc.hyps(2) by simp
  show ?case
  proof (cases "utf8_valid (?ls ! i)")
    case False
    then show ?thesis
      by (subst load_loop.simps) (use IH n i d in \<open>simp add: next_line_def listed_passwords_def\<close>)
  next
    case True
    then show ?thesis
      by (subst load_loop.simps)
        (use IH n i d assms in \<open>simp add: next_line_def listed_passwords_def load_all_def\<close>)
  qed
qed

lemma load_all_blacklist:
  "dom (map_of (db_blacklist (ss_db (load_all now ps s)))) = dom (map_of (db_blacklist (ss_db s))) \<union> set ps"
  "map_of (db_blacklist (ss_db s)) q = Some r \<Longrightarrow> map_of (db_blacklist (ss_db (load_all now ps s))) q = Some r"
  by (induction ps arbitrary: s)
    (auto simp: load_all_def on_blacklist_def insert_loaded_dom insert_loaded_keeps)

text \<open>
  Property C30: loading a regular file ends and lists exactly its passwords. When a superuser loads a
  file and the insertions succeed, the function returns, the blacklist afterwards is the one before
  together with the trimmed valid lines that are neither empty nor comments, rows that were there keep
  their date and reason, and the report counts one per such line.
\<close>
theorem blacklist_load_is_complete:
  assumes "fs (blacklist_path file_path pgdata) = Some (RegularFile c)" and "\<And>i. ins i = SpiReturnsOk"
  shows "\<exists>s1. load_blacklist_from_file env ins True fs pgdata file_path s =
      Some (s1, Inr (length (listed_passwords (split_lines c)), 0))
    \<and> dom (map_of (db_blacklist (ss_db s1))) =
        dom (map_of (db_blacklist (ss_db s))) \<union> set (listed_passwords (split_lines c))
    \<and> (\<forall>q r. map_of (db_blacklist (ss_db s)) q = Some r \<longrightarrow> map_of (db_blacklist (ss_db s1)) q = Some r)"
  using load_loop_regular [OF assms(2), where env = env and c = c and i = 0 and count = 0 and errors = 0 and s = s]
    load_all_blacklist
  by (simp add: load_blacklist_from_file_def assms(1))

theorem blacklist_load_is_complete_witness:
  "\<exists>s1. load_blacklist_from_file (plain_env 5) (\<lambda>_. SpiReturnsOk) True
      (\<lambda>p. if p = ''/d/password_profile_blacklist.txt'' then Some (RegularFile (map of_char ''a'')) else None)
      (Some ''/d'') None fresh_session = Some (s1, Inr (1, 0))
    \<and> map of_char ''a'' \<in> dom (map_of (db_blacklist (ss_db s1)))"
proof -
  let ?c = "map of_char ''a'' :: byte list"
  have l: "listed_passwords (split_lines ?c) = [?c]"
    by (simp add: listed_passwords_def split_lines.simps [of "[97]"] trim_def trim_start.simps [of "[97]"]
        trim_end.simps [of "[97]"] white_space_def skipped_def suffix_def utf8_valid_ascii)
  let ?fs = "\<lambda>p. if p = ''/d/password_profile_blacklist.txt'' then Some (RegularFile ?c) else None"
  have f: "?fs (blacklist_path None (Some ''/d'')) = Some (RegularFile ?c)" by (simp add: blacklist_path_def)
  obtain s1 where "load_blacklist_from_file (plain_env 5) (\<lambda>_. SpiReturnsOk) True ?fs (Some ''/d'') None fresh_session =
      Some (s1, Inr (length (listed_passwords (split_lines ?c)), 0))"
    and "dom (map_of (db_blacklist (ss_db s1))) =
      dom (map_of (db_blacklist (ss_db fresh_session))) \<union> set (listed_passwords (split_lines ?c))"
    using blacklist_load_is_complete [where fs = ?fs and ins = "\<lambda>_. SpiReturnsOk", OF f refl] by blast
  then show ?thesis unfolding l by (intro exI [of _ s1]) (simp del: list.map)
qed

lemma load_loop_not_directory: "load_loop env ins f i count errors s = Some r \<Longrightarrow> f \<noteq> Directory"
  by (rule load_loop.raw_induct [where P = "\<lambda>env ins f i count errors s r. f \<noteq> Directory"])
    (auto simp: next_line_def split: server_file.splits, blast)

lemma load_loop_directory: "load_loop env ins Directory i count errors s = None"
  using load_loop_not_directory [where f = Directory] by (cases "load_loop env ins Directory i count errors s") auto

text \<open>
  Property C31: loading a directory never returns. When the path names a directory, opening it succeeds
  and every read fails; the loop passes over failed reads, so it goes on for ever and the statement
  neither reports nor ends.
\<close>
theorem directory_load_never_returns:
  assumes "fs (blacklist_path file_path pgdata) = Some Directory"
  shows "load_blacklist_from_file env ins True fs pgdata file_path s = None"
  using assms by (simp add: load_blacklist_from_file_def load_loop_directory)

theorem directory_load_never_returns_witness:
  "load_blacklist_from_file (plain_env 5) (\<lambda>_. SpiReturnsOk) True (\<lambda>_. Some Directory) None (Some ''/tmp'') fresh_session = None"
  by (rule directory_load_never_returns) simp

end
