(* ===== verification/Lock_Order.thy ===== *)
theory Lock_Order
  imports Worker_Txn
begin

text \<open>
  The locks of the extension: the LWLocks of \<^verbatim>\<open>lib.rs\<close> that guard shared memory, taken by a guard and
  released when it is dropped, and the advisory locks that serialise the transactions on the state of a
  role. A process is a list of acquisitions and releases; processes interleave. The locale \<open>lock_order\<close>
  derives from an order on the locks that no interleaving gets stuck.
\<close>

section \<open>Processes that take locks\<close>

datatype LwLockMode = LwShared | LwExclusive

datatype 'l lock_action = Acquire 'l LwLockMode | Release 'l

record 'l proc =
  pr_held :: "('l \<times> LwLockMode) list"
  pr_todo :: "'l lock_action list"

text \<open>A lock is granted unless some process holds it in a conflicting mode.\<close>

definition grantable :: "'l \<Rightarrow> LwLockMode \<Rightarrow> 'l proc list \<Rightarrow> bool" where
  "grantable l m ps \<longleftrightarrow>
     (case m of
        LwExclusive \<Rightarrow> \<forall>p \<in> set ps. l \<notin> fst ` set (pr_held p)
      | LwShared \<Rightarrow> \<forall>p \<in> set ps. (l, LwExclusive) \<notin> set (pr_held p))"

fun remove_lock :: "'l \<Rightarrow> ('l \<times> LwLockMode) list \<Rightarrow> ('l \<times> LwLockMode) list" where
  "remove_lock l [] = []"
| "remove_lock l ((k, m) # hs) = (if k = l then hs else (k, m) # remove_lock l hs)"

inductive lock_step :: "'l proc list \<Rightarrow> 'l proc list \<Rightarrow> bool" where
  step_acquire: "i < length ps \<Longrightarrow> pr_todo (ps ! i) = Acquire l m # rest \<Longrightarrow> grantable l m ps
    \<Longrightarrow> lock_step ps (ps[i := \<lparr>pr_held = (l, m) # pr_held (ps ! i), pr_todo = rest\<rparr>])"
| step_release: "i < length ps \<Longrightarrow> pr_todo (ps ! i) = Release l # rest
    \<Longrightarrow> lock_step ps (ps[i := \<lparr>pr_held = remove_lock l (pr_held (ps ! i)), pr_todo = rest\<rparr>])"

inductive_cases lock_stepE: "lock_step ps qs"

definition finished :: "'l proc \<Rightarrow> bool" where
  "finished p \<longleftrightarrow> pr_todo p = [] \<and> pr_held p = []"

text \<open>No two processes hold a lock that one of them holds exclusively.\<close>

definition exclusive :: "'l proc list \<Rightarrow> bool" where
  "exclusive ps \<longleftrightarrow> (\<forall>i < length ps. \<forall>j < length ps. \<forall>l. i \<noteq> j \<longrightarrow> (l, LwExclusive) \<in> set (pr_held (ps ! i))
     \<longrightarrow> l \<notin> fst ` set (pr_held (ps ! j)))"

definition actions_left :: "'l proc list \<Rightarrow> nat" where
  "actions_left ps = (\<Sum>p\<leftarrow>ps. length (pr_todo p))"

definition processes :: "('c \<Rightarrow> 'l lock_action list) \<Rightarrow> 'c list list \<Rightarrow> 'l proc list" where
  "processes actions css = map (\<lambda>cs. \<lparr>pr_held = [], pr_todo = concat (map actions cs)\<rparr>) css"

text \<open>
  Properly nested actions that take a lock only above all the locks held: \<open>st\<close> are the locks held, the
  last one first.
\<close>

fun ordered :: "('l \<Rightarrow> 'r::linorder) \<Rightarrow> 'l list \<Rightarrow> 'l lock_action list \<Rightarrow> bool" where
  "ordered rank st [] \<longleftrightarrow> st = []"
| "ordered rank st (Acquire l m # as) \<longleftrightarrow> (\<forall>k \<in> set st. rank k < rank l) \<and> ordered rank (l # st) as"
| "ordered rank st (Release l # as) \<longleftrightarrow> st \<noteq> [] \<and> hd st = l \<and> ordered rank (tl st) as"

section \<open>What holds of every interleaving\<close>

lemma remove_lock_subset: "set (remove_lock l hs) \<subseteq> set hs"
  by (induction l hs rule: remove_lock.induct) auto

lemma remove_lock_hd: "hs \<noteq> [] \<Longrightarrow> fst (hd hs) = l \<Longrightarrow> remove_lock l hs = tl hs"
  by (cases hs) auto

lemma grantable_compatible:
  assumes "grantable l m ps" "p \<in> set ps"
  shows "(l, LwExclusive) \<notin> set (pr_held p)" and "m = LwExclusive \<Longrightarrow> l \<notin> fst ` set (pr_held p)"
  using assms by (force simp: grantable_def split: LwLockMode.splits)+

lemma exclusive_fewer:
  assumes "exclusive ps" "i < length ps" "set (pr_held p) \<subseteq> set (pr_held (ps ! i))"
  shows "exclusive (ps[i := p])"
proof -
  have sub: "set (pr_held (ps[i := p] ! j)) \<subseteq> set (pr_held (ps ! j))" for j
    using assms(2,3) by (cases "i = j") auto
  show ?thesis unfolding exclusive_def
  proof (intro allI impI)
    fix j k l
    assume "j < length (ps[i := p])" "k < length (ps[i := p])" "j \<noteq> k" "(l, LwExclusive) \<in> set (pr_held (ps[i := p] ! j))"
    then have "l \<notin> fst ` set (pr_held (ps ! k))" using assms(1) sub [of j] by (auto simp: exclusive_def)
    then show "l \<notin> fst ` set (pr_held (ps[i := p] ! k))" using sub [of k] by blast
  qed
qed

lemma lock_step_exclusive:
  assumes "lock_step ps qs" "exclusive ps" shows "exclusive qs"
  using assms(1)
proof (cases rule: lock_step.cases)
  case (step_acquire i l m rest)
  then show ?thesis
    using assms(2) grantable_compatible [OF step_acquire(4) nth_mem]
    by (auto simp: exclusive_def nth_list_update)
next
  case (step_release i l rest)
  then show ?thesis unfolding step_release(1) by (intro exclusive_fewer assms(2)) (simp_all add: remove_lock_subset)
qed

lemma actions_left_update:
  "i < length ps \<Longrightarrow> pr_todo (ps ! i) = a # rest
    \<Longrightarrow> Suc (actions_left (ps[i := \<lparr>pr_held = h, pr_todo = rest\<rparr>])) = actions_left ps"
proof (induction ps arbitrary: i)
  case (Cons p ps) then show ?case by (cases i) (auto simp: actions_left_def)
qed simp

lemma lock_step_actions: "lock_step ps qs \<Longrightarrow> Suc (actions_left qs) = actions_left ps"
  by (elim lock_stepE) (auto intro: actions_left_update)

lemma lock_steps_actions: "(lock_step ^^ n) ps qs \<Longrightarrow> n + actions_left qs = actions_left ps"
  by (induction n arbitrary: qs) (auto dest!: lock_step_actions, metis add_Suc_right)

section \<open>Ordered locks\<close>

lemma ordered_append: "ordered rank st as \<Longrightarrow> ordered rank [] bs \<Longrightarrow> ordered rank st (as @ bs)"
  by (induction rank st as rule: ordered.induct) auto

text \<open>The calls a process may make, and an order on their locks that each safe one respects.\<close>

locale lock_order =
  fixes rank :: "'l \<Rightarrow> 'r::linorder" and actions :: "'c \<Rightarrow> 'l lock_action list" and safe :: "'c \<Rightarrow> bool"
  assumes actions_ordered: "safe c \<Longrightarrow> ordered rank [] (actions c)"
begin

definition well_ordered :: "'l proc list \<Rightarrow> bool" where
  "well_ordered ps \<longleftrightarrow> (\<forall>p \<in> set ps. ordered rank (map fst (pr_held p)) (pr_todo p))"

lemma calls_ordered: "(\<And>c. c \<in> set cs \<Longrightarrow> safe c) \<Longrightarrow> ordered rank [] (concat (map actions cs))"
  by (induction cs) (auto intro: ordered_append actions_ordered)

lemma start_well_ordered:
  "(\<And>cs c. cs \<in> set css \<Longrightarrow> c \<in> set cs \<Longrightarrow> safe c) \<Longrightarrow> well_ordered (processes actions css)"
  by (auto simp: well_ordered_def processes_def intro: calls_ordered)

lemma well_ordered_update:
  assumes "well_ordered ps" "ordered rank (map fst (pr_held p)) (pr_todo p)"
  shows "well_ordered (ps[i := p])"
  using assms set_update_subset_insert [of ps i p] unfolding well_ordered_def by blast

lemma step_well_ordered:
  assumes "lock_step ps qs" "well_ordered ps" shows "well_ordered qs"
  using assms(1)
proof (cases rule: lock_step.cases)
  case (step_acquire i l m rest)
  have "ordered rank (map fst (pr_held (ps ! i))) (Acquire l m # rest)"
    using assms(2) nth_mem [OF step_acquire(2)] step_acquire(3) by (metis well_ordered_def)
  then show ?thesis unfolding step_acquire(1) by (intro well_ordered_update assms(2)) simp
next
  case (step_release i l rest)
  have "ordered rank (map fst (pr_held (ps ! i))) (Release l # rest)"
    using assms(2) nth_mem [OF step_release(2)] step_release(3) by (metis well_ordered_def)
  then have "pr_held (ps ! i) \<noteq> []" "fst (hd (pr_held (ps ! i))) = l" "ordered rank (map fst (tl (pr_held (ps ! i)))) rest"
    by (auto simp: hd_map map_tl)
  then show ?thesis
    unfolding step_release(1) by (intro well_ordered_update assms(2)) (simp add: remove_lock_hd)
qed

text \<open>
  Progress. Among the processes that wait, take one whose wanted lock ranks highest: its holder cannot
  wait itself, because it would wait for a lock of higher rank.
\<close>

definition wants :: "'l proc \<Rightarrow> 'l" where
  "wants p = (case pr_todo p of Acquire l m # _ \<Rightarrow> l | Release l # _ \<Rightarrow> l)"

lemma stuck_wants_higher:
  assumes "well_ordered ps" "\<And>qs. \<not> lock_step ps qs" "p \<in> set ps" "pr_todo p \<noteq> []"
  shows "\<exists>q \<in> set ps. pr_todo q \<noteq> [] \<and> rank (wants p) < rank (wants q)"
proof -
  obtain i where i: "i < length ps" "ps ! i = p" using assms(3) by (auto simp: in_set_conv_nth)
  have stuck: "\<exists>l m rest. pr_todo q = Acquire l m # rest \<and> \<not> grantable l m ps" if q: "q \<in> set ps" "pr_todo q \<noteq> []" for q
  proof -
    obtain j where j: "j < length ps" "ps ! j = q" using q(1) by (auto simp: in_set_conv_nth)
    obtain a rest where a: "pr_todo q = a # rest" using q(2) by (cases "pr_todo q") auto
    then show ?thesis using step_release [OF j(1)] step_acquire [OF j(1)] j(2) assms(2) by (cases a) blast+
  qed
  obtain l m rest where l: "pr_todo p = Acquire l m # rest" "\<not> grantable l m ps" using stuck [OF assms(3,4)] by blast
  then obtain q where q: "q \<in> set ps" "l \<in> fst ` set (pr_held q)"
    by (force simp: grantable_def split: LwLockMode.splits)
  have o: "ordered rank (map fst (pr_held q)) (pr_todo q)" using assms(1) q(1) by (simp add: well_ordered_def)
  then have "pr_todo q \<noteq> []" using q(2) by auto
  with stuck [OF q(1)] obtain l1 m1 rest1 where l1: "pr_todo q = Acquire l1 m1 # rest1" by blast
  then have "rank l < rank l1" using o q(2) by auto
  then show ?thesis using q(1) l(1) l1 by (intro bexI [of _ q]) (simp_all add: wants_def)
qed

lemma progress:
  assumes "well_ordered ps" "p \<in> set ps" "\<not> finished p"
  shows "\<exists>qs. lock_step ps qs"
proof (rule ccontr)
  assume "\<nexists>qs. lock_step ps qs"
  then have stuck: "\<And>qs. \<not> lock_step ps qs" by blast
  let ?W = "{p \<in> set ps. pr_todo p \<noteq> []}"
  have "ordered rank (map fst (pr_held p)) (pr_todo p)" using assms(1,2) by (simp add: well_ordered_def)
  then have "p \<in> ?W" using assms(2,3) by (auto simp: finished_def)
  then have "finite ?W" "?W \<noteq> {}" by auto
  then obtain q where q: "q \<in> ?W" "rank (wants q) = Max ((\<lambda>p. rank (wants p)) ` ?W)"
    using Max_in [of "(\<lambda>p. rank (wants p)) ` ?W"] by fastforce
  then obtain r where "r \<in> ?W" "rank (wants q) < rank (wants r)" using stuck_wants_higher [OF assms(1) stuck, of q] by blast
  moreover have "rank (wants r) \<le> rank (wants q)" using q(2) calculation(1) \<open>finite ?W\<close> by simp
  ultimately show False by simp
qed

lemma runs_to_the_end:
  assumes "well_ordered ps"
  shows "\<exists>qs. lock_step\<^sup>*\<^sup>* ps qs \<and> (\<forall>q \<in> set qs. finished q)"
  using assms
proof (induction "actions_left ps" arbitrary: ps rule: less_induct)
  case less
  show ?case
  proof (cases "\<forall>p \<in> set ps. finished p")
    case False
    then obtain qs where qs: "lock_step ps qs" using progress [OF less.prems] by blast
    then have "actions_left qs < actions_left ps" using lock_step_actions [OF qs] by simp
    from less.hyps [OF this step_well_ordered [OF qs less.prems]] qs show ?thesis
      by (meson converse_rtranclp_into_rtranclp)
  qed auto
qed

lemma reachable_well_ordered:
  assumes "lock_step\<^sup>*\<^sup>* (processes actions css) ps" "\<And>cs c. cs \<in> set css \<Longrightarrow> c \<in> set cs \<Longrightarrow> safe c"
  shows "well_ordered ps \<and> exclusive ps"
  using assms(1)
proof (induction rule: rtranclp_induct)
  case base
  show ?case using start_well_ordered [OF assms(2)] by (simp add: exclusive_def processes_def)
qed (simp add: step_well_ordered lock_step_exclusive)

lemma never_stuck:
  assumes "lock_step\<^sup>*\<^sup>* (processes actions css) ps" "\<And>cs c. cs \<in> set css \<Longrightarrow> c \<in> set cs \<Longrightarrow> safe c"
  shows "exclusive ps \<and> ((\<forall>p \<in> set ps. finished p) \<or> (\<exists>qs. lock_step ps qs))
    \<and> (\<exists>qs. lock_step\<^sup>*\<^sup>* ps qs \<and> (\<forall>q \<in> set qs. finished q))
    \<and> (\<forall>n qs. (lock_step ^^ n) ps qs \<longrightarrow> n \<le> actions_left ps)"
proof -
  have w: "well_ordered ps" "exclusive ps" using reachable_well_ordered [OF assms] by simp_all
  have "n \<le> actions_left ps" if "(lock_step ^^ n) ps qs" for n qs using lock_steps_actions [OF that] by simp
  then show ?thesis using w progress [OF w(1)] runs_to_the_end [OF w(1)] by blast
qed

end

section \<open>The locks of shared memory\<close>

datatype lwlock = LOCK_CACHE_LWLOCK | AUTH_EVENT_LWLOCK | EXPIRY_CACHE_LWLOCK | BYPASS_CACHE_LWLOCK

text \<open>A guard: the lock is acquired, the body runs, the drop of the guard releases the lock.\<close>

definition LwLockGuard :: "'l \<Rightarrow> LwLockMode \<Rightarrow> 'l lock_action list \<Rightarrow> 'l lock_action list" where
  "LwLockGuard l mode body = Acquire l mode # body @ [Release l]"

datatype lock_cache_call = LockCacheState | LockCacheSetState | LockCacheSet | LockCacheClear
  | LockCacheRemainingSeconds | LockCacheApplyHydrated | LockCacheCollectStats

fun lock_cache_sections :: "lock_cache_call \<Rightarrow> lwlock lock_action list" where
  "lock_cache_sections LockCacheState = LwLockGuard LOCK_CACHE_LWLOCK LwShared []"
| "lock_cache_sections LockCacheSetState = LwLockGuard LOCK_CACHE_LWLOCK LwExclusive []"
| "lock_cache_sections LockCacheSet = LwLockGuard LOCK_CACHE_LWLOCK LwExclusive []"
| "lock_cache_sections LockCacheClear = LwLockGuard LOCK_CACHE_LWLOCK LwExclusive []"
| "lock_cache_sections LockCacheRemainingSeconds = LwLockGuard LOCK_CACHE_LWLOCK LwShared []"
| "lock_cache_sections LockCacheApplyHydrated = LwLockGuard LOCK_CACHE_LWLOCK LwExclusive []"
| "lock_cache_sections LockCacheCollectStats = LwLockGuard LOCK_CACHE_LWLOCK LwShared []"

datatype auth_event_call = AuthState | AuthMarkCorrupt | AuthEnqueue | AuthClaim | AuthRotateJournal
  | AuthRecoverCorruptRing | AuthAckClaim | AuthStats

fun auth_event_sections :: "auth_event_call \<Rightarrow> lwlock lock_action list" where
  "auth_event_sections AuthState = LwLockGuard AUTH_EVENT_LWLOCK LwShared []"
| "auth_event_sections AuthMarkCorrupt = LwLockGuard AUTH_EVENT_LWLOCK LwExclusive []"
| "auth_event_sections AuthEnqueue = LwLockGuard AUTH_EVENT_LWLOCK LwExclusive []"
| "auth_event_sections AuthClaim = LwLockGuard AUTH_EVENT_LWLOCK LwExclusive []"
| "auth_event_sections AuthRotateJournal = LwLockGuard AUTH_EVENT_LWLOCK LwExclusive []"
| "auth_event_sections AuthRecoverCorruptRing = LwLockGuard AUTH_EVENT_LWLOCK LwExclusive []"
| "auth_event_sections AuthAckClaim = LwLockGuard AUTH_EVENT_LWLOCK LwExclusive []"
| "auth_event_sections AuthStats = LwLockGuard AUTH_EVENT_LWLOCK LwShared []"

datatype expiry_cache_call = ExpiryCacheState | ExpiryCacheSetState | ExpiryCacheLookup | ExpiryCacheTryConsumeGrace bool
  | ExpiryCacheSetEntry | ExpiryCacheClearEntry | ExpiryCacheApplyHydrated | ExpiryCacheStats

text \<open>
  \<^verbatim>\<open>try_consume_grace\<close> holds the lock of the expiry cache while it enqueues the event; the flag tells
  whether it comes to that.
\<close>

fun expiry_cache_sections :: "expiry_cache_call \<Rightarrow> lwlock lock_action list" where
  "expiry_cache_sections ExpiryCacheState = LwLockGuard EXPIRY_CACHE_LWLOCK LwShared []"
| "expiry_cache_sections ExpiryCacheSetState = LwLockGuard EXPIRY_CACHE_LWLOCK LwExclusive []"
| "expiry_cache_sections ExpiryCacheLookup = LwLockGuard EXPIRY_CACHE_LWLOCK LwShared []"
| "expiry_cache_sections (ExpiryCacheTryConsumeGrace enqueues) =
     LwLockGuard EXPIRY_CACHE_LWLOCK LwExclusive (if enqueues then auth_event_sections AuthEnqueue else [])"
| "expiry_cache_sections ExpiryCacheSetEntry = LwLockGuard EXPIRY_CACHE_LWLOCK LwExclusive []"
| "expiry_cache_sections ExpiryCacheClearEntry = LwLockGuard EXPIRY_CACHE_LWLOCK LwExclusive []"
| "expiry_cache_sections ExpiryCacheApplyHydrated = LwLockGuard EXPIRY_CACHE_LWLOCK LwExclusive []"
| "expiry_cache_sections ExpiryCacheStats = LwLockGuard EXPIRY_CACHE_LWLOCK LwShared []"

datatype bypass_cache_call = BypassCacheState | BypassCacheSetState | BypassCacheLookup | BypassCacheApplyRefreshed
  | BypassCacheStats

fun bypass_cache_sections :: "bypass_cache_call \<Rightarrow> lwlock lock_action list" where
  "bypass_cache_sections BypassCacheState = LwLockGuard BYPASS_CACHE_LWLOCK LwShared []"
| "bypass_cache_sections BypassCacheSetState = LwLockGuard BYPASS_CACHE_LWLOCK LwExclusive []"
| "bypass_cache_sections BypassCacheLookup = LwLockGuard BYPASS_CACHE_LWLOCK LwShared []"
| "bypass_cache_sections BypassCacheApplyRefreshed = LwLockGuard BYPASS_CACHE_LWLOCK LwExclusive []"
| "bypass_cache_sections BypassCacheStats = LwLockGuard BYPASS_CACHE_LWLOCK LwShared []"

datatype shm_call = LockCacheCall lock_cache_call | AuthEventCall auth_event_call | ExpiryCacheCall expiry_cache_call
  | BypassCacheCall bypass_cache_call

fun shm_sections :: "shm_call \<Rightarrow> lwlock lock_action list" where
  "shm_sections (LockCacheCall c) = lock_cache_sections c"
| "shm_sections (AuthEventCall c) = auth_event_sections c"
| "shm_sections (ExpiryCacheCall c) = expiry_cache_sections c"
| "shm_sections (BypassCacheCall c) = bypass_cache_sections c"

text \<open>The order the source documents: the expiry cache before the queue, no other nesting.\<close>

fun lwlock_rank :: "lwlock \<Rightarrow> nat" where
  "lwlock_rank EXPIRY_CACHE_LWLOCK = 0"
| "lwlock_rank _ = 1"

interpretation lw: lock_order lwlock_rank shm_sections "\<lambda>_. True"
proof
  fix c show "ordered lwlock_rank [] (shm_sections c)"
  proof (cases c)
    case (LockCacheCall c1) then show ?thesis by (cases c1) (simp_all add: LwLockGuard_def)
  next
    case (AuthEventCall c1) then show ?thesis by (cases c1) (simp_all add: LwLockGuard_def)
  next
    case (ExpiryCacheCall c1) then show ?thesis by (cases c1) (simp_all add: LwLockGuard_def)
  next
    case (BypassCacheCall c1) then show ?thesis by (cases c1) (simp_all add: LwLockGuard_def)
  qed
qed

text \<open>
  Property C14: the guards of shared memory never deadlock. Let any number of backends and the worker
  call any sequences of the functions on shared memory, interleaved in any way at the acquisition and
  the release of locks. Then at every moment no lock held exclusively is held by a second process; as
  long as some call is not finished, some process can go on; whatever has happened so far, all calls
  can be completed; and the number of further steps is bounded by the actions left.
\<close>
theorem shared_memory_guards_never_deadlock:
  assumes "lock_step\<^sup>*\<^sup>* (processes shm_sections css) ps"
  shows "exclusive ps \<and> ((\<forall>p \<in> set ps. finished p) \<or> (\<exists>qs. lock_step ps qs))
    \<and> (\<exists>qs. lock_step\<^sup>*\<^sup>* ps qs \<and> (\<forall>q \<in> set qs. finished q))
    \<and> (\<forall>n qs. (lock_step ^^ n) ps qs \<longrightarrow> n \<le> actions_left ps)"
  using lw.never_stuck [OF assms] by blast

theorem shared_memory_guards_never_deadlock_witness:
  "\<exists>qs. lock_step\<^sup>*\<^sup>* (processes shm_sections
        [[ExpiryCacheCall (ExpiryCacheTryConsumeGrace True)], [AuthEventCall AuthRotateJournal, ExpiryCacheCall ExpiryCacheApplyHydrated]]) qs
     \<and> (\<forall>q \<in> set qs. finished q)"
  using shared_memory_guards_never_deadlock [OF rtranclp.rtrancl_refl,
      of "[[ExpiryCacheCall (ExpiryCacheTryConsumeGrace True)], [AuthEventCall AuthRotateJournal, ExpiryCacheCall ExpiryCacheApplyHydrated]]"]
  by blast

section \<open>The advisory locks\<close>

text \<open>
  An advisory lock is a namespace and the key of a role name; the name stands for its key. The locks are
  taken in the order of the statements and kept to the end of the transaction.
\<close>

datatype advisory_lock = LoginAttemptLock username | PasswordHistoryLock username

datatype role_txn = CountFailure username | ClearAttempts username | RecordPassword username
  | PersistGrace username bool | RenameRoleState username username | RemoveRoleState username

definition role_state_locks :: "username \<Rightarrow> username option \<Rightarrow> advisory_lock list" where
  "role_state_locks first second =
     map LoginAttemptLock (role_state_lock_order first second) @ map PasswordHistoryLock (role_state_lock_order first second)"

text \<open>The event of a grace login persists the consumption and then, if flagged, clears the failed logins.\<close>

fun advisory_locks :: "role_txn \<Rightarrow> advisory_lock list" where
  "advisory_locks (CountFailure u) = [LoginAttemptLock u]"
| "advisory_locks (ClearAttempts u) = [LoginAttemptLock u]"
| "advisory_locks (RecordPassword u) = [PasswordHistoryLock u]"
| "advisory_locks (PersistGrace u clear) = PasswordHistoryLock u # (if clear then [LoginAttemptLock u] else [])"
| "advisory_locks (RenameRoleState old new) = role_state_locks old (Some new)"
| "advisory_locks (RemoveRoleState u) = role_state_locks u None"

definition role_txn_actions :: "role_txn \<Rightarrow> advisory_lock lock_action list" where
  "role_txn_actions t =
     map (\<lambda>l. Acquire l LwExclusive) (advisory_locks t) @ map Release (rev (advisory_locks t))"

text \<open>The order of the role functions: first the failed logins, then the history, each by name.\<close>

fun advisory_rank :: "advisory_lock \<Rightarrow> byte list" where
  "advisory_rank (LoginAttemptLock u) = 0 # u"
| "advisory_rank (PasswordHistoryLock u) = 1 # u"

fun single_order :: "role_txn \<Rightarrow> bool" where
  "single_order (PersistGrace u clear) \<longleftrightarrow> \<not> clear"
| "single_order _ \<longleftrightarrow> True"

lemma ordered_releases: "ordered rank (map f ls) (map (Release \<circ> f) ls)"
  by (induction ls) simp_all

lemma ordered_transaction:
  assumes "sorted_wrt (\<lambda>k l. rank k < rank l) ls" "\<forall>k \<in> set st. \<forall>l \<in> set ls. rank k < rank l"
  shows "ordered rank st (map (\<lambda>l. Acquire l m) ls @ map Release (rev ls) @ map Release st)"
  using assms
proof (induction ls arbitrary: st)
  case Nil
  show ?case using ordered_releases [of rank id st] by (simp add: comp_def)
next
  case (Cons l ls)
  have "ordered rank (l # st) (map (\<lambda>l. Acquire l m) ls @ map Release (rev ls) @ map Release (l # st))"
    using Cons.prems by (intro Cons.IH) auto
  then show ?case using Cons.prems(2) by simp
qed

lemma role_state_lock_order_sorted: "sorted_wrt (<) (role_state_lock_order first second)"
  by (auto simp: role_state_lock_order_def strict_sorted_iff split: option.split)

lemma role_state_locks_sorted:
  "sorted_wrt (\<lambda>k l. advisory_rank k < advisory_rank l) (role_state_locks first second)"
  using role_state_lock_order_sorted [of first second]
  by (simp add: role_state_locks_def sorted_wrt_append sorted_wrt_map)

interpretation adv: lock_order advisory_rank role_txn_actions single_order
proof
  fix t assume "single_order t"
  then have "sorted_wrt (\<lambda>k l. advisory_rank k < advisory_rank l) (advisory_locks t)"
    by (cases t) (auto simp: role_state_locks_sorted)
  from ordered_transaction [OF this, of "[]"] show "ordered advisory_rank [] (role_txn_actions t)"
    by (simp add: role_txn_actions_def)
qed

text \<open>As long as no grace login clears failed logins, transactions on the state of roles do not deadlock.\<close>

lemma role_transactions_never_deadlock:
  assumes "lock_step\<^sup>*\<^sup>* (processes role_txn_actions tss) ps" "\<And>ts t. ts \<in> set tss \<Longrightarrow> t \<in> set ts \<Longrightarrow> single_order t"
  shows "(\<forall>p \<in> set ps. finished p) \<or> (\<exists>qs. lock_step ps qs)"
  using adv.never_stuck [OF assms(1)] assms(2) by blast

text \<open>
  The order in which the modelled operations issue the lock statements: when both would fail, the error
  is that of the one issued first.
\<close>

lemma first_lock_statement:
  assumes "\<not> de_spi (te_db te) ''lock password history''" "\<not> de_spi (te_db te) ''lock login attempts''"
  shows "snd (apply_event te g u GraceConsumed flags_clear gen s) = Inl (SpiError ''lock password history'')"
    and "de_spi (te_db te) ''select roles'' \<Longrightarrow> u \<noteq> [] \<Longrightarrow> \<not> ct_role_exists cat u
      \<Longrightarrow> snd (remove_role_state (te_db te) cat True True u s) = Inl (SpiError ''lock login attempts'')"
  using assms
  by (simp_all add: apply_event_def persist_grace_consumption_def spi_def remove_role_state_def lock_role_state_names_def
      role_state_lock_order_def)

text \<open>
  Property C15: the worker and the removal of a role can deadlock. The worker's transaction for a grace
  login that clears failed logins takes the history lock of the role before its failed-login lock, the
  functions that move or remove the state of a role take them the other way round: there is an
  interleaving after which both transactions wait for each other and neither can go on.
\<close>
theorem grace_event_and_removal_can_deadlock:
  "\<exists>ps. lock_step\<^sup>*\<^sup>* (processes role_txn_actions [[PersistGrace u True], [RemoveRoleState u]]) ps
     \<and> list_all (\<lambda>p. \<not> finished p) ps \<and> (\<nexists>qs. lock_step ps qs)"
proof -
  let ?L = "LoginAttemptLock u" and ?H = "PasswordHistoryLock u"
  let ?p0 = "\<lparr>pr_held = [], pr_todo = [Acquire ?H LwExclusive, Acquire ?L LwExclusive, Release ?L, Release ?H]\<rparr>"
  let ?q0 = "\<lparr>pr_held = [], pr_todo = [Acquire ?L LwExclusive, Acquire ?H LwExclusive, Release ?H, Release ?L]\<rparr>"
  let ?p1 = "\<lparr>pr_held = [(?H, LwExclusive)], pr_todo = [Acquire ?L LwExclusive, Release ?L, Release ?H]\<rparr>"
  let ?q1 = "\<lparr>pr_held = [(?L, LwExclusive)], pr_todo = [Acquire ?H LwExclusive, Release ?H, Release ?L]\<rparr>"
  have start: "processes role_txn_actions [[PersistGrace u True], [RemoveRoleState u]] = [?p0, ?q0]"
    by (simp add: processes_def role_txn_actions_def role_state_locks_def role_state_lock_order_def)
  have "lock_step [?p0, ?q0] [?p1, ?q0]"
    using step_acquire [of 0 "[?p0, ?q0]" ?H LwExclusive] by (simp add: grantable_def)
  moreover have "lock_step [?p1, ?q0] [?p1, ?q1]"
    using step_acquire [of 1 "[?p1, ?q0]" ?L LwExclusive] by (simp add: grantable_def)
  ultimately have "lock_step\<^sup>*\<^sup>* [?p0, ?q0] [?p1, ?q1]" by simp
  moreover have "\<nexists>qs. lock_step [?p1, ?q1] qs"
    by (auto elim!: lock_stepE simp: less_Suc_eq grantable_def)
  ultimately show ?thesis unfolding start by (intro exI [of _ "[?p1, ?q1]"]) (simp add: finished_def)
qed

end
