(* ===== verification/Structured_Log.thy ===== *)
theory Structured_Log
  imports Password_Policy
begin

text \<open>
  The log lines of \<^verbatim>\<open>structured_log.rs\<close>, one definition per function: the severity the line is reported
  with and its text, whose header is a sequence of bracketed fields. \<open>read_log_line\<close> is a consumer of
  these lines: it takes the header apart and recovers the call that wrote the line, which shows that the
  format is parseable for names without a closing bracket.
\<close>

section \<open>Formatting\<close>

text \<open>\<^verbatim>\<open>{}\<close> of an integer: a sign and the decimal digits, no leading zeros.\<close>

fun show_nat :: "nat \<Rightarrow> byte list" where
  "show_nat n = (if n < 10 then [48 + word_of_nat n] else show_nat (n div 10) @ [48 + word_of_nat (n mod 10)])"

declare show_nat.simps [simp del]

definition show_int :: "int \<Rightarrow> byte list" where
  "show_int n = (if n < 0 then 45 # show_nat (nat (- n)) else show_nat (nat n))"

datatype LogLevel = LOG | WARNING | ERROR

type_synonym log_line = "LogLevel \<times> rust_str"

definition ip_str :: "rust_str option \<Rightarrow> rust_str" where
  "ip_str ip = (case ip of Some s \<Rightarrow> s | None \<Rightarrow> bytes_of ''unknown'')"

definition log_password_validated :: "rust_str \<Rightarrow> log_line" where
  "log_password_validated username = (LOG, bytes_of ''[PASSWORD_PROFILE][VALIDATED][user='' @ username
     @ bytes_of ''] Password meets all complexity requirements'')"

definition log_password_rejected :: "rust_str \<Rightarrow> rust_str \<Rightarrow> log_line" where
  "log_password_rejected username reason = (WARNING, bytes_of ''[PASSWORD_PROFILE][REJECTED][user='' @ username
     @ bytes_of ''] '' @ reason)"

definition log_auth_success :: "rust_str \<Rightarrow> rust_str option \<Rightarrow> log_line" where
  "log_auth_success username ip = (LOG, bytes_of ''[PASSWORD_PROFILE][AUTH_SUCCESS][user='' @ username
     @ bytes_of ''][ip='' @ ip_str ip @ bytes_of ''] Login successful, failure count reset'')"

definition log_auth_failed :: "rust_str \<Rightarrow> rust_str option \<Rightarrow> int \<Rightarrow> int \<Rightarrow> log_line" where
  "log_auth_failed username ip attempt_count max_attempts = (WARNING, bytes_of ''[PASSWORD_PROFILE][AUTH_FAILED][user=''
     @ username @ bytes_of ''][ip='' @ ip_str ip @ bytes_of ''][attempt='' @ show_int attempt_count @ bytes_of ''/''
     @ show_int max_attempts @ bytes_of ''] Failed login attempt recorded'')"

definition log_account_locked :: "rust_str \<Rightarrow> rust_str option \<Rightarrow> int \<Rightarrow> log_line" where
  "log_account_locked username ip lockout_minutes = (WARNING, bytes_of ''[PASSWORD_PROFILE][ACCOUNT_LOCKED][user=''
     @ username @ bytes_of ''][ip='' @ ip_str ip @ bytes_of ''][duration='' @ show_int lockout_minutes
     @ bytes_of ''m] Account locked after too many failed attempts'')"

definition log_lockout_block :: "rust_str \<Rightarrow> rust_str option \<Rightarrow> int \<Rightarrow> log_line" where
  "log_lockout_block username ip seconds_remaining = (WARNING, bytes_of ''[PASSWORD_PROFILE][LOCKOUT_BLOCK][user=''
     @ username @ bytes_of ''][ip='' @ ip_str ip @ bytes_of ''][remaining='' @ show_int seconds_remaining
     @ bytes_of ''s] Login blocked, account locked for '' @ show_int seconds_remaining @ bytes_of '' more seconds'')"

definition log_password_expiry_warning :: "rust_str \<Rightarrow> int \<Rightarrow> log_line" where
  "log_password_expiry_warning username days_remaining = (WARNING, bytes_of ''[PASSWORD_PROFILE][EXPIRY_WARNING][user=''
     @ username @ bytes_of ''][days='' @ show_int days_remaining @ bytes_of ''] Password expires in ''
     @ show_int days_remaining @ bytes_of '' days'')"

definition log_password_expired :: "rust_str \<Rightarrow> int \<Rightarrow> log_line" where
  "log_password_expired username grace_logins = (WARNING, bytes_of ''[PASSWORD_PROFILE][EXPIRED][user='' @ username
     @ bytes_of ''][grace='' @ show_int grace_logins @ bytes_of ''] Password expired, '' @ show_int grace_logins
     @ bytes_of '' grace logins remaining'')"

definition log_password_history_violation :: "rust_str \<Rightarrow> int \<Rightarrow> log_line" where
  "log_password_history_violation username history_count = (WARNING, bytes_of ''[PASSWORD_PROFILE][HISTORY_VIOLATION][user=''
     @ username @ bytes_of ''][count='' @ show_int history_count @ bytes_of ''] Password matches recent history'')"

definition log_blacklist_hit :: "rust_str \<Rightarrow> log_line" where
  "log_blacklist_hit username = (WARNING, bytes_of ''[PASSWORD_PROFILE][BLACKLIST_HIT][user='' @ username
     @ bytes_of ''] Password found in common password blacklist'')"

definition log_password_changed :: "rust_str \<Rightarrow> log_line" where
  "log_password_changed username = (LOG, bytes_of ''[PASSWORD_PROFILE][PASSWORD_CHANGED][user='' @ username
     @ bytes_of ''] Password updated and saved to history'')"

definition log_init :: "rust_str \<Rightarrow> log_line" where
  "log_init message = (LOG, bytes_of ''[PASSWORD_PROFILE][INIT] '' @ message)"

definition log_warning :: "rust_str \<Rightarrow> log_line" where
  "log_warning message = (WARNING, bytes_of ''[PASSWORD_PROFILE][WARNING] '' @ message)"

text \<open>\<^verbatim>\<open>pgrx::error!\<close> reports the line and raises; the caller does not continue.\<close>

definition log_error :: "rust_str \<Rightarrow> log_line" where
  "log_error message = (ERROR, bytes_of ''[PASSWORD_PROFILE][ERROR] '' @ message)"

section \<open>Messages handed to C\<close>

text \<open>\<^verbatim>\<open>CString::new\<close> refuses a string with a NUL byte.\<close>

definition CString_new :: "rust_str \<Rightarrow> rust_str option" where
  "CString_new s = (if 0 \<in> set s then None else Some s)"

definition replace_nul :: "rust_str \<Rightarrow> rust_str" where
  "replace_nul s = filter (\<lambda>b. b \<noteq> 0) s"

text \<open>The text of the error the shim raises.\<close>

definition raise_password_change_error :: "rust_str \<Rightarrow> rust_str" where
  "raise_password_change_error reason =
     (case CString_new (replace_nul reason) of
        Some c_reason \<Rightarrow> c_reason
      | None \<Rightarrow> bytes_of ''password policy validation failed'')"

text \<open>What is passed to the shim's \<^verbatim>\<open>password_profile_log_password_validation\<close>.\<close>

definition log_password_validation :: "rust_str \<Rightarrow> rust_str option \<Rightarrow> bool \<Rightarrow> rust_str \<times> rust_str option \<times> bool" where
  "log_password_validation username reason accepted =
     (let c_username = (case CString_new (replace_nul username) of Some s \<Rightarrow> s | None \<Rightarrow> bytes_of ''unknown'');
          c_reason = map_option (\<lambda>value. case CString_new (replace_nul value) of
            Some s \<Rightarrow> s | None \<Rightarrow> bytes_of ''password policy validation failed'') reason
      in (c_username, c_reason, accepted))"

text \<open>No string is ever replaced by its fallback: it only loses its NUL bytes.\<close>

lemma CString_new_replace_nul [simp]: "CString_new (replace_nul s) = Some (replace_nul s)"
  by (auto simp: CString_new_def replace_nul_def)

lemma messages_to_c:
  "raise_password_change_error reason = replace_nul reason"
  "log_password_validation username r accepted = (replace_nul username, map_option replace_nul r, accepted)"
  "0 \<notin> set (replace_nul s)" "0 \<notin> set s \<Longrightarrow> replace_nul s = s"
  by (simp_all add: raise_password_change_error_def log_password_validation_def)
    (auto simp: replace_nul_def filter_id_conv)

section \<open>Reading a line back\<close>

text \<open>The bracketed fields a line starts with, and the text after them.\<close>

function (sequential) brackets :: "byte list \<Rightarrow> byte list list \<times> byte list" where
  "brackets [] = ([], [])"
| "brackets (c # s) =
     (if c = of_char (CHR ''['') \<and> of_char (CHR '']'') \<in> set s
      then let (gs, rest) = brackets (tl (dropWhile (\<lambda>b. b \<noteq> of_char (CHR '']'')) s))
           in (takeWhile (\<lambda>b. b \<noteq> of_char (CHR '']'')) s # gs, rest)
      else ([], c # s))"
  by pat_completeness auto

termination brackets
  by (relation "measure length") (auto simp: less_Suc_eq_le intro: le_trans [OF diff_le_self length_dropWhile_le])

definition read_nat :: "byte list \<Rightarrow> nat" where
  "read_nat ds = foldl (\<lambda>n d. 10 * n + unat (d - 48)) 0 ds"

definition read_int :: "byte list \<Rightarrow> int" where
  "read_int s = (case s of c # ds \<Rightarrow> if c = 45 then - int (read_nat ds) else int (read_nat s) | [] \<Rightarrow> 0)"

text \<open>The value of a field \<open>key=value\<close>.\<close>

definition field :: "string \<Rightarrow> byte list \<Rightarrow> byte list option" where
  "field key g = (if prefix (bytes_of key @ [61]) g then Some (drop (length key + 1) g) else None)"

text \<open>The calls of the module; an absent address is written as \<^verbatim>\<open>unknown\<close>.\<close>

datatype log_call = Validated rust_str | Rejected_for rust_str rust_str | Auth_success rust_str "rust_str option"
  | Auth_failed rust_str "rust_str option" int int | Account_locked rust_str "rust_str option" int
  | Lockout_block rust_str "rust_str option" int | Expiry_warning rust_str int | Expired_with rust_str int
  | History_violation rust_str int | Blacklist_hit rust_str | Password_changed rust_str
  | Init rust_str | Warn rust_str | Fail rust_str

fun run_log :: "log_call \<Rightarrow> log_line" where
  "run_log (Validated u) = log_password_validated u"
| "run_log (Rejected_for u reason) = log_password_rejected u reason"
| "run_log (Auth_success u ip) = log_auth_success u ip"
| "run_log (Auth_failed u ip n m) = log_auth_failed u ip n m"
| "run_log (Account_locked u ip n) = log_account_locked u ip n"
| "run_log (Lockout_block u ip n) = log_lockout_block u ip n"
| "run_log (Expiry_warning u n) = log_password_expiry_warning u n"
| "run_log (Expired_with u n) = log_password_expired u n"
| "run_log (History_violation u n) = log_password_history_violation u n"
| "run_log (Blacklist_hit u) = log_blacklist_hit u"
| "run_log (Password_changed u) = log_password_changed u"
| "run_log (Init msg) = log_init msg"
| "run_log (Warn msg) = log_warning msg"
| "run_log (Fail msg) = log_error msg"

definition read_fields :: "byte list \<Rightarrow> byte list list \<Rightarrow> byte list \<Rightarrow> log_call option" where
  "read_fields tag fs text =
     (case fs of
        [] \<Rightarrow>
          if tag = bytes_of ''INIT'' then Some (Init (tl text))
          else if tag = bytes_of ''WARNING'' then Some (Warn (tl text))
          else if tag = bytes_of ''ERROR'' then Some (Fail (tl text)) else None
      | [u] \<Rightarrow>
          (case field ''user'' u of None \<Rightarrow> None
           | Some user \<Rightarrow>
               if tag = bytes_of ''VALIDATED'' then Some (Validated user)
               else if tag = bytes_of ''REJECTED'' then Some (Rejected_for user (tl text))
               else if tag = bytes_of ''BLACKLIST_HIT'' then Some (Blacklist_hit user)
               else if tag = bytes_of ''PASSWORD_CHANGED'' then Some (Password_changed user) else None)
      | [u, x] \<Rightarrow>
          (case (field ''user'' u, field ''ip'' x, field ''days'' x, field ''grace'' x, field ''count'' x) of
             (Some user, Some ip, _) \<Rightarrow> if tag = bytes_of ''AUTH_SUCCESS'' then Some (Auth_success user (Some ip)) else None
           | (Some user, _, Some n, _) \<Rightarrow> Some (Expiry_warning user (read_int n))
           | (Some user, _, _, Some n, _) \<Rightarrow> Some (Expired_with user (read_int n))
           | (Some user, _, _, _, Some n) \<Rightarrow> Some (History_violation user (read_int n))
           | _ \<Rightarrow> None)
      | [u, i, x] \<Rightarrow>
          (case (field ''user'' u, field ''ip'' i, field ''attempt'' x, field ''duration'' x, field ''remaining'' x) of
             (Some user, Some ip, Some a, _) \<Rightarrow> Some (Auth_failed user (Some ip)
               (read_int (takeWhile (\<lambda>b. b \<noteq> 47) a)) (read_int (tl (dropWhile (\<lambda>b. b \<noteq> 47) a))))
           | (Some user, Some ip, _, Some d, _) \<Rightarrow> Some (Account_locked user (Some ip) (read_int (butlast d)))
           | (Some user, Some ip, _, _, Some d) \<Rightarrow> Some (Lockout_block user (Some ip) (read_int (butlast d)))
           | _ \<Rightarrow> None)
      | _ \<Rightarrow> None)"

definition read_log_line :: "rust_str \<Rightarrow> log_call option" where
  "read_log_line line =
     (case brackets line of
        (p # tag # fs, text) \<Rightarrow> if p = bytes_of ''PASSWORD_PROFILE'' then read_fields tag fs text else None
      | _ \<Rightarrow> None)"

text \<open>Names and addresses that cannot close a field.\<close>

definition unbracketed :: "byte list \<Rightarrow> bool" where
  "unbracketed s \<longleftrightarrow> of_char (CHR '']'') \<notin> set s"

fun names_of :: "log_call \<Rightarrow> rust_str list" where
  "names_of (Validated u) = [u]"
| "names_of (Rejected_for u reason) = [u]"
| "names_of (Auth_success u ip) = [u, ip_str ip]"
| "names_of (Auth_failed u ip n m) = [u, ip_str ip]"
| "names_of (Account_locked u ip n) = [u, ip_str ip]"
| "names_of (Lockout_block u ip n) = [u, ip_str ip]"
| "names_of (Expiry_warning u n) = [u]"
| "names_of (Expired_with u n) = [u]"
| "names_of (History_violation u n) = [u]"
| "names_of (Blacklist_hit u) = [u]"
| "names_of (Password_changed u) = [u]"
| "names_of _ = []"

fun as_logged :: "log_call \<Rightarrow> log_call" where
  "as_logged (Auth_success u ip) = Auth_success u (Some (ip_str ip))"
| "as_logged (Auth_failed u ip n m) = Auth_failed u (Some (ip_str ip)) n m"
| "as_logged (Account_locked u ip n) = Account_locked u (Some (ip_str ip)) n"
| "as_logged (Lockout_block u ip n) = Lockout_block u (Some (ip_str ip)) n"
| "as_logged c = c"

section \<open>Lemmas\<close>

lemma show_nat_digits: "b \<in> set (show_nat n) \<Longrightarrow> 48 \<le> b \<and> b \<le> 57"
proof (induction n rule: show_nat.induct)
  case (1 n)
  have d: "48 \<le> (48::byte) + word_of_nat k \<and> (48::byte) + word_of_nat k \<le> 57" if "k < 10" for k
  proof -
    have "k = 0 \<or> k = 1 \<or> k = 2 \<or> k = 3 \<or> k = 4 \<or> k = 5 \<or> k = 6 \<or> k = 7 \<or> k = 8 \<or> k = 9"
      using that by presburger
    then show ?thesis by auto
  qed
  show ?case using 1 d [of n] d [of "n mod 10"] by (auto simp: show_nat.simps [of n] split: if_splits)
qed

lemma digit_value: "n < 10 \<Longrightarrow> unat ((48::byte) + word_of_nat n - 48) = n"
  by (simp add: unat_of_nat take_bit_eq_mod)

lemma read_show_nat [simp]: "read_nat (show_nat n) = n"
proof (induction n rule: show_nat.induct)
  case (1 n)
  then show ?case
    using digit_value [of n] digit_value [of "n mod 10"] by (auto simp: show_nat.simps [of n] read_nat_def)
qed

lemma show_nat_not_empty: "show_nat n \<noteq> []"
  by (simp add: show_nat.simps [of n])

lemma read_show_int [simp]: "read_int (show_int n) = n"
proof (cases "n < 0")
  case False
  obtain c ds where s: "show_nat (nat n) = c # ds" using show_nat_not_empty by (meson neq_Nil_conv)
  then have "c \<noteq> 45" using show_nat_digits [of c "nat n"] by auto
  then show ?thesis using False read_show_nat [of "nat n"] s by (simp add: show_int_def read_int_def)
qed (simp add: show_int_def read_int_def)

lemma show_int_chars: "b \<in> set (show_int n) \<Longrightarrow> b = 45 \<or> 48 \<le> b \<and> b \<le> 57"
  using show_nat_digits by (auto simp: show_int_def split: if_splits)

lemma show_int_unbracketed [simp]: "93 \<notin> set (show_int n)" "47 \<notin> set (show_int n)"
  using show_int_chars [of _ n] by fastforce+

declare brackets.simps [simp del]

lemma brackets_group:
  assumes "93 \<notin> set g"
  shows "brackets (91 # g @ 93 # s) = (g # fst (brackets s), snd (brackets s))"
proof -
  have "takeWhile (\<lambda>b. b \<noteq> 93) (g @ 93 # s) = g" "dropWhile (\<lambda>b. b \<noteq> 93) (g @ 93 # s) = 93 # s"
    using assms by (auto simp: takeWhile_append2 dropWhile_append2 takeWhile_append dropWhile_append)
  then show ?thesis by (simp add: brackets.simps(2) split: prod.split)
qed

lemma brackets_text: "brackets (32 # s) = ([], 32 # s)"
  by (simp add: brackets.simps(2))

text \<open>A line is its header, the bracketed fields after the name of the extension, and a text.\<close>

definition header :: "byte list list \<Rightarrow> byte list" where
  "header fs = concat (map (\<lambda>g. 91 # g @ [93]) fs)"

definition keyed :: "string \<Rightarrow> byte list \<Rightarrow> byte list" where
  "keyed key v = bytes_of key @ 61 # v"

definition line_of :: "string \<Rightarrow> byte list list \<Rightarrow> byte list \<Rightarrow> byte list" where
  "line_of tag fs text = header (bytes_of ''PASSWORD_PROFILE'' # bytes_of tag # fs) @ text"

lemma brackets_header:
  "list_all unbracketed fs \<Longrightarrow> brackets (header fs @ 32 # s) = (fs, 32 # s)"
  by (induction fs) (simp_all add: header_def brackets_text brackets_group unbracketed_def)

lemma log_lines:
  "snd (log_password_validated u) = line_of ''VALIDATED'' [keyed ''user'' u] (bytes_of '' Password meets all complexity requirements'')"
  "snd (log_password_rejected u reason) = line_of ''REJECTED'' [keyed ''user'' u] (32 # reason)"
  "snd (log_auth_success u ip) = line_of ''AUTH_SUCCESS'' [keyed ''user'' u, keyed ''ip'' (ip_str ip)]
     (bytes_of '' Login successful, failure count reset'')"
  "snd (log_auth_failed u ip n m) = line_of ''AUTH_FAILED'' [keyed ''user'' u, keyed ''ip'' (ip_str ip),
     keyed ''attempt'' (show_int n @ 47 # show_int m)] (bytes_of '' Failed login attempt recorded'')"
  "snd (log_account_locked u ip n) = line_of ''ACCOUNT_LOCKED'' [keyed ''user'' u, keyed ''ip'' (ip_str ip),
     keyed ''duration'' (show_int n @ bytes_of ''m'')] (bytes_of '' Account locked after too many failed attempts'')"
  "snd (log_lockout_block u ip n) = line_of ''LOCKOUT_BLOCK'' [keyed ''user'' u, keyed ''ip'' (ip_str ip),
     keyed ''remaining'' (show_int n @ bytes_of ''s'')]
     (bytes_of '' Login blocked, account locked for '' @ show_int n @ bytes_of '' more seconds'')"
  "snd (log_password_expiry_warning u n) = line_of ''EXPIRY_WARNING'' [keyed ''user'' u, keyed ''days'' (show_int n)]
     (bytes_of '' Password expires in '' @ show_int n @ bytes_of '' days'')"
  "snd (log_password_expired u n) = line_of ''EXPIRED'' [keyed ''user'' u, keyed ''grace'' (show_int n)]
     (bytes_of '' Password expired, '' @ show_int n @ bytes_of '' grace logins remaining'')"
  "snd (log_password_history_violation u n) = line_of ''HISTORY_VIOLATION'' [keyed ''user'' u, keyed ''count'' (show_int n)]
     (bytes_of '' Password matches recent history'')"
  "snd (log_blacklist_hit u) = line_of ''BLACKLIST_HIT'' [keyed ''user'' u] (bytes_of '' Password found in common password blacklist'')"
  "snd (log_password_changed u) = line_of ''PASSWORD_CHANGED'' [keyed ''user'' u] (bytes_of '' Password updated and saved to history'')"
  "snd (log_init msg) = line_of ''INIT'' [] (32 # msg)"
  "snd (log_warning msg) = line_of ''WARNING'' [] (32 # msg)"
  "snd (log_error msg) = line_of ''ERROR'' [] (32 # msg)"
  by (simp_all add: line_of_def header_def keyed_def bytes_of_def log_password_validated_def log_password_rejected_def
      log_auth_success_def log_auth_failed_def log_account_locked_def log_lockout_block_def log_password_expiry_warning_def
      log_password_expired_def log_password_history_violation_def log_blacklist_hit_def log_password_changed_def
      log_init_def log_warning_def log_error_def)

lemma read_log_line_of:
  assumes "unbracketed (bytes_of tag)" "list_all unbracketed fs" "text \<noteq> []" "hd text = 32"
  shows "read_log_line (line_of tag fs text) = read_fields (bytes_of tag) fs text"
proof -
  obtain t where "text = 32 # t" using assms(3,4) by (cases "text") simp_all
  moreover
  have "unbracketed (bytes_of ''PASSWORD_PROFILE'')" by (simp add: unbracketed_def bytes_of_def)
  ultimately show ?thesis
    using assms brackets_header [of "bytes_of ''PASSWORD_PROFILE'' # bytes_of tag # fs" t] by (simp add: read_log_line_def line_of_def)
qed

lemma unbracketed_keyed [simp]: "unbracketed (keyed key v) \<longleftrightarrow> unbracketed (bytes_of key) \<and> unbracketed v"
  by (auto simp: unbracketed_def keyed_def)

lemma unbracketed_append [simp]:
  "unbracketed (s @ t) \<longleftrightarrow> unbracketed s \<and> unbracketed t" "unbracketed (show_int n)"
  "unbracketed (b # s) \<longleftrightarrow> b \<noteq> 93 \<and> unbracketed s" "unbracketed []"
  by (auto simp: unbracketed_def)

lemma attempt_parts:
  "takeWhile (\<lambda>b. b \<noteq> 47) (show_int n @ 47 # show_int m) = show_int n"
  "dropWhile (\<lambda>b. b \<noteq> 47) (show_int n @ 47 # show_int m) = 47 # show_int m"
  by (auto simp: takeWhile_append dropWhile_append)

text \<open>
  The log lines are parseable: from every line written with a name and an address
  that hold no closing bracket, the function that wrote it and all its arguments can be recovered.
\<close>

theorem log_line_roundtrip:
  "list_all unbracketed (names_of c) \<Longrightarrow> read_log_line (snd (run_log c)) = Some (as_logged c)"
  by (cases c) (simp_all add: log_lines read_log_line_of bytes_of_def read_fields_def field_def keyed_def attempt_parts)

theorem log_line_roundtrip_witness:
  "read_log_line (snd (log_auth_failed (bytes_of ''alice'') None (-3) 5))
     = Some (Auth_failed (bytes_of ''alice'') (Some (bytes_of ''unknown'')) (-3) 5)"
proof -
  have "list_all unbracketed (names_of (Auth_failed (bytes_of ''alice'') None (-3) 5))"
    by (simp add: unbracketed_def ip_str_def bytes_of_def)
  from log_line_roundtrip [OF this] show ?thesis by (simp add: ip_str_def)
qed

text \<open>
  A closing bracket in the name breaks the format: the line of a user called \<open>u][ip=v\<close> reads as one of
  user \<open>u\<close> from address \<open>v\<close>, whatever the real address is.
\<close>

lemma bracketed_name_forges_address:
  assumes "unbracketed u" "unbracketed v" "unbracketed (ip_str ip)"
  shows "take 4 (fst (brackets (snd (log_auth_success (u @ bytes_of ''][ip='' @ v) ip))))
     = [bytes_of ''PASSWORD_PROFILE'', bytes_of ''AUTH_SUCCESS'', keyed ''user'' u, keyed ''ip'' v]"
proof -
  let ?fs = "[bytes_of ''PASSWORD_PROFILE'', bytes_of ''AUTH_SUCCESS'', keyed ''user'' u, keyed ''ip'' v, keyed ''ip'' (ip_str ip)]"
  let ?t = "bytes_of ''Login successful, failure count reset''"
  have "snd (log_auth_success (u @ bytes_of ''][ip='' @ v) ip) = header ?fs @ 32 # ?t"
    by (simp add: log_auth_success_def header_def keyed_def bytes_of_def)
  moreover have "list_all unbracketed ?fs" using assms by (simp add: bytes_of_def)
  ultimately show ?thesis by (simp add: brackets_header)
qed

end
