(* ===== verification/Unit_Tests.thy ===== *)
theory Unit_Tests
  imports Worker_Progress Password_Policy
begin

text \<open>
  The unit tests the repository keeps beside its code, replayed on the model: every test is the
  boolean it asserts, and is proved. They check that the definitions compute what the authors of the
  code expect of them on the same inputs. An \<^verbatim>\<open>assert\<close> is a conjunct and an \<^verbatim>\<open>unwrap\<close> a case that is false
  when there is nothing to unwrap.
\<close>

section \<open>\<^verbatim>\<open>auth_event.rs\<close>\<close>

definition event_id :: "byte \<Rightarrow> byte list" where
  "event_id tag = replicate 16 tag"

definition test_user :: "byte \<Rightarrow> byte list" where
  "test_user tag = (replicate LOCK_USERNAME_BYTES 0)[0 := tag]"

definition try_push :: "AuthEventRing \<Rightarrow> byte \<Rightarrow> bool \<Rightarrow> AuthEventRing \<times> EnqueueOutcome" where
  "try_push r tag is_failure =
     (let kind = (if is_failure then EVENT_KIND_FAILURE else EVENT_KIND_SUCCESS);
          (r1, step) = try_enqueue (event_id tag) (test_user tag) 0 kind 0 0 r
      in (r1, st_outcome step))"

text \<open>A push that must succeed, an unwrapped claim and an asserted acknowledgement, each with the rest of the test.\<close>

definition pushing :: "AuthEventRing \<Rightarrow> byte \<Rightarrow> bool \<Rightarrow> (AuthEventRing \<Rightarrow> bool) \<Rightarrow> bool" where
  "pushing r tag is_failure rest = (let (r1, oc) = try_push r tag is_failure in oc = Enqueued \<and> rest r1)"

definition claiming :: "AuthEventRing \<Rightarrow> (AuthEventRing \<Rightarrow> ClaimToken \<Rightarrow> SharedAuthEvent \<Rightarrow> bool) \<Rightarrow> bool" where
  "claiming r rest = (case claim r of (r1, Some (token, event)) \<Rightarrow> rest r1 token event | (r1, None) \<Rightarrow> False)"

definition acking :: "AuthEventRing \<Rightarrow> ClaimToken \<Rightarrow> AckOutcome \<Rightarrow> (AuthEventRing \<Rightarrow> bool) \<Rightarrow> bool" where
  "acking r token expected rest = (let (r1, oc) = ack token r in oc = expected \<and> rest r1)"

definition claim_does_not_advance_tail :: bool where
  "claim_does_not_advance_tail = pushing ring_new 1 True (\<lambda>r. let tail_before = rg_tail r in
     claiming r (\<lambda>r t1 e1. rg_tail r = tail_before \<and> depth r = 1
       \<and> claiming r (\<lambda>r t2 e2. t1 = t2 \<and> e1 = e2 \<and> rg_tail r = tail_before)))"

definition abort_leaves_the_same_event_claimable :: bool where
  "abort_leaves_the_same_event_claimable = pushing ring_new 1 True (\<lambda>r.
     claiming r (\<lambda>r token event. claiming r (\<lambda>r token_again event_again.
       token = token_again \<and> event = event_again \<and> depth r = 1)))"

definition commit_ack_advances_tail_once_and_duplicate_ack_does_not :: bool where
  "commit_ack_advances_tail_once_and_duplicate_ack_does_not = pushing ring_new 1 True (\<lambda>r.
     claiming r (\<lambda>r token _. acking r token Acknowledged (\<lambda>r. depth r = 0 \<and> rg_acknowledged r = 1
       \<and> (let tail_after = rg_tail r in
            acking r token Stale (\<lambda>r. rg_tail r = tail_after \<and> rg_acknowledged r = 1)))))"

definition wrong_slot_token_is_rejected :: bool where
  "wrong_slot_token_is_rejected = pushing ring_new 1 True (\<lambda>r. pushing r 2 True (\<lambda>r.
     claiming r (\<lambda>r token _. let bogus = \<lparr>tk_slot = tk_slot token + 1, tk_seq = tk_seq token\<rparr> in
       acking r bogus Stale (\<lambda>r. depth r = 2))))"

definition wrong_sequence_token_is_rejected :: bool where
  "wrong_sequence_token_is_rejected = pushing ring_new 1 True (\<lambda>r. claiming r (\<lambda>r token _.
     let bogus = \<lparr>tk_slot = tk_slot token, tk_seq = (tk_seq token + 7) mod (U64_MAX + 1)\<rparr> in
       acking r bogus Stale (\<lambda>r. depth r = 1 \<and> acking r token Acknowledged (\<lambda>r. True))))"

definition success_and_failure_events_keep_their_order :: bool where
  "success_and_failure_events_keep_their_order = pushing ring_new 0x61 False (\<lambda>r. pushing r 0x62 True (\<lambda>r.
     claiming r (\<lambda>r t1 e1. ev_username e1 = test_user 0x61 \<and> kind_from_raw (ev_kind e1) = Some Success
       \<and> acking r t1 Acknowledged (\<lambda>r.
       claiming r (\<lambda>r t2 e2. ev_username e2 = test_user 0x62 \<and> kind_from_raw (ev_kind e2) = Some Failure
         \<and> acking r t2 Acknowledged (\<lambda>r. True))))))"

definition failed_transaction_retry_receives_the_same_event_then_acks_it :: bool where
  "failed_transaction_retry_receives_the_same_event_then_acks_it = pushing ring_new 0x78 True (\<lambda>r. pushing r 0x79 False (\<lambda>r.
     claiming r (\<lambda>r t1 e1. claiming r (\<lambda>r t2 e2. t1 = t2 \<and> e1 = e2 \<and> acking r t2 Acknowledged (\<lambda>r.
       rg_acknowledged r = 1 \<and> claiming r (\<lambda>r t3 e3. t3 \<noteq> t2 \<and> ev_username e3 = test_user 0x79
         \<and> acking r t3 Acknowledged (\<lambda>r. snd (claim r) = None)))))))"

definition unknown_event_flag_bits_are_rejected :: bool where
  "unknown_event_flag_bits_are_rejected \<longleftrightarrow> flags_from_raw 0 = Some flags_none
     \<and> flags_from_raw EVENT_FLAG_CLEAR_LOGIN_ATTEMPTS = Some flags_clear \<and> flags_from_raw 0x02 = None
     \<and> flags_from_raw 0xFF = None \<and> flags_from_raw (EVENT_FLAG_CLEAR_LOGIN_ATTEMPTS OR 0x80) = None"

definition admission_flags_capture_the_lockout_switch :: bool where
  "admission_flags_capture_the_lockout_switch \<longleftrightarrow> clear_login_attempts (for_admission True)
     \<and> \<not> clear_login_attempts (for_admission False)"

definition event_flags_round_trip_through_the_ring :: bool where
  "event_flags_round_trip_through_the_ring =
     (let (r, step) = try_enqueue (event_id 0x66) (test_user 0x66) 0 EVENT_KIND_GRACE_CONSUMED EVENT_FLAG_CLEAR_LOGIN_ATTEMPTS 7 ring_new
      in st_outcome step = Enqueued \<and> claiming r (\<lambda>r _ ev. ev_flags ev = EVENT_FLAG_CLEAR_LOGIN_ATTEMPTS
           \<and> (case flags_from_raw (ev_flags ev) of Some fl \<Rightarrow> clear_login_attempts fl | None \<Rightarrow> False)))"

definition corrupt_queue_rejects_new_events_without_full_warning :: bool where
  "corrupt_queue_rejects_new_events_without_full_warning =
     (let (r, step) = try_enqueue (event_id 1) (test_user 1) 10 EVENT_KIND_FAILURE 0 0 (degrade_to Corrupt ring_new)
      in st_outcome step = EnqueueUnavailable \<and> \<not> st_should_warn step \<and> depth r = 0 \<and> ring_state r = Corrupt)"

definition corrupt_indices_are_handled_without_panicking :: bool where
  "corrupt_indices_are_handled_without_panicking = pushing ring_new 1 True (\<lambda>r. claiming r (\<lambda>r token _.
     let r = r\<lparr>rg_head := 2 ^ 32 - 1\<rparr>
     in \<not> indices_valid r \<and> depth r = 0
        \<and> (let (r, c) = claim r
            in c = None \<and> ring_state r = Corrupt \<and> acking r token AckCorrupt (\<lambda>r.
               st_outcome (snd (try_enqueue (event_id 2) (test_user 2) 0 EVENT_KIND_FAILURE 0 0 r)) = EnqueueUnavailable))
        \<and> (let (r2, c) = claim (ring_new\<lparr>rg_tail := RING_SLOTS + 99\<rparr>) in c = None \<and> ring_state r2 = Corrupt)))"

definition sequence_exhaustion_fails_closed_instead_of_reusing :: bool where
  "sequence_exhaustion_fails_closed_instead_of_reusing =
     (let (r, step) = try_enqueue (event_id 1) (test_user 1) 0 EVENT_KIND_FAILURE 0 0 (ring_new\<lparr>rg_next_seq := U64_MAX\<rparr>)
      in st_outcome step = EnqueueUnavailable \<and> st_should_warn step \<and> ring_state r = Corrupt \<and> rg_rejected r = 1
         \<and> depth r = 0 \<and> rg_next_seq r = U64_MAX)"

definition sequence_numbers_are_never_reused :: bool where
  "sequence_numbers_are_never_reused = pushing (ring_new\<lparr>rg_next_seq := U64_MAX - 2\<rparr>) 1 True (\<lambda>r.
     claiming r (\<lambda>r first _. acking r first Acknowledged (\<lambda>r. pushing r 2 True (\<lambda>r.
       claiming r (\<lambda>r second _. tk_seq first \<noteq> tk_seq second \<and> acking r second Acknowledged (\<lambda>r.
         rg_next_seq r = U64_MAX
         \<and> st_outcome (snd (try_enqueue (event_id 3) (test_user 3) 0 EVENT_KIND_FAILURE 0 0 r)) = EnqueueUnavailable))))))"

definition event_kind_validation_rejects_unknown_discriminants :: bool where
  "event_kind_validation_rejects_unknown_discriminants \<longleftrightarrow> kind_from_raw EVENT_KIND_FAILURE = Some Failure
     \<and> kind_from_raw EVENT_KIND_SUCCESS = Some Success \<and> kind_from_raw EVENT_KIND_GRACE_CONSUMED = Some GraceConsumed
     \<and> kind_from_raw 0 = None \<and> kind_from_raw 4 = None \<and> kind_from_raw 255 = None"

definition grace_event_carries_its_generation :: bool where
  "grace_event_carries_its_generation =
     (let (r, step) = try_enqueue (event_id 0x67) (test_user 0x67) 0 EVENT_KIND_GRACE_CONSUMED 0 424242 ring_new
      in st_outcome step = Enqueued \<and> claiming r (\<lambda>r _ ev. ev_kind ev = EVENT_KIND_GRACE_CONSUMED \<and> ev_generation ev = 424242))"

definition unknown_raw_queue_state_maps_to_corrupt :: bool where
  "unknown_raw_queue_state_maps_to_corrupt \<longleftrightarrow> queue_state_from_raw 0 = Healthy \<and> queue_state_from_raw 1 = Overflowed
     \<and> queue_state_from_raw 2 = Corrupt \<and> queue_state_from_raw (- 7) = Corrupt \<and> queue_state_from_raw 9999 = Corrupt"

definition corrupt_outranks_overflowed_and_is_not_downgraded :: bool where
  "corrupt_outranks_overflowed_and_is_not_downgraded =
     (let r1 = degrade_to Overflowed ring_new; r2 = degrade_to Corrupt r1; r3 = degrade_to Overflowed r2
      in ring_state r1 = Overflowed \<and> ring_state r2 = Corrupt \<and> ring_state r3 = Corrupt)"

lemmas test_steps = pushing_def try_push_def claiming_def acking_def try_enqueue_def claim_def ack_def ring_new_def
  indices_valid_def ring_state_def advance_def depth_def RING_SLOTS_def AUTH_EVENT_RING_SIZE_def U64_MAX_def
  saturating_inc_u64_def degrade_to_def unavailable_step_def Let_def

lemmas event_constants = kind_from_raw_def EVENT_KIND_FAILURE_def EVENT_KIND_SUCCESS_def EVENT_KIND_GRACE_CONSUMED_def
  flags_from_raw_def flags_none_def flags_clear_def EVENT_FLAG_CLEAR_LOGIN_ATTEMPTS_def EVENT_FLAGS_KNOWN_def
  clear_login_attempts_def for_admission_def queue_state_from_raw_def

lemma claim_tests:
  "claim_does_not_advance_tail" "abort_leaves_the_same_event_claimable"
  "commit_ack_advances_tail_once_and_duplicate_ack_does_not" "wrong_slot_token_is_rejected"
  "wrong_sequence_token_is_rejected" "success_and_failure_events_keep_their_order"
  "failed_transaction_retry_receives_the_same_event_then_acks_it"
  by (simp_all add: claim_does_not_advance_tail_def abort_leaves_the_same_event_claimable_def
      commit_ack_advances_tail_once_and_duplicate_ack_does_not_def wrong_slot_token_is_rejected_def
      wrong_sequence_token_is_rejected_def success_and_failure_events_keep_their_order_def
      failed_transaction_retry_receives_the_same_event_then_acks_it_def test_steps event_constants)

lemma event_tests:
  "unknown_event_flag_bits_are_rejected" "admission_flags_capture_the_lockout_switch"
  "event_flags_round_trip_through_the_ring" "event_kind_validation_rejects_unknown_discriminants"
  "grace_event_carries_its_generation" "unknown_raw_queue_state_maps_to_corrupt"
  by (simp_all add: unknown_event_flag_bits_are_rejected_def admission_flags_capture_the_lockout_switch_def
      event_flags_round_trip_through_the_ring_def event_kind_validation_rejects_unknown_discriminants_def
      grace_event_carries_its_generation_def unknown_raw_queue_state_maps_to_corrupt_def test_steps event_constants)

lemma corruption_tests:
  "corrupt_queue_rejects_new_events_without_full_warning" "corrupt_indices_are_handled_without_panicking"
  "sequence_numbers_are_never_reused" "corrupt_outranks_overflowed_and_is_not_downgraded"
  by (simp_all add: corrupt_queue_rejects_new_events_without_full_warning_def
      corrupt_indices_are_handled_without_panicking_def sequence_numbers_are_never_reused_def
      corrupt_outranks_overflowed_and_is_not_downgraded_def test_steps event_constants)

text \<open>One test does not hold of the code: the step that refuses an exhausted sequence asks for no warning.\<close>

lemma sequence_exhaustion_test_fails: "\<not> sequence_exhaustion_fails_closed_instead_of_reusing"
  by (simp add: sequence_exhaustion_fails_closed_instead_of_reusing_def test_steps)

section \<open>Tests of \<^verbatim>\<open>auth_event.rs\<close> that go round the ring\<close>

text \<open>The loops of these tests over the whole ring, with the rest of the test as an argument.\<close>

definition lap_tag :: "nat \<Rightarrow> byte" where
  "lap_tag i = of_nat (i mod 251) + 1"

fun lap_loop :: "nat \<Rightarrow> nat \<Rightarrow> AuthEventRing \<Rightarrow> (AuthEventRing \<Rightarrow> bool) \<Rightarrow> bool" where
  "lap_loop i 0 r rest = rest r"
| "lap_loop i (Suc n) r rest = pushing r (lap_tag i) False (\<lambda>r. claiming r (\<lambda>r t _.
     acking r t Acknowledged (\<lambda>r. lap_loop (Suc i) n r rest)))"

definition stale_token_after_wraparound_is_rejected :: bool where
  "stale_token_after_wraparound_is_rejected = pushing ring_new 1 True (\<lambda>r. claiming r (\<lambda>r old_token _.
     acking r old_token Acknowledged (\<lambda>r. lap_loop 0 RING_SLOTS r (\<lambda>r. pushing r 9 True (\<lambda>r.
       claiming r (\<lambda>r fresh _. tk_slot fresh = tk_slot old_token \<and> tk_seq fresh \<noteq> tk_seq old_token
         \<and> acking r old_token Stale (\<lambda>r. acking r fresh Acknowledged (\<lambda>r. True))))))))"

fun fifo_loop :: "nat \<Rightarrow> nat \<Rightarrow> nat \<Rightarrow> AuthEventRing \<Rightarrow> bool" where
  "fifo_loop round 0 expected r = True"
| "fifo_loop round (Suc n) expected r = pushing r (lap_tag round) (even round) (\<lambda>r. claiming r (\<lambda>r token event.
     ev_username event = test_user (lap_tag round) \<and> ev_seq event = expected
     \<and> acking r token Acknowledged (\<lambda>r. fifo_loop (Suc round) n (expected + 1) r)))"

definition fifo_order_survives_wraparound :: bool where
  "fifo_order_survives_wraparound = fifo_loop 0 (RING_SLOTS * 2 + 5) 1 ring_new"

fun fill_loop :: "nat \<Rightarrow> nat \<Rightarrow> AuthEventRing \<Rightarrow> (AuthEventRing \<Rightarrow> bool) \<Rightarrow> bool" where
  "fill_loop i 0 r rest = rest r"
| "fill_loop i (Suc n) r rest = pushing r (lap_tag i) True (\<lambda>r. fill_loop (Suc i) n r rest)"

definition producer_cannot_overwrite_an_unacknowledged_tail_event :: bool where
  "producer_cannot_overwrite_an_unacknowledged_tail_event = fill_loop 0 USABLE_CAPACITY ring_new (\<lambda>r.
     claiming r (\<lambda>r token claimed. let tail_before = rg_tail r; (r, oc) = try_push r 200 True
       in oc = DurableOnly \<and> rg_tail r = tail_before
          \<and> claiming r (\<lambda>r token_again claimed_again. token = token_again \<and> claimed = claimed_again)))"

definition full_queue_returns_full_counts_and_degrades :: bool where
  "full_queue_returns_full_counts_and_degrades = fill_loop 0 USABLE_CAPACITY ring_new (\<lambda>r.
     ring_state r = Healthy \<and> rg_rejected r = 0
     \<and> (let t0 = 1000000000; (r, step) = try_enqueue (event_id 9) (test_user 9) t0 EVENT_KIND_FAILURE 0 0 r
         in st_outcome step = DurableOnly \<and> st_should_warn step \<and> rg_rejected r = 1 \<and> ring_state r = Overflowed
         \<and> (let (r, step2) = try_enqueue (event_id 10) (test_user 10) (t0 + 1000000) EVENT_KIND_FAILURE 0 0 r
             in st_outcome step2 = DurableOnly \<and> \<not> st_should_warn step2 \<and> rg_rejected r = 2
             \<and> (let (r, step3) = try_enqueue (event_id 11) (test_user 11) (t0 + QUEUE_WARN_INTERVAL_US) EVENT_KIND_FAILURE 0 0 r
                 in st_outcome step3 = DurableOnly \<and> st_should_warn step3
                 \<and> (let (r, step4) = try_enqueue (event_id 12) (test_user 12) (t0 + QUEUE_WARN_INTERVAL_US + 1) EVENT_KIND_FAILURE 0 0 r
                     in \<not> st_should_warn step4 \<and> rg_rejected r = 4)))))"

text \<open>The drain loop of the test with fuel; running out of it makes the test false.\<close>

fun drain_loop :: "nat \<Rightarrow> AuthEventRing \<Rightarrow> (AuthEventRing \<Rightarrow> bool) \<Rightarrow> bool" where
  "drain_loop 0 r rest = False"
| "drain_loop (Suc n) r rest =
     (case claim r of
        (r, None) \<Rightarrow> rest r
      | (r, Some (token, _)) \<Rightarrow> acking r token Acknowledged (\<lambda>r. drain_loop n r rest))"

definition draining_an_overflowed_queue_recovers_health :: bool where
  "draining_an_overflowed_queue_recovers_health = fill_loop 0 USABLE_CAPACITY ring_new (\<lambda>r.
     let (r, step) = try_enqueue (event_id 9) (test_user 9) 0 EVENT_KIND_FAILURE 0 0 r
     in st_outcome step = DurableOnly \<and> ring_state r = Overflowed
        \<and> drain_loop RING_SLOTS r (\<lambda>r. depth r = 0 \<and> ring_state r = Healthy))"

text \<open>One push on a ring with room.\<close>

lemma push_with_room:
  assumes "ring_inv r" and "ring_state r = Healthy" and "length (ring_list r) < USABLE_CAPACITY" and "rg_next_seq r < U64_MAX"
  shows "\<exists>r1. (\<forall>rest. pushing r tag f rest = rest r1) \<and> ring_inv r1 \<and> ring_state r1 = Healthy
    \<and> ring_list r1 = ring_list r @ [offered_event (event_id tag) (test_user tag) 0
        (if f then EVENT_KIND_FAILURE else EVENT_KIND_SUCCESS) 0 0 (rg_next_seq r)]
    \<and> rg_next_seq r1 = Suc (rg_next_seq r) \<and> rg_tail r1 = rg_tail r \<and> rg_rejected r1 = rg_rejected r
    \<and> rg_last_warned_at r1 = rg_last_warned_at r"
proof -
  let ?k = "if f then EVENT_KIND_FAILURE else EVENT_KIND_SUCCESS"
  let ?q = "try_enqueue (event_id tag) (test_user tag) 0 ?k 0 0 r"
  have o: "st_outcome (snd ?q) = Enqueued" using assms by (simp add: try_enqueue_outcome)
  note acc = try_enqueue_accepted(1) [OF assms(1) o]
  have "ring_state (fst ?q) = Healthy" using assms by (simp add: try_enqueue_state)
  moreover have "pushing r tag f rest = rest (fst ?q)" for rest
    using o by (simp add: pushing_def try_push_def case_prod_beta)
  ultimately show ?thesis
    using try_enqueue_inv [OF assms(1), of "event_id tag" "test_user tag" 0 ?k 0 0]
      try_enqueue_list [OF assms(1), of "event_id tag" "test_user tag" 0 ?k 0 0] o acc
    by (intro exI [of _ "fst ?q"]) (simp split del: if_split)
qed

text \<open>A push, a claim and an acknowledgement on an empty ring leave it empty, one slot further.\<close>

lemma one_cycle:
  assumes "ring_inv r" and "ring_state r = Healthy" and "ring_list r = []" and "rg_next_seq r < U64_MAX"
  obtains r1 r2 token event where "\<And>P. pushing r tag f (\<lambda>r. claiming r P) = P r1 token event"
    "\<And>rest. acking r1 token Acknowledged rest = rest r2"
    "token = \<lparr>tk_slot = rg_tail r, tk_seq = rg_next_seq r\<rparr>" "ev_username event = test_user tag" "ev_seq event = rg_next_seq r"
    "ring_inv r1" "ring_list r1 = [event]" "rg_tail r1 = rg_tail r"
    "ring_inv r2" "ring_state r2 = Healthy" "ring_list r2 = []" "rg_next_seq r2 = Suc (rg_next_seq r)"
    "rg_tail r2 = advance (rg_tail r)"
proof -
  have room: "length (ring_list r) < USABLE_CAPACITY" using assms(3) RING_SLOTS_gt1 by (simp add: USABLE_CAPACITY_def)
  obtain r1 where r1: "\<forall>rest. pushing r tag f rest = rest r1" "ring_inv r1" "ring_state r1 = Healthy"
    "ring_list r1 = [offered_event (event_id tag) (test_user tag) 0 (if f then EVENT_KIND_FAILURE else EVENT_KIND_SUCCESS) 0 0 (rg_next_seq r)]"
    "rg_next_seq r1 = Suc (rg_next_seq r)" "rg_tail r1 = rg_tail r"
    using push_with_room [OF assms(1,2) room assms(4), of tag f] assms(3) by auto
  define token where "token = \<lparr>tk_slot = rg_tail r, tk_seq = rg_next_seq r\<rparr>"
  define event where "event = hd (ring_list r1)"
  have ev: "ring_list r1 = [event]" "ev_username event = test_user tag" "ev_seq event = rg_next_seq r"
    using r1(4) by (simp_all add: event_def offered_event_def)
  have c: "claim r1 = (r1, Some (token, event))"
    using claim_inv [OF r1(2)] claim_result [OF r1(2)] ev r1(6) by (simp add: token_def prod_eq_iff)
  have a: "snd (ack token r1) = Acknowledged" using ack_outcome [OF r1(2), of token] ev r1(6) by (simp add: token_def)
  have a2: "ring_inv (fst (ack token r1))" "ring_list (fst (ack token r1)) = []" "rg_next_seq (fst (ack token r1)) = Suc (rg_next_seq r)"
    "ring_state (fst (ack token r1)) = Healthy"
    using ack_inv [OF r1(2)] ack_list [OF r1(2), of token] ack_next_seq [OF r1(2), of token] ack_state [OF r1(2), of token] a ev r1(3,5) by simp_all
  have "rg_tail (fst (ack token r1)) = advance (rg_tail r)"
    using ack_acknowledged(1) [OF r1(2) a] r1(6) by (simp add: ring_core_def)
  note tail = this
  show ?thesis
    by (rule that [OF _ _ token_def ev(2,3) r1(2) ev(1) r1(6) a2(1,4,2,3) tail])
      (use r1(1) c a in \<open>simp_all add: claiming_def acking_def case_prod_beta\<close>)
qed

lemma lap_loop_runs:
  assumes "ring_inv r" and "ring_state r = Healthy" and "ring_list r = []" and "rg_next_seq r + n \<le> U64_MAX"
  shows "\<exists>r1. (\<forall>rest. lap_loop i n r rest = rest r1) \<and> ring_inv r1 \<and> ring_state r1 = Healthy \<and> ring_list r1 = []
    \<and> rg_next_seq r1 = rg_next_seq r + n \<and> rg_tail r1 = (rg_tail r + n) mod RING_SLOTS"
  using assms
proof (induction n arbitrary: i r)
  case 0
  have "rg_tail r < RING_SLOTS" using 0 by (simp add: ring_inv_def)
  then show ?case using 0 by (intro exI [of _ r]) simp
next
  case (Suc n)
  have "rg_next_seq r < U64_MAX" using Suc.prems(4) by simp
  from one_cycle [OF Suc.prems(1-3) this, of "lap_tag i" False] obtain r0 r2 token event where
    c: "\<And>P. pushing r (lap_tag i) False (\<lambda>r. claiming r P) = P r0 token event" "\<And>rest. acking r0 token Acknowledged rest = rest r2"
    "ring_inv r2" "ring_state r2 = Healthy" "ring_list r2 = []" "rg_next_seq r2 = Suc (rg_next_seq r)" "rg_tail r2 = advance (rg_tail r)"
    by metis
  obtain r1 where r1: "\<forall>rest. lap_loop (Suc i) n r2 rest = rest r1" "ring_inv r1" "ring_state r1 = Healthy" "ring_list r1 = []"
    "rg_next_seq r1 = rg_next_seq r2 + n" "rg_tail r1 = (rg_tail r2 + n) mod RING_SLOTS"
    using Suc.IH [OF c(3-5), of "Suc i"] Suc.prems(4) c(6) by auto
  have "rg_tail r1 = (rg_tail r + Suc n) mod RING_SLOTS" using r1(6) c(7) by (simp add: advance_def mod_add_left_eq)
  then show ?case using r1 c(1,2,6) by (intro exI [of _ r1]) simp
qed

lemma fifo_loop_runs:
  assumes "ring_inv r" and "ring_state r = Healthy" and "ring_list r = []" and "rg_next_seq r + n \<le> U64_MAX"
  shows "fifo_loop i n (rg_next_seq r) r"
  using assms
proof (induction n arbitrary: i r)
  case (Suc n)
  have "rg_next_seq r < U64_MAX" using Suc.prems(4) by simp
  from one_cycle [OF Suc.prems(1-3) this, of "lap_tag i" "even i"] obtain r0 r2 token event where
    c: "\<And>P. pushing r (lap_tag i) (even i) (\<lambda>r. claiming r P) = P r0 token event" "\<And>rest. acking r0 token Acknowledged rest = rest r2"
    "ev_username event = test_user (lap_tag i)" "ev_seq event = rg_next_seq r"
    "ring_inv r2" "ring_state r2 = Healthy" "ring_list r2 = []" "rg_next_seq r2 = Suc (rg_next_seq r)"
    by metis
  have "fifo_loop (Suc i) n (rg_next_seq r2) r2" using Suc.IH [OF c(5-7)] Suc.prems(4) c(8) by simp
  then show ?case using c by simp
qed simp

lemma ring_new_state: "ring_inv ring_new" "ring_state ring_new = Healthy" "ring_list ring_new = []" "rg_next_seq ring_new = 1"
  "rg_tail ring_new = 0" "rg_rejected ring_new = 0" "rg_last_warned_at ring_new = 0"
proof -
  show "ring_inv ring_new" by (rule ring_new_inv)
  show "ring_state ring_new = Healthy" "rg_next_seq ring_new = 1" "rg_tail ring_new = 0" "rg_rejected ring_new = 0"
    "rg_last_warned_at ring_new = 0" by (simp_all add: ring_new_def ring_state_def)
  show "ring_list ring_new = []" by (simp add: ring_list_def depth_def ring_new_def indices_valid_def)
qed

lemma fifo_test: "fifo_order_survives_wraparound"
  using fifo_loop_runs [OF ring_new_state(1-3), of "RING_SLOTS * 2 + 5" 0] ring_new_state(4)
  by (simp add: fifo_order_survives_wraparound_def RING_SLOTS_def AUTH_EVENT_RING_SIZE_def U64_MAX_def)

text \<open>
  A second test does not hold: after the first event and as many laps as the ring has slots, the next
  event lies in the slot behind the first one, not in the same slot. What the test is about does hold.
\<close>

lemma wraparound_test_runs:
  "\<exists>r. (\<forall>P. pushing ring_new 1 True (\<lambda>r. claiming r (\<lambda>r old_token _. acking r old_token Acknowledged (\<lambda>r.
        lap_loop 0 RING_SLOTS r (\<lambda>r. pushing r 9 True (\<lambda>r. claiming r (\<lambda>r fresh _. P old_token fresh r))))))
      = P \<lparr>tk_slot = 0, tk_seq = 1\<rparr> \<lparr>tk_slot = 1, tk_seq = RING_SLOTS + 2\<rparr> r)
    \<and> ring_inv r \<and> ring_list r \<noteq> [] \<and> rg_tail r = 1 \<and> ev_seq (hd (ring_list r)) = RING_SLOTS + 2"
proof -
  have small: "1 + Suc RING_SLOTS < U64_MAX" "(1::nat) < U64_MAX" by (simp_all add: RING_SLOTS_def AUTH_EVENT_RING_SIZE_def U64_MAX_def)
  have "rg_next_seq ring_new < U64_MAX" using ring_new_state(4) small(2) by simp
  from one_cycle [OF ring_new_state(1-3) this, of 1 True] obtain r1 r2 old event where
    c: "\<And>P. pushing ring_new 1 True (\<lambda>r. claiming r P) = P r1 old event" "\<And>rest. acking r1 old Acknowledged rest = rest r2"
    "old = \<lparr>tk_slot = rg_tail ring_new, tk_seq = rg_next_seq ring_new\<rparr>"
    "ring_inv r2" "ring_state r2 = Healthy" "ring_list r2 = []" "rg_next_seq r2 = Suc (rg_next_seq ring_new)" "rg_tail r2 = advance (rg_tail ring_new)"
    by metis
  have "rg_next_seq r2 + RING_SLOTS \<le> U64_MAX" using c(7) ring_new_state(4) small(1) by simp
  from lap_loop_runs [OF c(4-6) this, of 0] obtain r3 where
    r3: "\<And>rest. lap_loop 0 RING_SLOTS r2 rest = rest r3" "ring_inv r3" "ring_state r3 = Healthy" "ring_list r3 = []"
    "rg_next_seq r3 = rg_next_seq r2 + RING_SLOTS" "rg_tail r3 = (rg_tail r2 + RING_SLOTS) mod RING_SLOTS" by metis
  have "rg_next_seq r3 < U64_MAX" using r3(5) c(7) ring_new_state(4) small(1) by simp
  from one_cycle [OF r3(2-4) this, of 9 True] obtain r4 r5 fresh event4 where
    d: "\<And>P. pushing r3 9 True (\<lambda>r. claiming r P) = P r4 fresh event4" "fresh = \<lparr>tk_slot = rg_tail r3, tk_seq = rg_next_seq r3\<rparr>"
    "ev_seq event4 = rg_next_seq r3" "ring_inv r4" "ring_list r4 = [event4]" "rg_tail r4 = rg_tail r3" by metis
  have adv: "advance 0 = 1" using RING_SLOTS_gt1 by (simp add: advance_def)
  have "\<forall>P. pushing ring_new 1 True (\<lambda>r. claiming r (\<lambda>r old_token _. acking r old_token Acknowledged (\<lambda>r.
        lap_loop 0 RING_SLOTS r (\<lambda>r. pushing r 9 True (\<lambda>r. claiming r (\<lambda>r fresh _. P old_token fresh r))))))
      = P old fresh r4"
    unfolding c(1,2) r3(1) d(1) by simp
  moreover have "rg_tail r3 = 1" using r3(6) c(8) adv ring_new_state(5) RING_SLOTS_gt1 by (simp add: mod_Suc)
  ultimately show ?thesis
    using c(3,7) d(2-6) r3(5) ring_new_state(4,5) by (intro exI [of _ r4]) simp
qed

lemma wraparound_test_fails: "\<not> stale_token_after_wraparound_is_rejected"
  using wraparound_test_runs unfolding stale_token_after_wraparound_is_rejected_def by auto

lemma wraparound_stale:
  assumes "ring_inv r" "ring_list r \<noteq> []" "rg_tail r = 1" "ev_seq (hd (ring_list r)) = RING_SLOTS + 2"
  shows "acking r \<lparr>tk_slot = 0, tk_seq = 1\<rparr> Stale (\<lambda>r. acking r \<lparr>tk_slot = 1, tk_seq = RING_SLOTS + 2\<rparr> Acknowledged (\<lambda>r. True))"
  using ack_outcome [OF assms(1), of "\<lparr>tk_slot = 0, tk_seq = 1\<rparr>"] ack_outcome [OF assms(1), of "\<lparr>tk_slot = 1, tk_seq = RING_SLOTS + 2\<rparr>"]
    ack_stale [OF assms(1), of "\<lparr>tk_slot = 0, tk_seq = 1\<rparr>"] assms(2-4)
  by (simp add: acking_def case_prod_beta)

lemma fill_loop_runs:
  assumes "ring_inv r" and "ring_state r = Healthy" and "length (ring_list r) + n \<le> USABLE_CAPACITY" and "rg_next_seq r + n \<le> U64_MAX"
  shows "\<exists>r1. (\<forall>rest. fill_loop i n r rest = rest r1) \<and> ring_inv r1 \<and> ring_state r1 = Healthy
    \<and> length (ring_list r1) = length (ring_list r) + n \<and> rg_rejected r1 = rg_rejected r \<and> rg_last_warned_at r1 = rg_last_warned_at r"
  using assms
proof (induction n arbitrary: i r)
  case 0
  then show ?case by (intro exI [of _ r]) simp
next
  case (Suc n)
  have "length (ring_list r) < USABLE_CAPACITY" "rg_next_seq r < U64_MAX" using Suc.prems(3,4) by simp_all
  from push_with_room [OF Suc.prems(1,2) this, of "lap_tag i" True] obtain r0 where
    p: "\<And>rest. pushing r (lap_tag i) True rest = rest r0" "ring_inv r0" "ring_state r0 = Healthy"
      "length (ring_list r0) = Suc (length (ring_list r))" "rg_next_seq r0 = Suc (rg_next_seq r)"
      "rg_rejected r0 = rg_rejected r" "rg_last_warned_at r0 = rg_last_warned_at r"
    by (metis length_append_singleton)
  have "length (ring_list r0) + n \<le> USABLE_CAPACITY" "rg_next_seq r0 + n \<le> U64_MAX" using Suc.prems(3,4) p(4,5) by simp_all
  from Suc.IH [OF p(2,3) this, of "Suc i"] show ?case using p by auto
qed

text \<open>The full ring these tests start from.\<close>

lemma filled_ring:
  obtains r where "\<And>rest. fill_loop 0 USABLE_CAPACITY ring_new rest = rest r" "ring_inv r" "ring_state r = Healthy"
    "length (ring_list r) = USABLE_CAPACITY" "rg_rejected r = 0" "rg_last_warned_at r = 0"
proof -
  have "1 + USABLE_CAPACITY \<le> U64_MAX" by (simp add: USABLE_CAPACITY_def RING_SLOTS_def AUTH_EVENT_RING_SIZE_def U64_MAX_def)
  then show ?thesis
    using fill_loop_runs [OF ring_new_state(1,2), of USABLE_CAPACITY 0] ring_new_state(3,4,6,7) that by auto
qed

text \<open>An offer to a full ring.\<close>

lemma try_enqueue_full:
  assumes "ring_inv r" and "ring_state r \<noteq> Corrupt" and "length (ring_list r) = USABLE_CAPACITY"
  shows "try_enqueue i u now k f g r =
    (let (r1, warn) = should_warn_now (ring_state r = Healthy) now (degrade_to Overflowed (r\<lparr>rg_rejected := saturating_inc_u64 (rg_rejected r),
        rg_durable_only := saturating_inc_u64 (rg_durable_only r)\<rparr>))
     in (r1, \<lparr>st_outcome = DurableOnly, st_should_warn = warn\<rparr>))"
    and "ring_inv (fst (try_enqueue i u now k f g r))" and "ring_state (fst (try_enqueue i u now k f g r)) = Overflowed"
    and "ring_list (fst (try_enqueue i u now k f g r)) = ring_list r" and "rg_tail (fst (try_enqueue i u now k f g r)) = rg_tail r"
proof -
  show "try_enqueue i u now k f g r =
    (let (r1, warn) = should_warn_now (ring_state r = Healthy) now (degrade_to Overflowed (r\<lparr>rg_rejected := saturating_inc_u64 (rg_rejected r),
        rg_durable_only := saturating_inc_u64 (rg_durable_only r)\<rparr>))
     in (r1, \<lparr>st_outcome = DurableOnly, st_should_warn = warn\<rparr>))"
    using assms by (simp add: try_enqueue_def Let_def ring_inv_full_iff)
  have o: "st_outcome (snd (try_enqueue i u now k f g r)) = DurableOnly" using assms by (simp add: try_enqueue_outcome)
  then have "ring_core (fst (try_enqueue i u now k f g r)) = ring_core r" using try_enqueue_refused by fastforce
  then show "rg_tail (fst (try_enqueue i u now k f g r)) = rg_tail r" by (simp add: ring_core_def)
  show "ring_inv (fst (try_enqueue i u now k f g r))" by (rule try_enqueue_inv [OF assms(1)])
  show "ring_state (fst (try_enqueue i u now k f g r)) = Overflowed" using assms by (simp add: try_enqueue_state)
  show "ring_list (fst (try_enqueue i u now k f g r)) = ring_list r" using try_enqueue_list [OF assms(1), of i u now k f g] o by simp
qed

lemma producer_test: "producer_cannot_overwrite_an_unacknowledged_tail_event"
proof -
  obtain r where r: "\<And>rest. fill_loop 0 USABLE_CAPACITY ring_new rest = rest r" "ring_inv r" "ring_state r = Healthy"
    "length (ring_list r) = USABLE_CAPACITY" using filled_ring by metis
  let ?q = "try_enqueue (event_id 200) (test_user 200) 0 EVENT_KIND_FAILURE 0 0 r"
  have "ring_state r \<noteq> Corrupt" using r(3) by simp
  note full = try_enqueue_full [OF r(2) this r(4), of "event_id 200" "test_user 200" 0 EVENT_KIND_FAILURE 0 0]
  have "0 < length (ring_list r)" using r(4) RING_SLOTS_gt1 unfolding USABLE_CAPACITY_def by linarith
  then obtain e es where l: "ring_list r = e # es" by (cases "ring_list r") auto
  have "claim r = (r, Some (\<lparr>tk_slot = rg_tail r, tk_seq = ev_seq e\<rparr>, e))"
    using claim_inv [OF r(2)] claim_result [OF r(2)] l by (simp add: prod_eq_iff)
  moreover have "claim (fst ?q) = (fst ?q, Some (\<lparr>tk_slot = rg_tail r, tk_seq = ev_seq e\<rparr>, e))"
    using claim_inv [OF full(2)] claim_result [OF full(2)] l full(4,5) by (simp add: prod_eq_iff)
  moreover have "try_push r 200 True = (fst ?q, DurableOnly)"
    using full(1) by (simp add: try_push_def case_prod_beta Let_def)
  ultimately show ?thesis
    using full(5) by (simp add: producer_cannot_overwrite_an_unacknowledged_tail_event_def r(1) claiming_def Let_def)
qed

lemma full_queue_test: "full_queue_returns_full_counts_and_degrades"
proof -
  obtain r where r: "\<And>rest. fill_loop 0 USABLE_CAPACITY ring_new rest = rest r" "ring_inv r" "ring_state r = Healthy"
    "length (ring_list r) = USABLE_CAPACITY" "rg_rejected r = 0" "rg_last_warned_at r = 0" using filled_ring by metis
  define q where "q t i r = try_enqueue (event_id i) (test_user i) t EVENT_KIND_FAILURE 0 0 r" for t i r
  have full: "ring_inv (fst (q t i r)) \<and> ring_state (fst (q t i r)) = Overflowed \<and> length (ring_list (fst (q t i r))) = USABLE_CAPACITY
      \<and> st_outcome (snd (q t i r)) = DurableOnly
      \<and> st_should_warn (snd (q t i r)) = (ring_state r = Healthy \<or> rg_last_warned_at r = 0
          \<or> QUEUE_WARN_INTERVAL_US \<le> saturating_i64 (t - rg_last_warned_at r))
      \<and> rg_rejected (fst (q t i r)) = saturating_inc_u64 (rg_rejected r)
      \<and> rg_last_warned_at (fst (q t i r)) = (if st_should_warn (snd (q t i r)) then t else rg_last_warned_at r)"
    if "ring_inv r" "ring_state r \<noteq> Corrupt" "length (ring_list r) = USABLE_CAPACITY" for t i r
  proof -
    have "rg_rejected (degrade_to Overflowed x) = rg_rejected x" "rg_last_warned_at (degrade_to Overflowed x) = rg_last_warned_at x" for x
      by (simp_all add: degrade_to_def)
    then show ?thesis
      using try_enqueue_full [OF that, of "event_id i" "test_user i" t EVENT_KIND_FAILURE 0 0] that(3)
      unfolding q_def by (auto simp: should_warn_now_def Let_def)
  qed
  have c: "ring_state r \<noteq> Corrupt" using r(3) by simp
  define r1 where "r1 = fst (q 1000000000 9 r)"
  have f1: "ring_inv r1" "ring_state r1 = Overflowed" "length (ring_list r1) = USABLE_CAPACITY" "rg_rejected r1 = 1"
    "rg_last_warned_at r1 = 1000000000" "st_outcome (snd (q 1000000000 9 r)) = DurableOnly" "st_should_warn (snd (q 1000000000 9 r))"
    using full [OF r(2) c r(4), of 1000000000 9] r(3,5,6) by (simp_all add: r1_def saturating_inc_u64_def U64_MAX_def)
  define r2 where "r2 = fst (q 1001000000 10 r1)"
  have f2: "ring_inv r2" "ring_state r2 = Overflowed" "length (ring_list r2) = USABLE_CAPACITY" "rg_rejected r2 = 2"
    "rg_last_warned_at r2 = 1000000000" "st_outcome (snd (q 1001000000 10 r1)) = DurableOnly" "\<not> st_should_warn (snd (q 1001000000 10 r1))"
    using full [OF f1(1) _ f1(3), of 1001000000 10] f1(2,4,5)
    by (simp_all add: r2_def saturating_inc_u64_def U64_MAX_def saturating_i64_def width_defs QUEUE_WARN_INTERVAL_US_def)
  define r3 where "r3 = fst (q 1060000000 11 r2)"
  have f3: "ring_inv r3" "ring_state r3 = Overflowed" "length (ring_list r3) = USABLE_CAPACITY" "rg_rejected r3 = 3"
    "rg_last_warned_at r3 = 1060000000" "st_outcome (snd (q 1060000000 11 r2)) = DurableOnly" "st_should_warn (snd (q 1060000000 11 r2))"
    using full [OF f2(1) _ f2(3), of 1060000000 11] f2(2,4,5)
    by (simp_all add: r3_def saturating_inc_u64_def U64_MAX_def saturating_i64_def width_defs QUEUE_WARN_INTERVAL_US_def)
  have f4: "rg_rejected (fst (q 1060000001 12 r3)) = 4" "\<not> st_should_warn (snd (q 1060000001 12 r3))"
    using full [OF f3(1) _ f3(3), of 1060000001 12] f3(2,4,5)
    by (simp_all add: saturating_inc_u64_def U64_MAX_def saturating_i64_def width_defs QUEUE_WARN_INTERVAL_US_def)
  have i: "(1000000000::timestamp) + QUEUE_WARN_INTERVAL_US = 1060000000" by (simp add: QUEUE_WARN_INTERVAL_US_def)
  show ?thesis
    unfolding full_queue_returns_full_counts_and_degrades_def r(1) Let_def case_prod_beta i q_def [symmetric]
    using r(3,5) f1 f2 f3 f4 by (simp add: r1_def [symmetric] r2_def [symmetric] r3_def [symmetric])
qed

lemma drain_loop_runs:
  assumes "ring_inv r" and "length (ring_list r) < n" and "ring_state r = Overflowed \<and> ring_list r \<noteq> [] \<or> ring_state r = Healthy \<and> ring_list r = []"
  shows "\<exists>r1. drain_loop n r rest = rest r1 \<and> ring_inv r1 \<and> ring_list r1 = [] \<and> ring_state r1 = Healthy"
  using assms
proof (induction n arbitrary: r)
  case (Suc n)
  show ?case
  proof (cases "ring_list r")
    case Nil
    then have "claim r = (r, None)" using claim_inv [OF Suc.prems(1)] claim_result [OF Suc.prems(1)] by (simp add: prod_eq_iff)
    then show ?thesis using Suc.prems Nil by (intro exI [of _ r]) simp
  next
    case (Cons e es)
    let ?t = "\<lparr>tk_slot = rg_tail r, tk_seq = ev_seq e\<rparr>"
    have c: "claim r = (r, Some (?t, e))" using claim_inv [OF Suc.prems(1)] claim_result [OF Suc.prems(1)] Cons by (simp add: prod_eq_iff)
    have a: "snd (ack ?t r) = Acknowledged" using ack_outcome [OF Suc.prems(1), of ?t] Cons by simp
    have "ring_inv (fst (ack ?t r))" by (rule ack_inv [OF Suc.prems(1)])
    moreover have l: "ring_list (fst (ack ?t r)) = es" using ack_list [OF Suc.prems(1), of ?t] a Cons by simp
    moreover have "ring_state (fst (ack ?t r)) = (if es = [] then Healthy else Overflowed)"
      using ack_state [OF Suc.prems(1), of ?t] a Cons Suc.prems(3) by auto
    ultimately have "\<exists>r1. drain_loop n (fst (ack ?t r)) rest = rest r1 \<and> ring_inv r1 \<and> ring_list r1 = [] \<and> ring_state r1 = Healthy"
      using Suc.IH [of "fst (ack ?t r)"] Suc.prems(2) Cons by auto
    then show ?thesis using c a by (simp add: acking_def case_prod_beta)
  qed
qed simp

lemma drain_test: "draining_an_overflowed_queue_recovers_health"
proof -
  obtain r where r: "\<And>rest. fill_loop 0 USABLE_CAPACITY ring_new rest = rest r" "ring_inv r" "ring_state r = Healthy"
    "length (ring_list r) = USABLE_CAPACITY" using filled_ring by metis
  let ?q = "try_enqueue (event_id 9) (test_user 9) 0 EVENT_KIND_FAILURE 0 0 r"
  have "ring_state r \<noteq> Corrupt" using r(3) by simp
  note full = try_enqueue_full [OF r(2) this r(4), of "event_id 9" "test_user 9" 0 EVENT_KIND_FAILURE 0 0]
  have "0 < length (ring_list r)" "length (ring_list r) < RING_SLOTS"
    using r(4) RING_SLOTS_gt1 unfolding USABLE_CAPACITY_def by linarith+
  then have n: "length (ring_list (fst ?q)) < RING_SLOTS" "ring_list (fst ?q) \<noteq> []"
    unfolding full(4) using length_greater_0_conv by blast+
  obtain r1 where r1: "drain_loop RING_SLOTS (fst ?q) (\<lambda>r. depth r = 0 \<and> ring_state r = Healthy) = (depth r1 = 0 \<and> ring_state r1 = Healthy)"
    "ring_inv r1" "ring_list r1 = []" "ring_state r1 = Healthy"
    using drain_loop_runs [OF full(2) n(1), of "\<lambda>r. depth r = 0 \<and> ring_state r = Healthy"] full(3) n(2) by blast
  have "depth r1 = 0" using r1(3) by (simp add: ring_list_def)
  moreover have "st_outcome (snd ?q) = DurableOnly" using full(1) by (simp add: case_prod_beta Let_def)
  ultimately show ?thesis
    using r1(1,4) full(3) by (simp add: draining_an_overflowed_queue_recovers_health_def r(1) Let_def case_prod_beta)
qed

section \<open>\<^verbatim>\<open>pending_cache_op.rs\<close>\<close>

definition TOP :: subid where "TOP = 1"
definition CHILD :: subid where "CHILD = 2"
definition GRANDCHILD :: subid where "GRANDCHILD = 3"
definition T1 :: timestamp where "T1 = 1000000"
definition T2 :: timestamp where "T2 = 2000000"

text \<open>A staging that must succeed, with the rest of the test.\<close>

definition staging :: "byte list \<Rightarrow> CacheDecision \<Rightarrow> subid \<Rightarrow> PendingState \<Rightarrow> (PendingState \<Rightarrow> bool) \<Rightarrow> bool" where
  "staging u d sub st rest = (let (st1, res) = stage_entry u (Some d) ExpiryNone sub st in res = Inr () \<and> rest st1)"

definition parent_set_child_clear_child_commit_parent_set :: bool where
  "parent_set_child_clear_child_commit_parent_set = (let a = test_user 0x61 in
     staging a (SetLock T1) TOP pending_new (\<lambda>st. staging a ClearLock CHILD st (\<lambda>st.
       staging a (SetLock T2) TOP (on_sub_commit CHILD TOP st) (\<lambda>st. resolved a st = Some (Some (SetLock T2))))))"

definition parent_set_child_clear_child_abort :: bool where
  "parent_set_child_clear_child_abort = (let a = test_user 0x61 in
     staging a (SetLock T1) TOP pending_new (\<lambda>st. staging a ClearLock CHILD st (\<lambda>st.
       resolved a (on_sub_abort CHILD st) = Some (Some (SetLock T1)))))"

definition parent_set_child_clear_child_commit :: bool where
  "parent_set_child_clear_child_commit = (let a = test_user 0x61 in
     staging a (SetLock T1) TOP pending_new (\<lambda>st. staging a ClearLock CHILD st (\<lambda>st.
       let st = on_sub_commit CHILD TOP st in resolved a st = Some (Some ClearLock) \<and> live st = 1)))"

definition nested_commits_then_parent_clear :: bool where
  "nested_commits_then_parent_clear = (let a = test_user 0x61 in
     staging a (SetLock T1) TOP pending_new (\<lambda>st. staging a (SetLock T2) CHILD st (\<lambda>st. staging a ClearLock GRANDCHILD st (\<lambda>st.
       staging a ClearLock TOP (on_sub_commit CHILD TOP (on_sub_commit GRANDCHILD CHILD st)) (\<lambda>st.
         resolved a st = Some (Some ClearLock) \<and> live st = 1)))))"

definition nested_grandchild_abort_restores_child_decision :: bool where
  "nested_grandchild_abort_restores_child_decision = (let a = test_user 0x61 in
     staging a (SetLock T1) TOP pending_new (\<lambda>st. staging a (SetLock T2) CHILD st (\<lambda>st. staging a ClearLock GRANDCHILD st (\<lambda>st.
       resolved a (on_sub_commit CHILD TOP (on_sub_abort GRANDCHILD st)) = Some (Some (SetLock T2))))))"

definition usernames_are_independent :: bool where
  "usernames_are_independent = (let a = test_user 0x61; b = test_user 0x62 in
     staging a (SetLock T1) TOP pending_new (\<lambda>st. staging b ClearLock TOP st (\<lambda>st. staging a ClearLock CHILD st (\<lambda>st.
       let st = on_sub_abort CHILD st in resolved a st = Some (Some (SetLock T1)) \<and> resolved b st = Some (Some ClearLock)))))"

definition same_level_restage_overwrites_in_place :: bool where
  "same_level_restage_overwrites_in_place = (let a = test_user 0x61 in
     staging a (SetLock T1) TOP pending_new (\<lambda>st. staging a ClearLock TOP st (\<lambda>st. staging a (SetLock T2) TOP st (\<lambda>st.
       live st = 1 \<and> resolved a st = Some (Some (SetLock T2))))))"

fun capacity_loop :: "nat \<Rightarrow> nat \<Rightarrow> PendingState \<Rightarrow> (PendingState \<Rightarrow> bool) \<Rightarrow> bool" where
  "capacity_loop i 0 st rest = rest st"
| "capacity_loop i (Suc n) st rest = staging (test_user (of_nat i + 1)) ClearLock TOP st (\<lambda>st. capacity_loop (Suc i) n st rest)"

definition capacity_is_bounded_and_refuses_rather_than_dropping :: bool where
  "capacity_is_bounded_and_refuses_rather_than_dropping = capacity_loop 0 MAX_PENDING_OPS pending_new (\<lambda>st.
     live st = MAX_PENDING_OPS
     \<and> (let (st, res) = stage_entry (test_user 0xff) (Some ClearLock) ExpiryNone TOP st
         in res = Inl StageCapacityExceeded \<and> live st = MAX_PENDING_OPS \<and> resolved (test_user 0xff) st = None))"

definition reset_clears_everything :: bool where
  "reset_clears_everything = (let a = test_user 0x61 in
     staging a (SetLock T1) TOP pending_new (\<lambda>st. let st = pending_reset st in pending_is_empty st \<and> resolved a st = None))"

lemma test_user_eq: "test_user a = test_user b \<longleftrightarrow> a = b"
  by (simp add: test_user_def LOCK_USERNAME_BYTES_def numeral_eq_Suc)

text \<open>The staging array of a list of entries, on which the operations compute by their list forms.\<close>

definition pend_of :: "PendingEntry list \<Rightarrow> PendingState" where
  "pend_of xs = \<lparr>pn_entries = map Some xs @ replicate (MAX_PENDING_OPS - length xs) None, pn_len = length xs, pn_ack = None\<rparr>"

lemma pend_of_rel: "length xs \<le> MAX_PENDING_OPS \<Longrightarrow> pend_rel (pend_of xs) xs"
  by (simp add: pend_rel_def pend_of_def)

lemma pend_of_unique: "pend_rel st xs \<Longrightarrow> pn_ack st = None \<Longrightarrow> st = pend_of xs"
  by (cases st) (simp add: pend_rel_def pend_of_def)

lemma pending_new_of: "pending_new = pend_of []"
  by (simp add: pending_new_def pend_of_def)

lemma stage_entry_of:
  assumes "length xs \<le> MAX_PENDING_OPS"
  shows "stage_entry u d x sub (pend_of xs) = (case stage_list u d x sub xs of
    Some ys \<Rightarrow> (pend_of ys, Inr ()) | None \<Rightarrow> (pend_of xs, Inl StageCapacityExceeded))"
proof -
  have "pn_ack (fst (stage_entry u d x sub (pend_of xs))) = None"
    by (auto simp: stage_entry_def pend_of_def Let_def split: option.split)
  then show ?thesis
    using stage_entry_refines [OF pend_of_rel [OF assms], of u d x sub] pend_of_unique [of "fst (stage_entry u d x sub (pend_of xs))"]
    by (auto simp: prod_eq_iff split: option.split)
qed

lemma staging_of:
  "length xs \<le> MAX_PENDING_OPS \<Longrightarrow> staging u d sub (pend_of xs) rest =
    (case stage_list u (Some d) ExpiryNone sub xs of Some ys \<Rightarrow> rest (pend_of ys) | None \<Rightarrow> False)"
  by (simp add: staging_def stage_entry_of split: option.split)

lemma sub_callbacks_of:
  assumes "length xs \<le> MAX_PENDING_OPS"
  shows "on_sub_commit sub par (pend_of xs) = pend_of (keep_latest (map (reparent sub par) xs))"
    and "on_sub_abort sub (pend_of xs) = pend_of (filter (\<lambda>e. pe_subid e \<noteq> sub) xs)"
proof -
  have ack: "pn_ack (pend_of xs) = None" by (simp add: pend_of_def)
  note c = on_sub_commit_refines [OF pend_of_rel [OF assms], of sub par] and a = on_sub_abort_refines [OF pend_of_rel [OF assms], of sub]
  show "on_sub_commit sub par (pend_of xs) = pend_of (keep_latest (map (reparent sub par) xs))"
    using c(2) ack by (intro pend_of_unique c(1)) simp
  show "on_sub_abort sub (pend_of xs) = pend_of (filter (\<lambda>e. pe_subid e \<noteq> sub) xs)"
    using a(2) ack by (intro pend_of_unique a(1)) simp
qed

definition resolved_list :: "byte list \<Rightarrow> PendingEntry list \<Rightarrow> CacheDecision option option" where
  "resolved_list u xs = foldl (\<lambda>found e. if pe_username e = u then Some (pe_decision e) else found) None xs"

lemma resolved_of: "length xs \<le> MAX_PENDING_OPS \<Longrightarrow> resolved u (pend_of xs) = resolved_list u xs"
  by (simp add: resolved_def resolved_list_def pend_of_def live_def foldl_map)

lemma live_of: "length xs \<le> MAX_PENDING_OPS \<Longrightarrow> live (pend_of xs) = length xs"
  by (simp add: pend_of_def live_def)

lemmas pending_lists = pending_new_of staging_of sub_callbacks_of resolved_of live_of stage_list_def reparent_def same_slot_def
  resolved_list_def TOP_def CHILD_def GRANDCHILD_def T1_def T2_def test_user_eq MAX_PENDING_OPS_def Let_def

lemma pending_tests:
  "parent_set_child_clear_child_commit_parent_set" "parent_set_child_clear_child_abort" "parent_set_child_clear_child_commit"
  "nested_commits_then_parent_clear" "nested_grandchild_abort_restores_child_decision" "usernames_are_independent"
  "same_level_restage_overwrites_in_place" "reset_clears_everything"
  by (simp_all add: parent_set_child_clear_child_commit_parent_set_def parent_set_child_clear_child_abort_def
      parent_set_child_clear_child_commit_def nested_commits_then_parent_clear_def
      nested_grandchild_abort_restores_child_decision_def usernames_are_independent_def
      same_level_restage_overwrites_in_place_def reset_clears_everything_def pending_lists)
    (simp add: pending_reset_def pending_is_empty_def live_def resolved_def)

lemma capacity_loop_runs:
  assumes "length xs + n \<le> MAX_PENDING_OPS" and "i + n \<le> 255"
    and "\<forall>e \<in> set xs. \<exists>j < i. pe_username e = test_user (of_nat j + 1)"
  shows "\<exists>ys. (\<forall>rest. capacity_loop i n (pend_of xs) rest = rest (pend_of ys)) \<and> length ys = length xs + n
    \<and> (\<forall>e \<in> set ys. \<exists>j < i + n. pe_username e = test_user (of_nat j + 1))"
  using assms
proof (induction n arbitrary: i xs)
  case (Suc n)
  let ?u = "test_user (of_nat i + 1)"
  have inj: "(of_nat j :: byte) = of_nat k \<longleftrightarrow> j = k" if "j < 255" "k < 255" for j k
    using that by (simp add: word_of_nat_eq_iff take_bit_eq_mod)
  have "pe_username e \<noteq> ?u" if "e \<in> set xs" for e
    using Suc.prems(2,3) that inj by (fastforce simp: test_user_eq)
  then have "update_first (\<lambda>e. pe_subid e = TOP \<and> pe_username e = ?u) f (rev xs) = None" for f
    by (auto simp: update_first_None_iff)
  then have st: "stage_list ?u (Some ClearLock) ExpiryNone TOP xs =
      Some (xs @ [\<lparr>pe_username = ?u, pe_decision = Some ClearLock, pe_expiry = ExpiryNone, pe_subid = TOP\<rparr>])"
    using Suc.prems(1) by (simp add: stage_list_def)
  let ?xs = "xs @ [\<lparr>pe_username = ?u, pe_decision = Some ClearLock, pe_expiry = ExpiryNone, pe_subid = TOP\<rparr>]"
  have "\<forall>e \<in> set ?xs. \<exists>j < Suc i. pe_username e = test_user (of_nat j + 1)"
    using Suc.prems(3) less_Suc_eq by auto
  from Suc.IH [OF _ _ this] Suc.prems(1,2) st show ?case by (simp add: staging_of)
qed auto

lemma capacity_test: "capacity_is_bounded_and_refuses_rather_than_dropping"
proof -
  obtain ys where ys: "\<forall>rest. capacity_loop 0 MAX_PENDING_OPS pending_new rest = rest (pend_of ys)" "length ys = MAX_PENDING_OPS"
    and names: "\<forall>e \<in> set ys. \<exists>j < MAX_PENDING_OPS. pe_username e = test_user (of_nat j + 1)"
    using capacity_loop_runs [of "[]" MAX_PENDING_OPS 0] by (auto simp: pending_new_of MAX_PENDING_OPS_def)
  have "pe_username e \<noteq> test_user 0xff" if "e \<in> set ys" for e
  proof -
    obtain j where j: "j < 16" "pe_username e = test_user (of_nat j + 1)" using names \<open>e \<in> set ys\<close> by (auto simp: MAX_PENDING_OPS_def)
    have "of_nat j + (1::byte) = of_nat (Suc j)" by simp
    moreover have "(of_nat (Suc j) :: byte) \<noteq> of_nat 255" using j(1) by (simp only: word_of_nat_eq_iff) (simp add: take_bit_eq_mod)
    ultimately show ?thesis using j(2) by (simp add: test_user_eq)
  qed
  then have "resolved_list (test_user 0xff) ys = None" and "update_first (\<lambda>e. pe_subid e = TOP \<and> pe_username e = test_user 0xff) f (rev ys) = None" for f
    by (induction ys) (auto simp: resolved_list_def update_first_None_iff)
  then show ?thesis
    using ys by (simp add: capacity_is_bounded_and_refuses_rather_than_dropping_def stage_entry_of live_of resolved_of stage_list_def)
qed

section \<open>\<^verbatim>\<open>expiry_cache.rs\<close>, \<^verbatim>\<open>bypass_cache.rs\<close> and \<^verbatim>\<open>lock_cache.rs\<close>\<close>

definition expiry_test_entry :: "byte \<Rightarrow> timestamp \<Rightarrow> timestamp \<Rightarrow> int \<Rightarrow> ExpiryEntry" where
  "expiry_test_entry tag must_change_by generation grace =
     \<lparr>ex_username = test_user tag, ex_must_change_by = must_change_by, ex_generation = generation, ex_grace_remaining = grace\<rparr>"

definition classify_covers_every_state :: bool where
  "classify_covers_every_state = (let now = 1000000 in
     classify (expiry_test_entry 1 (now + 1) 1 0) now = NotExpired
     \<and> classify (expiry_test_entry 1 (now - 1) 1 2) now = ExpiredWithGrace
     \<and> classify (expiry_test_entry 1 (now - 1) 1 0) now = ExpiredNoGrace
     \<and> classify (expiry_test_entry 1 now 1 0) now = ExpiredNoGrace)"

definition unknown_raw_expiry_state_maps_to_not_ready :: bool where
  "unknown_raw_expiry_state_maps_to_not_ready \<longleftrightarrow> expiry_state_from_raw 0 = ExpiryNotReady \<and> expiry_state_from_raw 1 = ExpiryReady
     \<and> expiry_state_from_raw 2 = ExpiryOverflow \<and> expiry_state_from_raw 3 = ExpiryWorkerFailed
     \<and> expiry_state_from_raw (- 5) = ExpiryNotReady \<and> expiry_state_from_raw 77 = ExpiryNotReady"

definition negative_grace_is_clamped_in_prepared_entries :: bool where
  "negative_grace_is_clamped_in_prepared_entries \<longleftrightarrow>
     ex_grace_remaining (expiry_prepared_entry (bytes_of ''bob'') 1000000 1000000 (- 3)) = 0"

definition unknown_raw_bypass_state_maps_to_not_ready :: bool where
  "unknown_raw_bypass_state_maps_to_not_ready \<longleftrightarrow> bypass_state_from_raw 0 = BypassNotReady \<and> bypass_state_from_raw 1 = BypassReady
     \<and> bypass_state_from_raw 2 = BypassOverflow \<and> bypass_state_from_raw 3 = BypassWorkerFailed
     \<and> bypass_state_from_raw (- 1) = BypassNotReady \<and> bypass_state_from_raw 99 = BypassNotReady"

definition prepared_entries_are_fixed_size_and_nul_padded :: bool where
  "prepared_entries_are_fixed_size_and_nul_padded = (let e = bypass_prepared_entry (bytes_of ''maint'')
     in take 5 e = bytes_of ''maint'' \<and> list_all (\<lambda>b. b = 0) (drop 5 e))"

definition one_microsecond_remaining_is_still_locked :: bool where
  "one_microsecond_remaining_is_still_locked \<longleftrightarrow> remaining_seconds_ceil (1700000000000000 + 1) 1700000000000000 = Some 1"

definition just_under_one_second_is_still_locked :: bool where
  "just_under_one_second_is_still_locked \<longleftrightarrow> remaining_seconds_ceil (1700000000000000 + 999999) 1700000000000000 = Some 1"

definition exactly_one_second :: bool where
  "exactly_one_second \<longleftrightarrow> remaining_seconds_ceil (1700000000000000 + MICROS_PER_SEC) 1700000000000000 = Some 1"

definition just_over_one_second_rounds_up :: bool where
  "just_over_one_second_rounds_up \<longleftrightarrow> remaining_seconds_ceil (1700000000000000 + MICROS_PER_SEC + 1) 1700000000000000 = Some 2"

definition expired_and_exactly_now_are_not_locked :: bool where
  "expired_and_exactly_now_are_not_locked \<longleftrightarrow> remaining_seconds_ceil 1700000000000000 1700000000000000 = None
     \<and> remaining_seconds_ceil (1700000000000000 - 1) 1700000000000000 = None"

definition infinity_does_not_overflow :: bool where
  "infinity_does_not_overflow = (case remaining_seconds_ceil I64_MAX 1700000000000000 of Some n \<Rightarrow> 0 < n | None \<Rightarrow> False)"

lemma cache_tests:
  "classify_covers_every_state" "unknown_raw_expiry_state_maps_to_not_ready" "negative_grace_is_clamped_in_prepared_entries"
  "unknown_raw_bypass_state_maps_to_not_ready" "prepared_entries_are_fixed_size_and_nul_padded"
  by (simp_all add: classify_covers_every_state_def unknown_raw_expiry_state_maps_to_not_ready_def
      negative_grace_is_clamped_in_prepared_entries_def unknown_raw_bypass_state_maps_to_not_ready_def
      prepared_entries_are_fixed_size_and_nul_padded_def Let_def classify_def expiry_test_entry_def
      expiry_state_from_raw_def bypass_state_from_raw_def expiry_prepared_entry_def bypass_prepared_entry_def)
    (simp add: encode_username_def Let_def bytes_of_def LOCK_USERNAME_BYTES_def list_all_iff)

lemma remaining_seconds_tests:
  "one_microsecond_remaining_is_still_locked" "just_under_one_second_is_still_locked" "exactly_one_second"
  "just_over_one_second_rounds_up" "expired_and_exactly_now_are_not_locked" "infinity_does_not_overflow"
  by (simp_all add: one_microsecond_remaining_is_still_locked_def just_under_one_second_is_still_locked_def exactly_one_second_def
      just_over_one_second_rounds_up_def expired_and_exactly_now_are_not_locked_def infinity_does_not_overflow_def
      remaining_seconds_ceil_def MICROS_PER_SEC_def wrap_i64_def saturating_i64_def width_defs)

section \<open>\<^verbatim>\<open>auth_journal.rs\<close>\<close>

definition journal_test_event :: SharedAuthEvent where
  "journal_test_event = \<lparr>ev_event_id = replicate 16 7, ev_username = encode_username (bytes_of ''alice''), ev_timestamp = 123,
     ev_seq = 42, ev_kind = EVENT_KIND_GRACE_CONSUMED, ev_generation = 99, ev_flags = EVENT_FLAG_CLEAR_LOGIN_ATTEMPTS\<rparr>"

definition fixed_record_round_trip_preserves_durable_fields :: "siphash \<Rightarrow> bool" where
  "fixed_record_round_trip_preserves_durable_fields sip =
     (case decode sip (encode sip journal_test_event) of
        Inr decoded \<Rightarrow> ev_event_id decoded = replicate 16 7 \<and> take 5 (ev_username decoded) = bytes_of ''alice''
          \<and> ev_timestamp decoded = 123 \<and> ev_generation decoded = 99 \<and> ev_kind decoded = EVENT_KIND_GRACE_CONSUMED
          \<and> ev_flags decoded = EVENT_FLAG_CLEAR_LOGIN_ATTEMPTS \<and> ev_seq decoded = 0
      | Inl _ \<Rightarrow> False)"

definition checksum_rejects_modified_record :: "siphash \<Rightarrow> bool" where
  "checksum_rejects_modified_record sip =
     (let bytes = encode sip journal_test_event; modified = bytes[25 := (bytes ! 25) XOR 0x40]
      in case decode sip modified of Inl (JournalCorrupt _) \<Rightarrow> True | _ \<Rightarrow> False)"

lemma journal_test_event_valid: "event_valid journal_test_event"
proof -
  have "representable (bytes_of ''alice'')" "utf8_valid (bytes_of ''alice'')"
    by (simp_all add: representable_def bytes_of_def LOCK_USERNAME_BYTES_def utf8_valid.simps(2))
  then have "username_from_bytes (encode_username (bytes_of ''alice'')) = Some (bytes_of ''alice'')" by (rule username_from_bytes_encode)
  then show ?thesis
    by (simp add: event_valid_def event_wf_def journal_test_event_def event_constants is_i64_def width_defs)
qed

lemma round_trip_test: "fixed_record_round_trip_preserves_durable_fields sip"
  using decode_encode [OF journal_test_event_valid, of sip]
  by (simp add: fixed_record_round_trip_preserves_durable_fields_def journal_test_event_def)
    (simp add: encode_username_def Let_def bytes_of_def LOCK_USERNAME_BYTES_def)

text \<open>The second journal test holds for every hash function that tells the two records apart.\<close>

lemma checksum_test:
  assumes "checksum sip ((record_body journal_test_event)[25 := (record_body journal_test_event ! 25) XOR 0x40])
    \<noteq> checksum sip (record_body journal_test_event)"
  shows "checksum_rejects_modified_record sip"
proof -
  let ?b = "record_body journal_test_event" and ?e = "encode sip journal_test_event"
  let ?m = "?e[25 := (?e ! 25) XOR 0x40]"
  have len: "length ?b = CHECKSUM_OFFSET" using record_body_length journal_test_event_valid event_valid_wf by blast
  then have c: "(25::nat) < length ?b" by (simp add: CHECKSUM_OFFSET_def RECORD_SIZE_def)
  have e: "?e = ?b @ le_bytes 8 (unat (checksum sip ?b))" by (simp add: encode_def Let_def)
  have m: "take CHECKSUM_OFFSET ?m = ?b[25 := (?b ! 25) XOR 0x40]" "drop CHECKSUM_OFFSET ?m = drop CHECKSUM_OFFSET ?e"
    using c len by (simp_all add: e nth_append list_update_append)
  have b: "take CHECKSUM_OFFSET ?e = ?b" using len by (simp add: e)
  have "word_of_nat (from_le (drop CHECKSUM_OFFSET ?e)) = checksum sip ?b"
    using encode_checksum [OF event_valid_wf [OF journal_test_event_valid], of sip] unfolding b by (rule sym)
  then have "checksum sip (take CHECKSUM_OFFSET ?m) \<noteq> word_of_nat (from_le (drop CHECKSUM_OFFSET ?m))"
    unfolding m using assms by simp
  then show ?thesis by (simp add: checksum_rejects_modified_record_def Let_def decode_def)
qed

section \<open>\<^verbatim>\<open>lib.rs\<close>\<close>

text \<open>
  The tests of \<^verbatim>\<open>lib.rs\<close> run inside a server. The ones that only call the code are replayed here; those
  that create roles and tables through SQL are replayed on a database with the rows they insert.
\<close>

definition role_catalog :: "string \<Rightarrow> pg_catalog" where
  "role_catalog name = \<lparr>ct_user = (\<lambda>u. if u = bytes_of name then Some \<lparr>us_super = False, us_config = []\<rparr> else None),
     ct_role_exists = (\<lambda>u. u = bytes_of name)\<rparr>"

definition test_user_exists_real_user :: bool where
  "test_user_exists_real_user \<longleftrightarrow>
     password_profile_user_exists (role_catalog ''test_exists_user'') (Some (bytes_of ''test_exists_user'')) = 1"

definition test_user_exists_fake_user :: bool where
  "test_user_exists_fake_user \<longleftrightarrow>
     password_profile_user_exists (role_catalog ''test_exists_user'') (Some (bytes_of ''definitely_not_exists_99999'')) = 0"

definition test_user_exists_null :: bool where
  "test_user_exists_null \<longleftrightarrow> password_profile_user_exists (role_catalog ''test_exists_user'') None = -1"

definition test_record_failed_login_basic :: "timestamp \<Rightarrow> bool" where
  "test_record_failed_login_basic now =
     (let u = bytes_of ''test_fail_user''
      in case record_failed_login (plain_env now) (role_catalog ''test_fail_user'') guc_default u fresh_session of
           (s, Inr _) \<Rightarrow> 0 < (case map_of (db_login_attempts (ss_db s)) u of Some r \<Rightarrow> la_fail_count r | None \<Rightarrow> 0)
         | (s, Inl _) \<Rightarrow> False)"

text \<open>The test runs as a superuser of the server; \<open>u\<close> has five failures on record.\<close>

definition test_clear_login_attempts :: "pg_catalog \<Rightarrow> username \<Rightarrow> timestamp \<Rightarrow> bool" where
  "test_clear_login_attempts cat current_user now =
     (let u = bytes_of ''test_clear_user'';
          s0 = on_login_attempts (AList.update u \<lparr>la_fail_count = 5, la_last_fail = now, la_lockout_until = None\<rparr>) fresh_session
      in case sql_clear_login_attempts (plain_env now) cat current_user u s0 of
           (s, Inr _) \<Rightarrow> length (filter (\<lambda>r. fst r = u) (db_login_attempts (ss_db s))) = 0
         | (s, Inl _) \<Rightarrow> False)"

definition test_password_validation_weak :: "pg_ext \<Rightarrow> policy_ext \<Rightarrow> session \<Rightarrow> bool" where
  "test_password_validation_weak px po s =
     (case password_check_hook (plain_env 0) px po (role_catalog ''test_weak'') guc_default (NamedDatabase ''postgres'') False
             (Some (bytes_of ''test_weak'')) (Some (bytes_of ''weak'')) PASSWORD_TYPE_PLAINTEXT s of
        (s1, Inl _) \<Rightarrow> True | (s1, Inr _) \<Rightarrow> False)"

definition test_detect_hash_password :: "policy_ext \<Rightarrow> bool" where
  "test_detect_hash_password po \<longleftrightarrow>
     list_all (\<lambda>attempt. is_hash_like po (bytes_of attempt))
       [''md5c4ca4238a0b923820dcc509a6f75849b'', ''SCRAM-SHA-256$'', ''$2a$10$abcdefghijklmnopqrstuv'']
     \<and> \<not> is_hash_like po (bytes_of ''MyPassword123!'')"

text \<open>
  The row the test inserts ends its lockout two minutes after \<^verbatim>\<open>now()\<close>; the decision read back from it
  goes into the cache, which then reports the user locked.
\<close>

definition test_lock_cache_decision_populates_cache :: "timestamp \<Rightarrow> bool" where
  "test_lock_cache_decision_populates_cache now =
     (let u = bytes_of ''lock_user_stats'';
          s0 = on_login_attempts (AList.update u \<lparr>la_fail_count = 5, la_last_fail = now,
            la_lockout_until = Some (now + 2 * MICROS_PER_MINUTE)\<rparr>) fresh_session
      in case decision_from_db (plain_env now) u s0 of
           (_, Inr (SetLock expires_at)) \<Rightarrow>
             let (c, status) = lock_set now (encode_username u) expires_at (Some lock_cache_new)
             in status = Applied \<and> 0 < (case remaining_seconds now u c of Some x \<Rightarrow> x | None \<Rightarrow> 0)
         | _ \<Rightarrow> False)"

definition test_record_failed_login_triggers_lockout :: "timestamp \<Rightarrow> bool" where
  "test_record_failed_login_triggers_lockout now =
     (let u = bytes_of ''test_lockout_user''; cat = role_catalog ''test_lockout_user'';
          g = guc_default\<lparr>FAILED_LOGIN_MAX := 2, LOCKOUT_MINUTES := 1\<rparr>
      in case record_failures cat g u [plain_env now, plain_env now] fresh_session of
           Some s \<Rightarrow> (case lockout_until_of (db_login_attempts (ss_db s)) u of Some x \<Rightarrow> now < x | None \<Rightarrow> False)
         | None \<Rightarrow> False)"

lemma role_catalog_tracked: "tracked (role_catalog name) g (bytes_of name) (FAILED_LOGIN_MAX g) (LOCKOUT_MINUTES g)"
  by (simp add: tracked_def role_catalog_def user_is_super_def user_bypass_def user_config_def role_override_def)

lemma user_exists_tests: "test_user_exists_real_user" "test_user_exists_fake_user" "test_user_exists_null"
  by (simp_all add: test_user_exists_real_user_def test_user_exists_fake_user_def test_user_exists_null_def
      password_profile_user_exists_def role_catalog_def bytes_of_def)

lemma record_basic_test: "test_record_failed_login_basic now"
  using record_failed_login_returns [OF plain_env_good role_catalog_tracked, of fresh_session "''test_fail_user''" now guc_default]
  by (auto simp: test_record_failed_login_basic_def fresh_session_def empty_database_def counted_failure_def)

lemma clear_test:
  assumes "user_is_super cat current_user"
  shows "test_clear_login_attempts cat current_user now"
proof -
  let ?u = "bytes_of ''test_clear_user''"
  let ?s0 = "on_login_attempts (AList.update ?u \<lparr>la_fail_count = 5, la_last_fail = now, la_lockout_until = None\<rparr>) fresh_session"
  have "ss_pending ?s0 = pending_new" by (simp add: on_login_attempts_def fresh_session_def)
  from clear_good_returns [OF plain_env_good this, of now ?u True]
  obtain s1 where c: "clear_login_attempts_internal (plain_env now) ?u True ?s0 = (s1, Inr ())" by blast
  then have "db_login_attempts (ss_db s1) = AList.delete ?u (db_login_attempts (ss_db ?s0))"
    using clear_internal_returns(1) [OF c] by simp
  then show ?thesis using assms c
    by (auto simp: test_clear_login_attempts_def sql_clear_login_attempts_def Let_def spi_def plain_env_def AList.delete_eq filter_empty_conv)
qed

lemma weak_password_test: "test_password_validation_weak px plain_policy s"
proof -
  let ?w = "bytes_of ''weak''" and ?u = "bytes_of ''test_weak''"
  have h: "\<not> is_hash_like plain_policy ?w" "utf8_valid ?w" "utf8_valid ?u" "?w \<noteq> []"
    by (simp_all add: is_hash_like_def starts_with_def bytes_of_def plain_policy_def ascii_lower_def utf8_valid.simps(2))
  have "validate_password (plain_env 0) px plain_policy (role_catalog ''test_weak'') guc_default ?u ?w d = Inl TooShort" for d
    using h(1) by (simp add: validate_password_def plain_env_def user_bypass_def user_config_def role_catalog_def
        read_role_policy_def role_setting_def guc_default_def check_text_def Let_def bytes_of_def)
  then show ?thesis
    using h by (simp add: test_password_validation_weak_def password_check_hook_def require_control_database_def)
qed

lemma decision_test: "0 \<le> now \<Longrightarrow> now + 2 * MICROS_PER_MINUTE \<le> I64_MAX \<Longrightarrow> test_lock_cache_decision_populates_cache now"
proof -
  assume now: "0 \<le> now" "now + 2 * MICROS_PER_MINUTE \<le> I64_MAX"
  let ?u = "bytes_of ''lock_user_stats''" and ?x = "now + 2 * MICROS_PER_MINUTE"
  have x: "now < ?x" "is_i64 ?x" using now by (simp_all add: MICROS_PER_MINUTE_def MICROS_PER_SEC_def is_i64_def width_defs)
  have used: "slot_used (encode_username ?u)" by (simp add: slot_used_def encode_username_def bytes_of_def Let_def LOCK_USERNAME_BYTES_def)
  have free: "LockEntry_new \<in> set (lc_entries lock_cache_new)" "\<not> slot_used (lk_username LockEntry_new)"
    by (simp_all add: lock_cache_new_def LockEntry_new_def LOCK_CACHE_SIZE_def slot_used_def EMPTY_USERNAME_def LOCK_USERNAME_BYTES_def)
  obtain c where c: "lock_set now (encode_username ?u) ?x (Some lock_cache_new) = (c, Applied)"
  proof (cases "lock_set now (encode_username ?u) ?x (Some lock_cache_new)")
    case (Pair c st)
    then show ?thesis using lock_set_overflowed(2) [of now _ _ lock_cache_new c] free that by (cases st) auto
  qed
  obtain k where k: "c = Some k" "lock_inv k" "lock_view now k (encode_username ?u) = Some ?x"
    using lock_set_applied [OF lock_cache_new_inv x(1) used c] x(1) by auto
  then have "remaining_seconds now ?u c = remaining_seconds_ceil ?x now" by (simp add: remaining_seconds_view)
  moreover have "\<exists>s \<ge> 1. remaining_seconds_ceil ?x now = Some s" using remaining_seconds_ceil_bounds [OF now(1) x(2,1)] by blast
  ultimately show ?thesis using c x(1)
    by (auto simp: test_lock_cache_decision_populates_cache_def Let_def decision_from_db_def spi_def plain_env_def
        on_login_attempts_def lockout_until_of_def decision_for_def)
qed

lemma lockout_test: "test_record_failed_login_triggers_lockout now"
proof -
  let ?g = "guc_default\<lparr>FAILED_LOGIN_MAX := 2, LOCKOUT_MINUTES := 1\<rparr>" and ?u = "bytes_of ''test_lockout_user''"
  let ?envs = "[plain_env now, plain_env now]"
  have "tracked (role_catalog ''test_lockout_user'') ?g ?u 2 1"
    using role_catalog_tracked [of "''test_lockout_user''" ?g] by simp
  moreover have "map_of (db_login_attempts (ss_db fresh_session)) ?u = failure_row 2 1 0 now"
    by (simp add: fresh_session_def empty_database_def failure_row_def)
  ultimately obtain s1 where "record_failures (role_catalog ''test_lockout_user'') ?g ?u ?envs fresh_session = Some s1"
    "map_of (db_login_attempts (ss_db s1)) ?u = failure_row 2 1 (0 + length ?envs) (de_now (last ?envs))"
    using record_failures_row [of ?envs "role_catalog ''test_lockout_user''" ?g ?u 2 1 0 fresh_session now]
    by (auto simp: width_defs)
  then show ?thesis
    by (simp add: test_record_failed_login_triggers_lockout_def lockout_until_of_def failure_row_def plain_env_def
        MICROS_PER_MINUTE_def MICROS_PER_SEC_def)
qed

lemma detect_hash_test: "test_detect_hash_password plain_policy"
  by (simp add: test_detect_hash_password_def is_hash_like_def starts_with_def bytes_of_def plain_policy_def ascii_lower_def
      is_ascii_hexdigit_def)

end
